(* ===== verification/Prelude.thy ===== *)
theory Prelude
  imports Main "HOL-Library.Word"
begin

text \<open>
  Shared vocabulary of the development: the C integer types as fixed-width words, the errno
  values of the platform, memory bytes and their little-endian reading, C characters and
  strings, and the generic list lemmas the component theories use.

  Conventions of the whole library.  An \<open>int\<close> result of the C code is an \<open>int\<close> here, zero or
  positive on success and minus an errno value on failure, as in the code.  A pointer/length
  pair is a byte list.  A C string is a \<open>string\<close> without its terminating NUL.  A pointer that
  may be NULL is an \<open>option\<close>.  Calls to the logger are left out: they change no state that any
  of the modelled functions reads (the logger itself is modelled in the theory Log).
\<close>

unbundle bit_operations_syntax

section \<open>Machine integers and memory\<close>

type_synonym u8 = "8 word"
type_synonym u16 = "16 word"
type_synonym u32 = "32 word"
type_synonym u64 = "64 word"
type_synonym bytes = "u8 list"

named_theorems codec_simps \<open>decoders applied to their encoders\<close>
named_theorems byte_len \<open>lengths of encoded values\<close>

text \<open>The 4 bytes of a 32-bit object in memory on a little-endian machine, and the value
  read back from 4 such bytes.\<close>

definition le32_bytes :: "u32 \<Rightarrow> bytes" where
  "le32_bytes x =
     [ucast x, ucast (drop_bit 8 x), ucast (drop_bit 16 x), ucast (drop_bit 24 x)]"

definition le32 :: "u8 \<Rightarrow> u8 \<Rightarrow> u8 \<Rightarrow> u8 \<Rightarrow> u32" where
  "le32 b0 b1 b2 b3 =
     ucast b0 OR push_bit 8 (ucast b1) OR push_bit 16 (ucast b2) OR push_bit 24 (ucast b3)"

definition le32_at :: "bytes \<Rightarrow> nat \<Rightarrow> u32" where
  "le32_at bs i = le32 (bs ! i) (bs ! (i + 1)) (bs ! (i + 2)) (bs ! (i + 3))"

text \<open>\<open>memcpy(&buf[off], src, length src)\<close>; \<open>memset\<close> copies a \<open>replicate\<close>.\<close>

definition memcpy_at :: "'a list \<Rightarrow> nat \<Rightarrow> 'a list \<Rightarrow> 'a list" where
  "memcpy_at buf off src = take off buf @ src @ drop (off + length src) buf"

text \<open>\<open>ntohl\<close> and \<open>htons\<close> on a little-endian machine reverse the bytes.\<close>

definition ntohl :: "u32 \<Rightarrow> u32" where
  "ntohl x = (case le32_bytes x of
      [b0, b1, b2, b3] \<Rightarrow> le32 b3 b2 b1 b0 | _ \<Rightarrow> 0)"

definition htons :: "u16 \<Rightarrow> u16" where
  "htons x = push_bit 8 x OR drop_bit 8 x"

section \<open>errno values\<close>

text \<open>The Linux values of the errno constants the code names.\<close>

abbreviation (input) EINTR :: int where "EINTR \<equiv> 4"
abbreviation (input) ECHILD :: int where "ECHILD \<equiv> 10"
abbreviation (input) ENOMEM :: int where "ENOMEM \<equiv> 12"
abbreviation (input) EACCES :: int where "EACCES \<equiv> 13"
abbreviation (input) EBUSY :: int where "EBUSY \<equiv> 16"
abbreviation (input) EINVAL :: int where "EINVAL \<equiv> 22"
abbreviation (input) ENOSPC :: int where "ENOSPC \<equiv> 28"
abbreviation (input) EPIPE :: int where "EPIPE \<equiv> 32"
abbreviation (input) EPROTOTYPE :: int where "EPROTOTYPE \<equiv> 91"
abbreviation (input) EADDRNOTAVAIL :: int where "EADDRNOTAVAIL \<equiv> 99"
abbreviation (input) ECONNRESET :: int where "ECONNRESET \<equiv> 104"
abbreviation (input) ENOTCONN :: int where "ENOTCONN \<equiv> 107"
abbreviation (input) ETIMEDOUT :: int where "ETIMEDOUT \<equiv> 110"

section \<open>Characters\<close>

definition byte_of_char :: "char \<Rightarrow> u8" where
  "byte_of_char c = of_nat (of_char c)"

definition char_of_byte :: "u8 \<Rightarrow> char" where
  "char_of_byte b = char_of (unat b)"

abbreviation bytes_of_string :: "string \<Rightarrow> bytes" where
  "bytes_of_string s \<equiv> map byte_of_char s"

abbreviation string_of_bytes :: "bytes \<Rightarrow> string" where
  "string_of_bytes bs \<equiv> map char_of_byte bs"

text \<open>The value of a \<open>char\<close>, which is signed on the platform.\<close>

definition schar :: "char \<Rightarrow> int" where
  "schar c = (let n = of_char c in if n < 128 then n else n - 256)"

abbreviation NUL :: char where "NUL \<equiv> CHR 0x00"
abbreviation TAB :: char where "TAB \<equiv> CHR 0x09"
abbreviation LF :: char where "LF \<equiv> CHR 0x0A"
abbreviation CR :: char where "CR \<equiv> CHR 0x0D"

text \<open>The C string that starts at the beginning of a buffer: everything before the first NUL.\<close>

definition cstr :: "string \<Rightarrow> string" where
  "cstr s = takeWhile (\<lambda>c. c \<noteq> NUL) s"

text \<open>The decimal notation of a number.\<close>

fun dec :: "nat \<Rightarrow> string" where
  "dec n = (if n < 10 then [char_of (48 + n)] else dec (n div 10) @ [char_of (48 + n mod 10)])"

declare dec.simps [simp del]

section \<open>Lemmas\<close>

lemma length_le32_bytes [simp, byte_len]: "length (le32_bytes x) = 4"
  by (simp add: le32_bytes_def)

lemma le32_le32_bytes [simp, codec_simps]:
  "le32 (ucast x) (ucast (drop_bit 8 x)) (ucast (drop_bit 16 x)) (ucast (drop_bit 24 x)) = x"
  unfolding le32_def
proof (rule bit_word_eqI)
  fix n :: nat
  assume "n < LENGTH(32)"
  moreover have "24 \<le> n \<Longrightarrow> 24 + (n - 24) = n" and "16 \<le> n \<Longrightarrow> 16 + (n - 16) = n"
    and "8 \<le> n \<Longrightarrow> 8 + (n - 8) = n"
    by simp_all
  ultimately show "bit ((ucast (ucast x :: u8) :: u32) OR push_bit 8 (ucast (ucast (drop_bit 8 x) :: u8))
      OR push_bit 16 (ucast (ucast (drop_bit 16 x) :: u8))
      OR push_bit 24 (ucast (ucast (drop_bit 24 x) :: u8))) n = bit x n"
    by (cases "n < 8"; cases "n < 16"; cases "n < 24") (auto simp: bit_simps not_less)
qed

lemma le32_at_le32_bytes [simp, codec_simps]: "le32_at (le32_bytes x @ bs) 0 = x"
  by (simp add: le32_at_def le32_bytes_def)

lemma le32_at_append:
  "length xs = n \<Longrightarrow> le32_at (xs @ ys) n = le32_at ys 0"
  by (simp add: le32_at_def nth_append numeral_2_eq_2)

lemma le32_bytes_le32 [simp, codec_simps]: "le32_bytes (le32 a b c d) = [a, b, c, d]"
  unfolding le32_bytes_def le32_def
  by (simp, intro conjI; rule bit_word_eqI)
     (auto simp: bit_simps dest: bit_imp_le_length)

lemma ntohl_le32 [simp]: "ntohl (le32 a b c d) = le32 d c b a"
  by (simp add: ntohl_def)

lemma length_memcpy_at [simp]:
  "off + length src \<le> length buf \<Longrightarrow> length (memcpy_at buf off src) = length buf"
  by (simp add: memcpy_at_def)

lemma take_memcpy_at [simp]:
  "off + length src \<le> length buf \<Longrightarrow>
   take (off + length src) (memcpy_at buf off src) = take off buf @ src"
  by (simp add: memcpy_at_def)

lemma memcpy_at_full:
  "off + length src = length buf \<Longrightarrow> memcpy_at buf off src = take off buf @ src"
  by (simp add: memcpy_at_def)

lemma char_of_byte_of_char [simp, codec_simps]: "char_of_byte (byte_of_char c) = c"
  by (simp add: char_of_byte_def byte_of_char_def unat_of_nat)

lemma byte_of_char_of_byte [simp, codec_simps]: "byte_of_char (char_of_byte b) = b"
proof -
  have "unat b < 256"
    using unsigned_less [of b, where ?'a = nat] by simp
  then show ?thesis
    by (simp add: char_of_byte_def byte_of_char_def of_char_of)
qed

lemma inj_byte_of_char: "inj byte_of_char"
  by (metis injI char_of_byte_of_char)

lemma byte_of_char_eq_iff [simp]: "byte_of_char c = byte_of_char d \<longleftrightarrow> c = d"
  using inj_byte_of_char by (auto dest: injD)

lemma cstr_append_NUL [simp]: "NUL \<notin> set s \<Longrightarrow> cstr (s @ NUL # t) = s"
  unfolding cstr_def by (subst takeWhile_append2) auto

lemma cstr_no_NUL [simp]: "NUL \<notin> set s \<Longrightarrow> cstr s = s"
  unfolding cstr_def by (auto simp: takeWhile_eq_all_conv)

lemma NUL_notin_cstr [simp]: "NUL \<notin> set (cstr s)"
  unfolding cstr_def by (auto dest: set_takeWhileD)

section \<open>Decimal notation\<close>

lemma dec_short:
  "q < 10 \<Longrightarrow> dec q = [char_of (48 + q)]"
  "10 \<le> q \<Longrightarrow> dec q = dec (q div 10) @ [char_of (48 + q mod 10)]"
  by (simp_all add: dec.simps [of q])

lemma dec_digits: "NUL \<notin> set (dec n)"
proof (induction n rule: dec.induct)
  case (1 n)
  have nz: "NUL \<noteq> char_of (48 + k)" if "k < 10" for k :: nat
  proof
    assume "NUL = char_of (48 + k)"
    then have "of_char NUL = (of_char (char_of (48 + k) :: char) :: nat)"
      by (rule arg_cong)
    with that show False
      by simp
  qed
  from 1 show ?case
    using nz [of n] nz [of "n mod 10"] by (subst dec.simps) simp
qed

lemma length_dec: "n < 10 ^ Suc k \<Longrightarrow> length (dec n) \<le> Suc k"
proof (induction k arbitrary: n)
  case 0
  then show ?case
    by (simp add: dec.simps)
next
  case (Suc k)
  then have "length (dec (n div 10)) \<le> Suc k"
    using Suc.IH [of "n div 10"] by (simp add: div_less_iff_less_mult mult.commute)
  then show ?case
    by (subst dec.simps) simp
qed

lemma dec_nonempty: "0 < length (dec n)"
  by (simp add: dec.simps)

section \<open>Quotients, counters and buffers\<close>

lemma div_mod_add_small:
  fixes a b n :: nat
  assumes "a mod n + b < n"
  shows "(a + b) div n = a div n" and "(a + b) mod n = a mod n + b"
proof -
  have gen: "(n * q + (r + b)) div n = q \<and> (n * q + (r + b)) mod n = r + b"
    if "r + b < n" for q r
    using that by simp
  have eq: "n * (a div n) + (a mod n + b) = a + b"
    by simp
  show "(a + b) div n = a div n" and "(a + b) mod n = a mod n + b"
    using gen [OF assms, of "a div n"] unfolding eq by simp_all
qed

lemma div_mod_add_full:
  fixes a b n :: nat
  assumes "a mod n + b = n"
  shows "a + b = n * Suc (a div n)"
proof -
  have "a + b = n * (a div n) + (a mod n + b)"
    by simp
  then show ?thesis
    unfolding assms by simp
qed

lemma memcpy_at_memcpy_at:
  assumes "n = off + length x" and "n + length y \<le> length buf"
  shows "memcpy_at (memcpy_at buf off x) n y = memcpy_at buf off (x @ y)"
  using assms by (simp add: memcpy_at_def add.commute add.left_commute)

lemma list_update_memcpy_at: "off < length buf \<Longrightarrow> buf[off := x] = memcpy_at buf off [x]"
  by (simp add: memcpy_at_def upd_conv_take_nth_drop)

lemma unat_and_63: "unat (w AND 0x3f :: u32) = unat w mod 64"
proof -
  have "(0x3f :: u32) = mask 6"
    by (simp add: mask_eq_exp_minus_1)
  then show ?thesis
    by (simp only: take_bit_eq_mask [symmetric] unsigned_take_bit_eq) (simp add: take_bit_eq_mod)
qed

lemma carry_nat:
  fixes L n M :: nat
  assumes "0 < M"
  shows "(L + n) div M = L div M + n div M + (if (L + n) mod M < L mod M then 1 else 0)"
proof -
  define a b where "a = L mod M" and "b = n mod M"
  have ab: "a < M" "b < M"
    using assms by (simp_all add: a_def b_def)
  have m: "(L + n) mod M = (a + b) mod M"
    by (simp add: a_def b_def mod_simps)
  have d: "(L + n) div M = L div M + n div M + (a + b) div M"
    unfolding a_def b_def by (rule div_add1_eq)
  show ?thesis
  proof (cases "a + b < M")
    case True
    then show ?thesis
      by (simp add: m d flip: a_def)
  next
    case False
    then obtain k where c: "a + b = k + M" and "k < M" and "k < a"
      using ab that [of "a + b - M"] by auto
    then have "(a + b) mod M = k" and "(a + b) div M = 1"
      using assms by (simp_all add: c div_add_self2)
    with \<open>k < a\<close> show ?thesis
      by (simp add: m d flip: a_def)
  qed
qed

lemma le32_eq_of_nat:
  "le32 a b c d = of_nat (unat a + 2 ^ 8 * unat b + 2 ^ 16 * unat c + 2 ^ 24 * unat d)"
proof -
  define n where "n = unat a + 2 ^ 8 * unat b + 2 ^ 16 * unat c + 2 ^ 24 * unat d"
  have lt: "unat a < 256" "unat b < 256" "unat c < 256" "unat d < 256"
    using unsigned_less [where ?'a = nat and ?'b = 8] by simp_all
  then have nlt: "n < 4294967296"
    by (simp add: n_def)
  have byte: "(ucast (drop_bit k (of_nat n :: u32)) :: u8) = x"
    if "n div 2 ^ k mod 256 = unat x" for k and x :: u8
    using that nlt
    by (simp only: word_unat_eq_iff unsigned_ucast_eq unsigned_drop_bit_eq unsigned_of_nat)
       (simp add: take_bit_eq_mod drop_bit_eq_div)
  have dm: "(x + 256 * r) div 256 = r" "(x + 256 * r) mod 256 = x" if "x < 256" for x r :: nat
    using that by simp_all
  have n: "n = unat a + 256 * (unat b + 256 * (unat c + 256 * unat d))"
    by (simp add: n_def)
  have n0: "n mod 256 = unat a" and n1: "n div 256 = unat b + 256 * (unat c + 256 * unat d)"
    unfolding n using lt by (simp_all only: dm)
  have n2: "n div 65536 = unat c + 256 * unat d"
    using div_mult2_eq [of n 256 256] lt by (simp only: n1 dm) simp
  have n3: "n div 16777216 = unat d"
    using div_mult2_eq [of n 65536 256] lt by (simp only: n2 dm) simp
  have n1': "n div 256 mod 256 = unat b"
    unfolding n1 using lt by (simp only: dm)
  have "ucast (of_nat n :: u32) = a" "ucast (drop_bit 8 (of_nat n :: u32)) = b"
    using byte [of 0 a] byte [of 8 b] n0 n1' by simp_all
  moreover have "ucast (drop_bit 16 (of_nat n :: u32)) = c" "ucast (drop_bit 24 (of_nat n :: u32)) = d"
    using byte [of 16 c] byte [of 24 d] n2 n3 lt by simp_all
  ultimately have "le32_bytes (of_nat n) = [a, b, c, d]"
    by (simp add: le32_bytes_def)
  then show ?thesis
    using le32_le32_bytes [of "of_nat n"] by (simp add: le32_bytes_def n_def)
qed

section \<open>Fixed-width encodings\<close>

text \<open>The contract of an encoder into a fixed number of characters or bytes and its decoder.
  The client lemmas are what a reader of a concatenation of such records needs.\<close>

locale codec =
  fixes encode :: "'a \<Rightarrow> 'b list"
    and decode :: "'b list \<Rightarrow> 'a"
    and width :: nat
  assumes length_encode: "length (encode x) = width"
    and decode_encode: "decode (encode x) = x"
begin

lemma encode_eq_iff: "encode x = encode y \<longleftrightarrow> x = y"
  by (metis decode_encode)

lemma encode_append_eq: "encode x @ r = encode y @ s \<longleftrightarrow> x = y \<and> r = s"
  using length_encode encode_eq_iff by (metis append_eq_append_conv)

lemma decode_take: "decode (take width (encode x @ r)) = x"
  using length_encode [of x] decode_encode by simp

lemma drop_encode: "drop width (encode x @ r) = r"
  using length_encode [of x] by simp

lemma concat_encode_eq_iff:
  "length xs = length ys \<Longrightarrow>
   concat (map encode xs) = concat (map encode ys) \<longleftrightarrow> xs = ys"
  by (induction xs ys rule: list_induct2) (auto simp: encode_append_eq)

end

end
