(* ===== verification/Os.thy ===== *)
theory Os
  imports Prelude
begin

text \<open>
  The environment the program runs in: the allocator, POSIX threads and the socket calls, as far
  as the sources use them.

  What the environment decides is data in the state \<open>os\<close>, so that a theorem for every \<open>os\<close> is a
  theorem for every behaviour of the environment and a witness evaluates on one behaviour.
  \<open>script\<close> holds the outcomes of the calls that may fail (0 success, otherwise the errno value;
  an empty script means that everything succeeds).  \<open>live\<close> and \<open>threads\<close> count what is allocated
  and not freed, created and not joined.  A socket carries what its peer will do: \<open>sk_rx\<close> is what
  successive receive calls get, \<open>sk_tx\<close> how much successive send calls accept; \<open>sk_wire\<close> and
  \<open>sk_dgrams\<close> record what was sent.  \<open>peers\<close> holds the peers of the sockets still to come.
  Blocking is not modelled: a receive call whose peer does nothing more reports the end of the
  stream.
\<close>

section \<open>State\<close>

text \<open>The contents of a \<open>struct sockaddr_storage\<close>: an IPv4 address and port (\<open>sin_addr\<close>,
  \<open>sin_port\<close>), an IPv6 flow label, address and port (\<open>sin6_flowinfo\<close>, \<open>sin6_addr\<close>, \<open>sin6_port\<close>),
  or zeros.  Ports and addresses are in network byte order, as the calls deliver them.\<close>

datatype sockaddr =
    AF_INET u32 u16
  | AF_INET6 u32 bytes u16
  | AF_ZERO

datatype rx_event =
    RxData bytes
  | RxDgram sockaddr bytes
  | RxErr nat

datatype tx_event =
    TxAccept nat
  | TxErr nat

record sock =
  sk_addr :: sockaddr
  sk_rx :: "rx_event list"
  sk_tx :: "tx_event list"
  sk_wire :: bytes
  sk_dgrams :: "(u32 \<times> u16 \<times> bytes) list"
  sk_shut :: bool

record os =
  script :: "nat list"
  live :: int
  threads :: int
  next_fd :: int
  socks :: "int \<Rightarrow> sock option"
  peers :: "sock list"

abbreviation (input) EBADF :: int where "EBADF \<equiv> 9"

definition no_peer :: sock where
  "no_peer = \<lparr>sk_addr = AF_ZERO, sk_rx = [], sk_tx = [], sk_wire = [], sk_dgrams = [], sk_shut = False\<rparr>"

section \<open>Calls that may fail, allocation, threads\<close>

text \<open>The next outcome of the script: 0, or a positive errno value.\<close>

definition os_try :: "os \<Rightarrow> int \<times> os" where
  "os_try s = (case script s of [] \<Rightarrow> (0, s) | r # rs \<Rightarrow> (int r, s\<lparr>script := rs\<rparr>))"

text \<open>\<open>malloc\<close> and \<open>calloc\<close>: whether a block was allocated.\<close>

definition os_alloc :: "os \<Rightarrow> bool \<times> os" where
  "os_alloc s = (case os_try s of (r, s) \<Rightarrow> if r = 0 then (True, s\<lparr>live := live s + 1\<rparr>) else (False, s))"

definition os_free :: "os \<Rightarrow> os" where
  "os_free s = s\<lparr>live := live s - 1\<rparr>"

definition pthread_create :: "os \<Rightarrow> int \<times> os" where
  "pthread_create s =
     (case os_try s of (r, s) \<Rightarrow> if r = 0 then (0, s\<lparr>threads := threads s + 1\<rparr>) else (r, s))"

definition pthread_join :: "os \<Rightarrow> int \<times> os" where
  "pthread_join s =
     (case os_try s of (r, s) \<Rightarrow> if r = 0 then (0, s\<lparr>threads := threads s - 1\<rparr>) else (r, s))"

section \<open>Sockets\<close>

text \<open>A socket call returns \<open>Inl e\<close> when it fails with errno \<open>e\<close>, which is never 0.\<close>

definition errno_of :: "nat \<Rightarrow> int" where
  "errno_of e = int (max 1 e)"

definition set_sock :: "os \<Rightarrow> int \<Rightarrow> sock \<Rightarrow> os" where
  "set_sock s fd k = s\<lparr>socks := (socks s)(fd \<mapsto> k)\<rparr>"

definition os_socket :: "os \<Rightarrow> (int + int) \<times> os" where
  "os_socket s =
     (case os_try s of (r, s) \<Rightarrow>
        if r \<noteq> 0 then (Inl r, s)
        else
          let (p, ps) = (case peers s of [] \<Rightarrow> (no_peer, []) | p # ps \<Rightarrow> (p, ps))
          in (Inr (next_fd s),
              s\<lparr>next_fd := next_fd s + 1, socks := (socks s)(next_fd s \<mapsto> p), peers := ps\<rparr>))"

text \<open>Calls on a descriptor that only succeed or fail: \<open>setsockopt\<close>, \<open>bind\<close>, \<open>listen\<close>, \<open>connect\<close>.\<close>

definition os_fdcall :: "os \<Rightarrow> int \<Rightarrow> int \<times> os" where
  "os_fdcall s fd = (if socks s fd = None then (EBADF, s) else os_try s)"

text \<open>\<open>accept\<close> creates a socket for the next peer.\<close>

definition os_accept :: "os \<Rightarrow> int \<Rightarrow> (int + int \<times> sockaddr) \<times> os" where
  "os_accept s fd =
     (if socks s fd = None then (Inl EBADF, s)
      else
        case os_socket s of
          (Inl e, s) \<Rightarrow> (Inl e, s)
        | (Inr a, s) \<Rightarrow> (Inr (a, case socks s a of Some k \<Rightarrow> sk_addr k | None \<Rightarrow> AF_ZERO), s))"

definition os_close :: "os \<Rightarrow> int \<Rightarrow> os" where
  "os_close s fd = s\<lparr>socks := (socks s)(fd := None)\<rparr>"

definition os_shutdown :: "os \<Rightarrow> int \<Rightarrow> os" where
  "os_shutdown s fd =
     (case socks s fd of
        None \<Rightarrow> s
      | Some k \<Rightarrow> set_sock s fd (k\<lparr>sk_shut := True\<rparr>))"

text \<open>\<open>recvfrom\<close> with a buffer of \<open>n\<close> bytes: the bytes received, none at the end of the stream,
  and the source address if the call stores one, which it does for datagrams.  A stream keeps
  what does not fit, a datagram loses it.\<close>

definition sk_recv :: "sock \<Rightarrow> nat \<Rightarrow> (int + bytes \<times> sockaddr option) \<times> sock" where
  "sk_recv k n =
     (if sk_shut k then (Inr ([], None), k)
      else
        case sk_rx k of
          [] \<Rightarrow> (Inr ([], None), k)
        | RxErr e # rx \<Rightarrow> (Inl (errno_of e), k\<lparr>sk_rx := rx\<rparr>)
        | RxDgram a d # rx \<Rightarrow> (Inr (take n d, Some a), k\<lparr>sk_rx := rx\<rparr>)
        | RxData d # rx \<Rightarrow>
            (Inr (take n d, None),
             k\<lparr>sk_rx := (if length d \<le> n then rx else RxData (drop n d) # rx)\<rparr>))"

definition os_recvfrom :: "os \<Rightarrow> int \<Rightarrow> nat \<Rightarrow> (int + bytes \<times> sockaddr option) \<times> os" where
  "os_recvfrom s fd n =
     (case socks s fd of
        None \<Rightarrow> (Inl EBADF, s)
      | Some k \<Rightarrow> (case sk_recv k n of (r, k) \<Rightarrow> (r, set_sock s fd k)))"

text \<open>\<open>send\<close>: how many of the bytes were accepted.\<close>

definition sk_accepts :: "sock \<Rightarrow> nat \<Rightarrow> (int + nat) \<times> tx_event list" where
  "sk_accepts k n =
     (if sk_shut k then (Inl EPIPE, sk_tx k)
      else
        case sk_tx k of
          [] \<Rightarrow> (Inr n, [])
        | TxErr e # tx \<Rightarrow> (Inl (errno_of e), tx)
        | TxAccept m # tx \<Rightarrow> (Inr (min m n), tx))"

definition sk_send :: "sock \<Rightarrow> bytes \<Rightarrow> (int + nat) \<times> sock" where
  "sk_send k d =
     (case sk_accepts k (length d) of
        (Inl e, tx) \<Rightarrow> (Inl e, k\<lparr>sk_tx := tx\<rparr>)
      | (Inr m, tx) \<Rightarrow> (Inr m, k\<lparr>sk_tx := tx, sk_wire := sk_wire k @ take m d\<rparr>))"

definition sk_sendto :: "sock \<Rightarrow> bytes \<Rightarrow> u32 \<Rightarrow> u16 \<Rightarrow> (int + nat) \<times> sock" where
  "sk_sendto k d a p =
     (case sk_accepts k (length d) of
        (Inl e, tx) \<Rightarrow> (Inl e, k\<lparr>sk_tx := tx\<rparr>)
      | (Inr m, tx) \<Rightarrow> (Inr m, k\<lparr>sk_tx := tx, sk_dgrams := sk_dgrams k @ [(a, p, take m d)]\<rparr>))"

definition os_send :: "os \<Rightarrow> int \<Rightarrow> bytes \<Rightarrow> (int + nat) \<times> os" where
  "os_send s fd d =
     (case socks s fd of
        None \<Rightarrow> (Inl EBADF, s)
      | Some k \<Rightarrow> (case sk_send k d of (r, k) \<Rightarrow> (r, set_sock s fd k)))"

definition os_sendto :: "os \<Rightarrow> int \<Rightarrow> bytes \<Rightarrow> u32 \<Rightarrow> u16 \<Rightarrow> (int + nat) \<times> os" where
  "os_sendto s fd d a p =
     (case socks s fd of
        None \<Rightarrow> (Inl EBADF, s)
      | Some k \<Rightarrow> (case sk_sendto k d a p of (r, k) \<Rightarrow> (r, set_sock s fd k)))"

section \<open>Well-formed states\<close>

text \<open>Descriptors are handed out in increasing order and never negative.\<close>

definition os_wf :: "os \<Rightarrow> bool" where
  "os_wf s \<longleftrightarrow> 0 \<le> next_fd s \<and> (\<forall>fd. socks s fd \<noteq> None \<longrightarrow> 0 \<le> fd \<and> fd < next_fd s)"

section \<open>Lemmas\<close>

lemma set_sock_simps [simp]:
  "socks (set_sock s fd k) = (socks s)(fd \<mapsto> k)" "live (set_sock s fd k) = live s"
  "threads (set_sock s fd k) = threads s" "next_fd (set_sock s fd k) = next_fd s"
  "script (set_sock s fd k) = script s" "peers (set_sock s fd k) = peers s"
  "set_sock (set_sock s fd k) fd k' = set_sock s fd k'"
  by (simp_all add: set_sock_def)

lemma set_sock_same [simp]: "socks s fd = Some k \<Longrightarrow> set_sock s fd k = s"
  by (simp add: set_sock_def fun_upd_idem del: fun_upd_apply)

lemma os_wf_set_sock [simp]: "os_wf s \<Longrightarrow> socks s fd \<noteq> None \<Longrightarrow> os_wf (set_sock s fd k)"
  by (simp add: os_wf_def)

lemma os_try_live:
  "os_try s = (r, s') \<Longrightarrow> live s' = live s" "os_try s = (r, s') \<Longrightarrow> 0 \<le> r"
  "os_try s = (r, s') \<Longrightarrow> threads s' = threads s" "os_try s = (r, s') \<Longrightarrow> socks s' = socks s"
  "os_try s = (r, s') \<Longrightarrow> next_fd s' = next_fd s"
  by (auto simp: os_try_def split: list.splits)

lemma os_try_frame: "os_try s = (r, s') \<Longrightarrow> live s' = live s \<and> 0 \<le> r"
  by (simp add: os_try_live)

lemma os_alloc_live: "os_alloc s = (ok, s') \<Longrightarrow> live s' = live s + (if ok then 1 else 0)"
  by (auto simp: os_alloc_def dest: os_try_frame split: prod.splits if_splits)

lemma os_free_live [simp]: "live (os_free s) = live s - 1" "threads (os_free s) = threads s"
  "socks (os_free s) = socks s" "next_fd (os_free s) = next_fd s"
  by (simp_all add: os_free_def)

end
