(* ===== verification/Mutex.thy ===== *)
theory Mutex
  imports Os
begin

text \<open>
  src/mutex_posix.c: the shared/exclusive lock and the condition variables of the program.

  The first part is the life cycle of the handles, with every early return; \<open>managed\<close> is the
  contract that all handle types of the program share.  The second part is the locking
  protocol: the calls of any number of threads, interleaved at every pthread call, as the step
  relation \<open>mstep\<close>.  A program counter of \<open>mpc\<close> stands at a pthread call or at the code between
  two of them; the pthread calls that the code makes on an initialised object are taken to
  succeed, as POSIX has it for default mutexes and condition variables.
\<close>

section \<open>Life cycle of the handles\<close>

text \<open>The private data that matters: the number of shared holders.\<close>

record mutex_priv =
  readers :: u32

type_synonym mutex_handle = "mutex_priv option"

text \<open>A condition variable has no data besides the pthread object.\<close>

type_synonym condvar_handle = "unit option"

definition mutex_init :: "os \<Rightarrow> mutex_handle \<Rightarrow> int \<times> mutex_handle \<times> os" where
  "mutex_init s mutex =
     (let (ok, mutex, s) =
            (case mutex of
               None \<Rightarrow> (case os_alloc s of (ok, s) \<Rightarrow> (ok, if ok then Some \<lparr>readers = 0\<rparr> else None, s))
             | Some priv \<Rightarrow> (True, Some priv, s))
      in if \<not> ok then (- ENOMEM, mutex, s)
         else
           case os_try s of (ret, s) \<Rightarrow>
             if ret \<noteq> 0 then (- ret, None, os_free s)
             else
               case os_try s of (ret, s) \<Rightarrow>
                 if ret \<noteq> 0 then (- ret, None, os_free s) else (0, mutex, s))"

definition mutex_free :: "os \<Rightarrow> mutex_handle \<Rightarrow> mutex_handle \<times> os" where
  "mutex_free s mutex = (if mutex \<noteq> None then (None, os_free s) else (mutex, s))"

definition condvar_init :: "os \<Rightarrow> condvar_handle \<Rightarrow> int \<times> condvar_handle \<times> os" where
  "condvar_init s condvar =
     (let (ok, condvar, s) =
            (case condvar of
               None \<Rightarrow> (case os_alloc s of (ok, s) \<Rightarrow> (ok, if ok then Some () else None, s))
             | Some priv \<Rightarrow> (True, Some priv, s))
      in if \<not> ok then (- ENOMEM, condvar, s)
         else
           case os_try s of (ret, s) \<Rightarrow>
             if ret \<noteq> 0 then (- ret, None, os_free s) else (0, condvar, s))"

definition condvar_free :: "os \<Rightarrow> condvar_handle \<Rightarrow> condvar_handle \<times> os" where
  "condvar_free s condvar = (if condvar \<noteq> None then (None, os_free s) else (condvar, s))"

text \<open>The absolute time and the result of \<open>condvar_wait_time\<close>: \<open>now\<close> is what \<open>clock_gettime\<close>
  returned, seconds and nanoseconds, both signed 64-bit; \<open>ret\<close> is the result of
  \<open>pthread_cond_timedwait\<close>.\<close>

definition condvar_abstime :: "int \<times> int \<Rightarrow> u32 \<Rightarrow> int \<times> int" where
  "condvar_abstime now msec =
     (case now of (tv_sec, tv_nsec) \<Rightarrow>
        let tv_nsec = tv_nsec + uint (msec mod 1000 * 1000000);
            tv_sec = tv_sec + (uint (msec div 1000) + tv_nsec div 1000000000);
            tv_nsec = tv_nsec mod 1000000000
        in (tv_sec, tv_nsec))"

definition condvar_wait_time_result :: "int \<Rightarrow> int" where
  "condvar_wait_time_result ret = (if ret = ETIMEDOUT then 1 else - ret)"

section \<open>The contract of a handle type\<close>

text \<open>\<open>blocks h\<close> is the number of heap blocks that the handle \<open>h\<close> owns.  Neither operation
  leaks: what the heap gains or loses is what the handle gains or loses, and after \<open>free\<close> or
  after a failed \<open>init\<close> the handle owns nothing.\<close>

locale managed =
  fixes init :: "os \<Rightarrow> 'h \<Rightarrow> int \<times> 'h \<times> os"
    and free :: "os \<Rightarrow> 'h \<Rightarrow> 'h \<times> os"
    and blocks :: "'h \<Rightarrow> int"
  assumes init_blocks: "init s h = (r, h', s') \<Longrightarrow> live s' - blocks h' = live s - blocks h"
    and init_result: "init s h = (r, h', s') \<Longrightarrow> r \<le> 0"
    and init_failed: "init s h = (r, h', s') \<Longrightarrow> r < 0 \<Longrightarrow> blocks h' = 0"
    and free_blocks: "free s h = (h', s') \<Longrightarrow> live s' = live s - blocks h"
    and free_owns: "free s h = (h', s') \<Longrightarrow> blocks h' = 0"
begin

lemma failed_init_no_leak:
  "init s h = (r, h', s') \<Longrightarrow> r < 0 \<Longrightarrow> live s' = live s - blocks h"
  using init_blocks init_failed by fastforce

lemma init_free_no_leak:
  "init s h = (r, h', s') \<Longrightarrow> free s' h' = (h'', s'') \<Longrightarrow> live s'' = live s - blocks h"
  using init_blocks free_blocks by fastforce

end

text \<open>The weaker contract of a handle type whose initialisation is only safe on a handle that holds
  nothing yet (\<open>fresh\<close>) and whose destruction relies on the parts that an initialisation sets up
  (\<open>usable\<close>).\<close>

locale managed_fresh =
  fixes init :: "os \<Rightarrow> 'h \<Rightarrow> int \<times> 'h \<times> os"
    and free :: "os \<Rightarrow> 'h \<Rightarrow> 'h \<times> os"
    and blocks :: "'h \<Rightarrow> int"
    and fresh :: "'h \<Rightarrow> bool"
    and usable :: "'h \<Rightarrow> bool"
  assumes fresh_init: "fresh h \<Longrightarrow> init s h = (r, h', s') \<Longrightarrow>
      live s' - blocks h' = live s - blocks h \<and> (r \<noteq> 0 \<longrightarrow> blocks h' = 0) \<and> usable h'"
    and usable_free: "usable h \<Longrightarrow> free s h = (h', s') \<Longrightarrow> live s' = live s - blocks h \<and> blocks h' = 0"
begin

lemma fresh_failed: "fresh h \<Longrightarrow> init s h = (r, h', s') \<Longrightarrow> r \<noteq> 0 \<Longrightarrow> live s' = live s - blocks h"
  using fresh_init by fastforce

lemma fresh_init_free:
  "fresh h \<Longrightarrow> init s h = (r, h', s') \<Longrightarrow> free s' h' = (h'', s'') \<Longrightarrow> live s'' = live s - blocks h"
  using fresh_init usable_free by fastforce

end

sublocale managed \<subseteq> unconditional: managed_fresh init free blocks "\<lambda>_. True" "\<lambda>_. True"
proof
  fix h s r h' s'
  show "init s h = (r, h', s') \<Longrightarrow>
      live s' - blocks h' = live s - blocks h \<and> (r \<noteq> 0 \<longrightarrow> blocks h' = 0) \<and> True"
    using init_blocks [of s h r h' s'] init_result [of s h r h' s'] init_failed [of s h r h' s'] by auto
  show "free s h = (h', s') \<Longrightarrow> live s' = live s - blocks h \<and> blocks h' = 0"
    using free_blocks free_owns by blast
qed

definition handle_blocks :: "'a option \<Rightarrow> int" where
  "handle_blocks h = (if h = None then 0 else 1)"

section \<open>The locking protocol\<close>

datatype mpc =
    Out            \<comment> \<open>outside every call, holding nothing\<close>
  | Lock           \<comment> \<open>\<open>mutex_lock\<close>, at \<open>pthread_mutex_lock\<close>\<close>
  | LockTest       \<comment> \<open>\<open>mutex_lock\<close>, at the loop condition, owning the pthread mutex\<close>
  | LockWait       \<comment> \<open>\<open>mutex_lock\<close>, in \<open>pthread_cond_wait\<close>\<close>
  | LockWoken      \<comment> \<open>\<open>mutex_lock\<close>, woken, reacquiring the pthread mutex\<close>
  | Excl           \<comment> \<open>holding the exclusive lock\<close>
  | ShLock         \<comment> \<open>\<open>mutex_lock_shared\<close>, at \<open>pthread_mutex_lock\<close>\<close>
  | ShInc          \<comment> \<open>\<open>mutex_lock_shared\<close>, at \<open>readers++\<close>\<close>
  | ShUnlock       \<comment> \<open>\<open>mutex_lock_shared\<close>, at \<open>pthread_mutex_unlock\<close>\<close>
  | Shared         \<comment> \<open>holding the shared lock\<close>
  | UnLock         \<comment> \<open>\<open>mutex_unlock_shared\<close>, at \<open>pthread_mutex_lock\<close>\<close>
  | UnDec          \<comment> \<open>\<open>mutex_unlock_shared\<close>, at \<open>--readers <= 0\<close>\<close>
  | UnBcast        \<comment> \<open>\<open>mutex_unlock_shared\<close>, at \<open>pthread_cond_broadcast\<close>\<close>
  | UnUnlock       \<comment> \<open>\<open>mutex_unlock_shared\<close>, at \<open>pthread_mutex_unlock\<close>\<close>
  | CvWait         \<comment> \<open>\<open>condvar_wait\<close> or \<open>condvar_wait_time\<close>, waiting\<close>
  | CvWoken        \<comment> \<open>\<open>condvar_wait\<close> or \<open>condvar_wait_time\<close>, reacquiring the pthread mutex\<close>

record mstate =
  lock_owner :: "nat option"
  mpriv :: mutex_priv
  mpc :: "nat \<Rightarrow> mpc"

definition minit :: mstate where
  "minit = \<lparr>lock_owner = None, mpriv = \<lparr>readers = 0\<rparr>, mpc = (\<lambda>_. Out)\<rparr>"

abbreviation goto :: "mstate \<Rightarrow> nat \<Rightarrow> mpc \<Rightarrow> mstate" where
  "goto s t p \<equiv> s\<lparr>mpc := (mpc s)(t := p)\<rparr>"

abbreviation acquire :: "mstate \<Rightarrow> nat \<Rightarrow> mpc \<Rightarrow> mstate" where
  "acquire s t p \<equiv> s\<lparr>lock_owner := Some t, mpc := (mpc s)(t := p)\<rparr>"

abbreviation release :: "mstate \<Rightarrow> nat \<Rightarrow> mpc \<Rightarrow> mstate" where
  "release s t p \<equiv> s\<lparr>lock_owner := None, mpc := (mpc s)(t := p)\<rparr>"

text \<open>\<open>mstep cv n s s'\<close>: one of the threads below \<open>n\<close> takes a step.  The steps of the condition
  variables are taken only if \<open>cv\<close> is set: a program in which no caller waits on a condition
  variable under this lock has \<open>cv = False\<close>.  A waiting thread may wake without being woken, as
  POSIX allows.\<close>

inductive mstep :: "bool \<Rightarrow> nat \<Rightarrow> mstate \<Rightarrow> mstate \<Rightarrow> bool" for cv :: bool and n :: nat where
  lock_call: "t < n \<Longrightarrow> mpc s t = Out \<Longrightarrow> mstep cv n s (goto s t Lock)"
| lock_acquire: "t < n \<Longrightarrow> mpc s t = Lock \<Longrightarrow> lock_owner s = None \<Longrightarrow> mstep cv n s (acquire s t LockTest)"
| lock_wait: "t < n \<Longrightarrow> mpc s t = LockTest \<Longrightarrow> readers (mpriv s) > 0 \<Longrightarrow> mstep cv n s (release s t LockWait)"
| lock_done: "t < n \<Longrightarrow> mpc s t = LockTest \<Longrightarrow> \<not> readers (mpriv s) > 0 \<Longrightarrow> mstep cv n s (goto s t Excl)"
| lock_spurious: "t < n \<Longrightarrow> mpc s t = LockWait \<Longrightarrow> mstep cv n s (goto s t LockWoken)"
| lock_reacquire: "t < n \<Longrightarrow> mpc s t = LockWoken \<Longrightarrow> lock_owner s = None \<Longrightarrow> mstep cv n s (acquire s t LockTest)"
| unlock: "t < n \<Longrightarrow> mpc s t = Excl \<Longrightarrow> mstep cv n s (release s t Out)"
| shared_call: "t < n \<Longrightarrow> mpc s t = Out \<Longrightarrow> mstep cv n s (goto s t ShLock)"
| shared_acquire: "t < n \<Longrightarrow> mpc s t = ShLock \<Longrightarrow> lock_owner s = None \<Longrightarrow> mstep cv n s (acquire s t ShInc)"
| shared_inc: "t < n \<Longrightarrow> mpc s t = ShInc \<Longrightarrow>
    mstep cv n s ((goto s t ShUnlock)\<lparr>mpriv := (mpriv s)\<lparr>readers := readers (mpriv s) + 1\<rparr>\<rparr>)"
| shared_unlock: "t < n \<Longrightarrow> mpc s t = ShUnlock \<Longrightarrow> mstep cv n s (release s t Shared)"
| unshared_call: "t < n \<Longrightarrow> mpc s t = Shared \<Longrightarrow> mstep cv n s (goto s t UnLock)"
| unshared_acquire: "t < n \<Longrightarrow> mpc s t = UnLock \<Longrightarrow> lock_owner s = None \<Longrightarrow> mstep cv n s (acquire s t UnDec)"
| unshared_dec: "t < n \<Longrightarrow> mpc s t = UnDec \<Longrightarrow> r = readers (mpriv s) - 1 \<Longrightarrow>
    mstep cv n s ((goto s t (if r \<le> 0 then UnBcast else UnUnlock))\<lparr>mpriv := (mpriv s)\<lparr>readers := r\<rparr>\<rparr>)"
| unshared_bcast: "t < n \<Longrightarrow> mpc s t = UnBcast \<Longrightarrow>
    mstep cv n s (s\<lparr>mpc := (\<lambda>u. if mpc s u = LockWait then LockWoken else mpc s u)(t := UnUnlock)\<rparr>)"
| unshared_unlock: "t < n \<Longrightarrow> mpc s t = UnUnlock \<Longrightarrow> mstep cv n s (release s t Out)"
| cv_wait: "cv \<Longrightarrow> t < n \<Longrightarrow> mpc s t = Excl \<Longrightarrow> mstep cv n s (release s t CvWait)"
| cv_woken: "cv \<Longrightarrow> t < n \<Longrightarrow> mpc s t = CvWait \<Longrightarrow> mstep cv n s (goto s t CvWoken)"
| cv_reacquire: "cv \<Longrightarrow> t < n \<Longrightarrow> mpc s t = CvWoken \<Longrightarrow> lock_owner s = None \<Longrightarrow> mstep cv n s (acquire s t Excl)"

inductive mreach :: "bool \<Rightarrow> nat \<Rightarrow> mstate \<Rightarrow> bool" for cv :: bool and n :: nat where
  start: "mreach cv n minit"
| step: "mreach cv n s \<Longrightarrow> mstep cv n s s' \<Longrightarrow> mreach cv n s'"

text \<open>Which program counters own the pthread mutex, and which are counted in \<open>readers\<close>.\<close>

definition owns :: "mpc \<Rightarrow> bool" where
  "owns p \<longleftrightarrow> p \<in> {LockTest, Excl, ShInc, ShUnlock, UnDec, UnBcast, UnUnlock}"

definition counted :: "mpc \<Rightarrow> bool" where
  "counted p \<longleftrightarrow> p \<in> {ShUnlock, Shared, UnLock, UnDec}"

text \<open>The thread \<open>t\<close> can take a step of its own.\<close>

definition can_step :: "bool \<Rightarrow> nat \<Rightarrow> mstate \<Rightarrow> nat \<Rightarrow> bool" where
  "can_step cv n s t \<longleftrightarrow> (\<exists>s'. mstep cv n s s' \<and> mpc s' t \<noteq> mpc s t)"

definition minv :: "bool \<Rightarrow> nat \<Rightarrow> mstate \<Rightarrow> bool" where
  "minv cv n s \<longleftrightarrow>
     (\<forall>t. owns (mpc s t) \<longleftrightarrow> lock_owner s = Some t) \<and>
     (\<forall>t. n \<le> t \<longrightarrow> mpc s t = Out) \<and>
     unat (readers (mpriv s)) = card {t. counted (mpc s t)} \<and>
     (\<forall>t. \<not> cv \<longrightarrow> mpc s t = Excl \<longrightarrow> readers (mpriv s) = 0) \<and>
     (\<forall>t. \<not> cv \<longrightarrow> mpc s t \<notin> {CvWait, CvWoken}) \<and>
     (\<forall>t. mpc s t = LockWait \<longrightarrow> 0 < readers (mpriv s) \<or> (\<exists>u. mpc s u = UnBcast))"

section \<open>Lemmas\<close>

lemma handle_blocks_simps [simp]: "handle_blocks None = 0" "handle_blocks (Some x) = 1"
  by (simp_all add: handle_blocks_def)

lemmas os_call_defs = os_try_def os_alloc_def os_free_def

interpretation mutex: managed mutex_init mutex_free handle_blocks
  by unfold_locales
     (auto simp: mutex_init_def mutex_free_def handle_blocks_def os_alloc_def os_free_def Let_def
       dest!: os_try_frame split: option.splits if_splits prod.splits)

interpretation condvar: managed condvar_init condvar_free handle_blocks
  by unfold_locales
     (auto simp: condvar_init_def condvar_free_def handle_blocks_def os_alloc_def os_free_def Let_def
       dest!: os_try_frame split: option.splits if_splits prod.splits)

lemma abstime_nsec: "uint (msec mod 1000 * 1000000 :: u32) = uint msec mod 1000 * 1000000"
proof -
  have "uint msec mod 1000 * 1000000 < 2 ^ 32"
    using pos_mod_bound [of 1000 "uint msec"] by simp
  then show ?thesis
    by (simp add: uint_word_ariths uint_mod)
qed

lemma owns_simps [simp]:
  "\<not> owns Out" "\<not> owns Lock" "owns LockTest" "\<not> owns LockWait" "\<not> owns LockWoken" "owns Excl"
  "\<not> owns ShLock" "owns ShInc" "owns ShUnlock" "\<not> owns Shared" "\<not> owns UnLock" "owns UnDec"
  "owns UnBcast" "owns UnUnlock" "\<not> owns CvWait" "\<not> owns CvWoken"
  by (simp_all add: owns_def)

lemma counted_simps [simp]:
  "\<not> counted Out" "\<not> counted Lock" "\<not> counted LockTest" "\<not> counted LockWait"
  "\<not> counted LockWoken" "\<not> counted Excl" "\<not> counted ShLock" "\<not> counted ShInc"
  "counted ShUnlock" "counted Shared" "counted UnLock" "counted UnDec"
  "\<not> counted UnBcast" "\<not> counted UnUnlock" "\<not> counted CvWait" "\<not> counted CvWoken"
  by (simp_all add: counted_def)

lemma counted_upd:
  "counted p = counted (f u) \<Longrightarrow> {t. counted ((f(u := p)) t)} = {t. counted (f t)}"
  "counted p \<Longrightarrow> {t. counted ((f(u := p)) t)} = insert u {t. counted (f t)}"
  "\<not> counted p \<Longrightarrow> {t. counted ((f(u := p)) t)} = {t. counted (f t)} - {u}"
  by auto

lemma minv_init: "minv cv n minit"
  by (simp add: minv_def minit_def)

lemma minv_bound:
  assumes "minv cv n s" "mpc s t \<noteq> Out"
  shows "t < n"
  using assms by (meson minv_def not_le_imp_less)

lemma counted_finite:
  assumes "minv cv n s"
  shows "{t. counted (mpc s t)} \<subseteq> {..<n}" and "finite {t. counted (mpc s t)}"
proof -
  show "{t. counted (mpc s t)} \<subseteq> {..<n}"
    using minv_bound [OF assms] by force
  then show "finite {t. counted (mpc s t)}"
    by (rule finite_subset) simp
qed

lemma minv_owner: "minv cv n s \<Longrightarrow> owns (mpc s t) \<longleftrightarrow> lock_owner s = Some t"
  by (simp add: minv_def)

lemma minv_readers: "minv cv n s \<Longrightarrow> unat (readers (mpriv s)) = card {t. counted (mpc s t)}"
  by (simp add: minv_def)

lemma readers_succ:
  assumes "minv cv n s" "n < 2 ^ 32" "t < n" "\<not> counted (mpc s t)"
  shows "unat (readers (mpriv s) + 1) = Suc (unat (readers (mpriv s)))"
proof -
  have "{u. counted (mpc s u)} \<subset> {..<n}"
    using counted_finite(1) [OF assms(1)] assms(3,4) by auto
  then have "card {u. counted (mpc s u)} < n"
    using psubset_card_mono [of "{..<n}"] by simp
  then have "Suc (unat (readers (mpriv s))) < 2 ^ 32"
    using assms(1,2) by (simp add: minv_def)
  then show ?thesis
    by (simp add: unat_word_ariths)
qed

lemma readers_pred:
  assumes "minv cv n s" "counted (mpc s t)"
  shows "unat (readers (mpriv s) - 1) = unat (readers (mpriv s)) - 1"
    and "0 < readers (mpriv s)"
proof -
  have "0 < card {u. counted (mpc s u)}"
    using counted_finite(2) [OF assms(1)] assms(2) by (auto simp: card_gt_0_iff)
  then have "readers (mpriv s) \<noteq> 0"
    using assms(1) by (auto simp: minv_def)
  then show "unat (readers (mpriv s) - 1) = unat (readers (mpriv s)) - 1"
    and "0 < readers (mpriv s)"
    by (simp_all add: unat_minus_one word_gt_0)
qed

text \<open>The number of shared holders is counted correctly by every step.\<close>

lemma mstep_readers:
  assumes "mstep cv n s s'" "minv cv n s" "n < 2 ^ 32"
  shows "unat (readers (mpriv s')) = card {t. counted (mpc s' t)}"
proof -
  have c: "unat (readers (mpriv s)) = card {t. counted (mpc s t)}"
    using assms(2) by (simp add: minv_def)
  from assms(1) show ?thesis
  proof cases
    case (shared_inc t)
    then show ?thesis
      using readers_succ [OF assms(2,3), of t] counted_finite(2) [OF assms(2)] c
      by (simp add: counted_upd(2) del: fun_upd_apply)
  next
    case (unshared_dec t r)
    then show ?thesis
      using readers_pred [OF assms(2), of t] counted_finite(2) [OF assms(2)] c
      by (simp add: counted_upd(3) card_Diff_singleton_if del: fun_upd_apply)
  next
    case (unshared_bcast t)
    then have "{u. counted (mpc s' u)} = {u. counted (mpc s u)}"
      by (auto split: if_splits)
    with unshared_bcast c show ?thesis
      by simp
  qed (use c in \<open>simp_all add: counted_upd(1) del: fun_upd_apply\<close>)
qed

lemma mstep_owner:
  assumes "mstep cv n s s'" "minv cv n s"
  shows "owns (mpc s' t) \<longleftrightarrow> lock_owner s' = Some t"
proof -
  note o = minv_owner [OF assms(2)]
  from assms(1) show ?thesis
    by cases (simp_all, (metis o owns_simps option.inject option.distinct(1))+)
qed

lemma mstep_bound:
  assumes "mstep cv n s s'" "minv cv n s" "n \<le> t"
  shows "mpc s' t = Out"
  using assms(1)
proof -
  have "mpc s t = Out"
    using assms(2,3) by (simp add: minv_def)
  with assms(1,3) show ?thesis
    by cases auto
qed

lemma mstep_excl:
  assumes "mstep False n s s'" "minv False n s" "mpc s' t = Excl"
  shows "readers (mpriv s') = 0"
proof -
  have r: "mpc s u = Excl \<Longrightarrow> readers (mpriv s) = 0" for u
    using assms(2) unfolding minv_def by blast
  note o = minv_owner [OF assms(2)]
  from assms(1) show ?thesis
    using assms(3)
  proof cases
    case (shared_inc u)
    then show ?thesis
      using o [of u] o [of t] assms(3) by (auto split: if_splits)
  next
    case (unshared_dec u r)
    then show ?thesis
      using o [of u] o [of t] assms(3) by (auto split: if_splits)
  qed (use r assms(3) in \<open>auto simp: word_gt_0 split: if_splits\<close>)
qed

lemma mstep_no_cv:
  assumes "mstep False n s s'" "minv False n s"
  shows "mpc s' t \<notin> {CvWait, CvWoken}"
proof -
  have "mpc s t \<notin> {CvWait, CvWoken}"
    using assms(2) by (simp add: minv_def)
  with assms(1) show ?thesis
    by cases auto
qed

text \<open>A waiting thread stays announced: a step that empties \<open>readers\<close> goes to the broadcast, and
  the broadcast wakes every waiting thread.\<close>

lemma mstep_bcast:
  assumes "mstep cv n s s'" "mpc s v = UnBcast" "mpc s' t = LockWait"
  shows "mpc s' v = UnBcast"
  using assms(1) by cases (use assms(2,3) in \<open>auto split: if_splits\<close>)

lemma mstep_enters_wait:
  assumes "mstep cv n s s'" "mpc s' t = LockWait" "\<not> 0 < readers (mpriv s')"
  shows "mpc s t = LockWait"
  using assms(1) by cases (use assms(2,3) in \<open>auto split: if_splits\<close>)

lemma mstep_readers_pos:
  assumes "mstep cv n s s'" "minv cv n s" "n < 2 ^ 32" "0 < readers (mpriv s)"
  shows "0 < readers (mpriv s') \<or> (\<exists>u. mpc s' u = UnBcast)"
  using assms(1)
proof cases
  case (shared_inc u)
  then have "unat (readers (mpriv s) + 1) \<noteq> 0"
    using readers_succ [OF assms(2,3), of u] by simp
  with shared_inc show ?thesis
    by (simp add: word_gt_0 unat_eq_zero)
next
  case (unshared_dec u r)
  then show ?thesis
    by (cases "r \<le> 0") (auto simp: word_gt_0 not_le)
qed (use assms(4) in simp_all)

lemma mstep_waiters:
  assumes "mstep cv n s s'" "minv cv n s" "n < 2 ^ 32" "mpc s' t = LockWait"
  shows "0 < readers (mpriv s') \<or> (\<exists>u. mpc s' u = UnBcast)"
proof (rule ccontr)
  assume no: "\<not> ?thesis"
  then have "mpc s t = LockWait"
    using mstep_enters_wait [OF assms(1,4)] by blast
  then consider "0 < readers (mpriv s)" | v where "mpc s v = UnBcast"
    using assms(2) unfolding minv_def by blast
  then show False
    using no mstep_readers_pos [OF assms(1-3)] mstep_bcast [OF assms(1) _ assms(4)] by cases blast+
qed

lemma minv_step:
  assumes "mstep cv n s s'" "minv cv n s" "n < 2 ^ 32"
  shows "minv cv n s'"
proof -
  have "\<not> cv \<Longrightarrow> mpc s' t = Excl \<Longrightarrow> readers (mpriv s') = 0"
    and "\<not> cv \<Longrightarrow> mpc s' t \<notin> {CvWait, CvWoken}" for t
    using mstep_excl [of n s s' t] mstep_no_cv [of n s s' t] assms by simp_all
  then show ?thesis
    unfolding minv_def
    using mstep_owner [OF assms(1,2)] mstep_bound [OF assms(1,2)] mstep_readers [OF assms]
      mstep_waiters [OF assms] by blast
qed

lemma minv_reach: "mreach cv n s \<Longrightarrow> n < 2 ^ 32 \<Longrightarrow> minv cv n s"
  by (induction rule: mreach.induct) (auto intro: minv_init minv_step)

text \<open>A thread inside a call that owns the pthread mutex can take its next step, and so can a
  thread that waits for the pthread mutex when nobody owns it.\<close>

lemma can_stepI: "mstep cv n s s' \<Longrightarrow> mpc s' t \<noteq> mpc s t \<Longrightarrow> can_step cv n s t"
  unfolding can_step_def by blast

lemma owner_enabled:
  assumes "t < n" "owns (mpc s t)" "mpc s t \<noteq> Excl"
  shows "can_step cv n s t"
proof -
  from assms(2,3) consider "mpc s t = LockTest" | "mpc s t = ShInc" | "mpc s t = ShUnlock"
    | "mpc s t = UnDec" | "mpc s t = UnBcast" | "mpc s t = UnUnlock"
    unfolding owns_def by auto
  then show ?thesis
  proof cases
    case 1
    show ?thesis
      by (cases "readers (mpriv s) > 0";
          rule can_stepI [OF lock_wait [OF assms(1) 1]] can_stepI [OF lock_done [OF assms(1) 1]];
          simp add: 1)
  next
    case 2
    show ?thesis
      by (rule can_stepI [OF shared_inc [OF assms(1) 2]]) (simp add: 2)
  next
    case 3
    show ?thesis
      by (rule can_stepI [OF shared_unlock [OF assms(1) 3]]) (simp add: 3)
  next
    case 4
    show ?thesis
      by (rule can_stepI [OF unshared_dec [OF assms(1) 4 refl]]) (simp add: 4)
  next
    case 5
    show ?thesis
      by (rule can_stepI [OF unshared_bcast [OF assms(1) 5]]) (simp add: 5)
  next
    case 6
    show ?thesis
      by (rule can_stepI [OF unshared_unlock [OF assms(1) 6]]) (simp add: 6)
  qed
qed

lemma waiter_enabled:
  assumes "t < n" "lock_owner s = None" "mpc s t \<in> {Lock, LockWoken, ShLock, UnLock}"
  shows "can_step cv n s t"
proof -
  from assms(3) consider "mpc s t = Lock" | "mpc s t = LockWoken" | "mpc s t = ShLock"
    | "mpc s t = UnLock"
    by auto
  then show ?thesis
  proof cases
    case 1
    show ?thesis
      by (rule can_stepI [OF lock_acquire [OF assms(1) 1 assms(2)]]) (simp add: 1)
  next
    case 2
    show ?thesis
      by (rule can_stepI [OF lock_reacquire [OF assms(1) 2 assms(2)]]) (simp add: 2)
  next
    case 3
    show ?thesis
      by (rule can_stepI [OF shared_acquire [OF assms(1) 3 assms(2)]]) (simp add: 3)
  next
    case 4
    show ?thesis
      by (rule can_stepI [OF unshared_acquire [OF assms(1) 4 assms(2)]]) (simp add: 4)
  qed
qed

lemma unlocked_waiter:
  assumes inv: "minv cv n s" and "lock_owner s = None"
    and "mpc s t \<notin> {Out, Excl, Shared, CvWait, CvWoken}" and held: "\<forall>u. mpc s u \<notin> {Excl, Shared}"
  shows "\<exists>u. mpc s u \<in> {Lock, LockWoken, ShLock, UnLock}"
proof (cases "mpc s t = LockWait")
  have no: "\<not> owns (mpc s u)" for u
    using minv_owner [OF inv, of u] assms(2) by simp
  case True
  then have "0 < readers (mpriv s)"
    using inv no unfolding minv_def by (metis owns_simps(13))
  then have "card {u. counted (mpc s u)} \<noteq> 0"
    unfolding minv_readers [OF inv, symmetric] by (simp add: word_gt_0 unat_eq_zero)
  then have "{u. counted (mpc s u)} \<noteq> {}"
    by (rule contrapos_nn) simp
  then obtain u where "counted (mpc s u)"
    by blast
  then have "mpc s u = UnLock"
    using no [of u] held by (cases "mpc s u") auto
  then show ?thesis
    by auto
next
  case False
  moreover have "\<not> owns (mpc s t)"
    using minv_owner [OF inv, of t] assms(2) by simp
  ultimately show ?thesis
    using assms(3) by (cases "mpc s t") auto
qed

text \<open>Two reachable states: thread 0 inside \<open>mutex_lock\<close>, and thread 0 holding the lock.\<close>

lemma reach_Lock: "mreach cv 2 (goto minit 0 Lock)"
  by (rule mreach.step [OF mreach.start lock_call]) (simp_all add: minit_def)

lemma reach_Excl: "mreach cv 2 (acquire minit 0 Excl)"
proof -
  have "mreach cv 2 (acquire (goto minit 0 Lock) 0 LockTest)"
    by (rule mreach.step [OF reach_Lock lock_acquire]) (simp_all add: minit_def)
  from mreach.step [OF this lock_done [of 0]] show ?thesis
    by (simp add: minit_def)
qed

section \<open>Properties\<close>

text \<open>C8: mutual exclusion.  In a program that does not wait on a condition variable under the
  lock, whatever the interleaving of the calls of up to 2^32 threads: while a thread holds the
  exclusive lock, no other thread holds it exclusively or shared.\<close>

theorem mutex_exclusion:
  assumes "mreach False n s" and "n < 2 ^ 32" and "mpc s t = Excl"
  shows "u \<noteq> t \<Longrightarrow> mpc s u \<notin> {Excl, Shared}"
proof -
  note inv = minv_reach [OF assms(1,2)]
  have "readers (mpriv s) = 0" and own: "lock_owner s = Some t"
    using inv assms(3) minv_owner [OF inv, of t] unfolding minv_def by auto
  then have "\<not> counted (mpc s u)"
    using inv counted_finite(2) [OF inv] unfolding minv_def by simp
  then show "u \<noteq> t \<Longrightarrow> mpc s u \<notin> {Excl, Shared}"
    using minv_owner [OF inv, of u] own by auto
qed

theorem mutex_exclusion_witness: "mpc (acquire minit 0 Excl) 1 \<notin> {Excl, Shared}"
  by (rule mutex_exclusion [OF reach_Excl, of 0]) simp_all

text \<open>C9: no lost wake-up and no deadlock inside the lock.  If some thread is inside a locking
  call and nobody holds the lock, then some thread inside a locking call can take its next step
  without the help of a spurious wake-up.\<close>

theorem mutex_progress:
  assumes "mreach cv n s" and "n < 2 ^ 32"
    and "mpc s t \<notin> {Out, Excl, Shared, CvWait, CvWoken}"
    and "\<forall>u. mpc s u \<notin> {Excl, Shared}"
  shows "\<exists>u. mpc s u \<notin> {Out, LockWait, CvWait} \<and> can_step cv n s u"
proof -
  note inv = minv_reach [OF assms(1,2)]
  show ?thesis
  proof (cases "lock_owner s")
    case (Some u)
    then have own: "owns (mpc s u)" and "mpc s u \<noteq> Excl"
      using minv_owner [OF inv, of u] assms(4) by auto
    moreover from own have "mpc s u \<notin> {Out, LockWait, CvWait}"
      by auto
    ultimately show ?thesis
      using owner_enabled minv_bound [OF inv, of u] by blast
  next
    case None
    then have "\<exists>u. mpc s u \<in> {Lock, LockWoken, ShLock, UnLock}"
      using unlocked_waiter [OF inv] assms(3,4) by simp
    then obtain u where u: "mpc s u \<in> {Lock, LockWoken, ShLock, UnLock}"
      by blast
    then have "can_step cv n s u"
      using waiter_enabled [OF minv_bound [OF inv] None u] by auto
    with u show ?thesis
      by (intro exI [of _ u]) auto
  qed
qed

theorem mutex_progress_witness:
  "\<exists>u. mpc (goto minit 0 Lock) u \<notin> {Out, LockWait, CvWait} \<and> can_step False 2 (goto minit 0 Lock) u"
  by (rule mutex_progress [OF reach_Lock, of 0]) (simp_all add: minit_def)

text \<open>C10: waiting on a condition variable breaks the exclusion.  \<open>condvar_wait\<close> gives the
  pthread mutex back on return without testing \<open>readers\<close>, so a thread that returns from it holds
  the exclusive lock while another thread holds the shared one.\<close>

theorem condvar_breaks_exclusion:
  "\<exists>s. mreach True 2 s \<and> mpc s 0 = Excl \<and> mpc s 1 = Shared"
proof -
  define p where "p = (\<lambda>a b (t :: nat). if t = 0 then a else if t = 1 then b else Out)"
  define S where "S = (\<lambda>own r a b. \<lparr>lock_owner = own, mpriv = \<lparr>readers = r\<rparr>, mpc = p a b\<rparr>)"
  have S: "lock_owner (S own r a b) = own" "mpriv (S own r a b) = \<lparr>readers = r\<rparr>"
    "mpc (S own r a b) 0 = a" "mpc (S own r a b) 1 = b"
    "goto (S own r a b) 0 c = S own r c b" "goto (S own r a b) 1 c = S own r a c"
    "acquire (S own r a b) 0 c = S (Some 0) r c b" "acquire (S own r a b) 1 c = S (Some 1) r a c"
    "release (S own r a b) 0 c = S None r c b" "release (S own r a b) 1 c = S None r a c"
    "(S own r a b)\<lparr>mpriv := \<lparr>readers = r'\<rparr>\<rparr> = S own r' a b"
    for own own' r r' a b c
    by (simp_all add: S_def p_def fun_eq_iff)
  have "mreach True 2 (S None 0 Out Out)"
    using mreach.start [of True 2] unfolding S_def p_def minit_def if_cancel .
  from mreach.step [OF this lock_call [of 0]] have "mreach True 2 (S None 0 Lock Out)"
    by (simp add: S del: One_nat_def)
  from mreach.step [OF this lock_acquire [of 0]] have "mreach True 2 (S (Some 0) 0 LockTest Out)"
    by (simp add: S del: One_nat_def)
  from mreach.step [OF this lock_done [of 0]] have "mreach True 2 (S (Some 0) 0 Excl Out)"
    by (simp add: S del: One_nat_def)
  from mreach.step [OF this cv_wait [of _ 0]] have "mreach True 2 (S None 0 CvWait Out)"
    by (simp add: S del: One_nat_def)
  from mreach.step [OF this shared_call [of 1]] have "mreach True 2 (S None 0 CvWait ShLock)"
    by (simp add: S del: One_nat_def)
  from mreach.step [OF this shared_acquire [of 1]] have "mreach True 2 (S (Some 1) 0 CvWait ShInc)"
    by (simp add: S del: One_nat_def)
  from mreach.step [OF this shared_inc [of 1]] have "mreach True 2 (S (Some 1) 1 CvWait ShUnlock)"
    by (simp add: S del: One_nat_def)
  from mreach.step [OF this shared_unlock [of 1]] have "mreach True 2 (S None 1 CvWait Shared)"
    by (simp add: S del: One_nat_def)
  from mreach.step [OF this cv_woken [of _ 0]] have "mreach True 2 (S None 1 CvWoken Shared)"
    by (simp add: S del: One_nat_def)
  from mreach.step [OF this cv_reacquire [of _ 0]] have "mreach True 2 (S (Some 0) 1 Excl Shared)"
    by (simp add: S del: One_nat_def)
  then show ?thesis
    using S(3,4) by metis
qed

text \<open>\<open>condvar_wait_time\<close> asks for the right time: the absolute time is the current time plus
  the given number of milliseconds, with its nanoseconds below a second as
  \<open>pthread_cond_timedwait\<close> demands, for every 32-bit number of milliseconds: the multiplication
  in 32 bits does not wrap around.\<close>

theorem condvar_abstime_exact:
  assumes "condvar_abstime (sec, nsec) msec = (sec', nsec')"
  shows "sec' * 1000000000 + nsec' = sec * 1000000000 + nsec + uint msec * 1000000 \<and>
    0 \<le> nsec' \<and> nsec' < 1000000000"
proof -
  have s: "sec' = sec + (uint msec div 1000 + (nsec + uint msec mod 1000 * 1000000) div 1000000000)"
    and n: "nsec' = (nsec + uint msec mod 1000 * 1000000) mod 1000000000"
    using assms by (simp_all add: condvar_abstime_def Let_def abstime_nsec uint_div)
  have sum: "(sec + (d + q)) * 1000000000 + r = sec * 1000000000 + nsec + u * 1000000"
    if "q * 1000000000 + r = nsec + m * 1000000" and "d * 1000 + m = u" for q r m d u :: int
    using that(1) by (simp add: that(2) [symmetric] distrib_right)
  have "sec' * 1000000000 + nsec' = sec * 1000000000 + nsec + uint msec * 1000000"
    unfolding s n by (rule sum) (rule div_mult_mod_eq)+
  then show ?thesis
    by (simp add: n)
qed

theorem condvar_abstime_exact_witness:
  "condvar_abstime (100, 900000000) 1250 = (102, 150000000) \<and>
   (102 :: int) * 1000000000 + 150000000 = 100 * 1000000000 + 900000000 + 1250 * 1000000"
proof -
  have "condvar_abstime (100, 900000000) 1250 = (102, 150000000)"
    by (simp add: condvar_abstime_def)
  then show ?thesis
    using condvar_abstime_exact [of 100 900000000 1250 102 150000000] by simp
qed

end
