(* ===== verification/Thread.thy ===== *)
theory Thread
  imports Mutex
begin

text \<open>
  src/thread_posix.c: the thread handles.  What a thread runs is modelled by its owner (theory
  Worker); here a thread is something that is created and joined.
\<close>

section \<open>The code\<close>

record thread_priv =
  th_mutex :: mutex_handle
  th_dirty :: bool

record thread_handle =
  th_priv :: "thread_priv option"
  th_stack_size :: u32

definition thread_init :: "os \<Rightarrow> thread_handle \<Rightarrow> int \<times> thread_handle \<times> os" where
  "thread_init s pt =
     (let (ok, priv, s) =
            (case th_priv pt of
               None \<Rightarrow> (case os_alloc s of (ok, s) \<Rightarrow> (ok, \<lparr>th_mutex = None, th_dirty = False\<rparr>, s))
             | Some priv \<Rightarrow> (True, priv, s))
      in if \<not> ok then (- ENOMEM, pt, s)
         else
           case mutex_init s (th_mutex priv) of (ret, m, s) \<Rightarrow>
             if ret < 0 then (ret, pt\<lparr>th_priv := None\<rparr>, os_free s)
             else (0, pt\<lparr>th_priv := Some (priv\<lparr>th_mutex := m\<rparr>)\<rparr>, s))"

text \<open>The functions below dereference \<open>priv\<close>; \<open>the\<close> stands for the dereference.\<close>

definition thread_join :: "os \<Rightarrow> thread_handle \<Rightarrow> int \<times> thread_handle \<times> os" where
  "thread_join s pt =
     (let priv = the (th_priv pt)
      in if \<not> th_dirty priv then (0, pt, s)
         else
           case pthread_join s of (ret, s) \<Rightarrow>
             (if ret > 0 then - ret else ret, pt\<lparr>th_priv := Some (priv\<lparr>th_dirty := False\<rparr>)\<rparr>, s))"

definition thread_start :: "os \<Rightarrow> thread_handle \<Rightarrow> int \<times> thread_handle \<times> os" where
  "thread_start s pt =
     (case os_try s of (ret, s) \<Rightarrow>
        if ret \<noteq> 0 then (if ret > 0 then - ret else ret, pt, s)
        else
          case (if th_stack_size pt > 0 then os_try s else (0, s)) of (ret, s) \<Rightarrow>
            if ret \<noteq> 0 then (if ret > 0 then - ret else ret, pt, s)
            else
              case thread_join s pt of (_, pt, s) \<Rightarrow>
                case pthread_create s of (ret, s) \<Rightarrow>
                  (if ret > 0 then - ret else ret,
                   pt\<lparr>th_priv := Some ((the (th_priv pt))\<lparr>th_dirty := (ret = 0)\<rparr>)\<rparr>, s))"

definition thread_free :: "os \<Rightarrow> thread_handle \<Rightarrow> thread_handle \<times> os" where
  "thread_free s pt =
     (if th_priv pt \<noteq> None
      then
        case thread_join s pt of (_, pt, s) \<Rightarrow>
          case mutex_free s (th_mutex (the (th_priv pt))) of (_, s) \<Rightarrow>
            (pt\<lparr>th_priv := None\<rparr>, os_free s)
      else (pt, s))"

section \<open>Resources\<close>

definition thread_blocks :: "thread_handle \<Rightarrow> int" where
  "thread_blocks pt = (case th_priv pt of None \<Rightarrow> 0 | Some priv \<Rightarrow> 1 + handle_blocks (th_mutex priv))"

definition thread_running :: "thread_handle \<Rightarrow> int" where
  "thread_running pt = (case th_priv pt of None \<Rightarrow> 0 | Some priv \<Rightarrow> if th_dirty priv then 1 else 0)"

section \<open>Lemmas\<close>

lemma pthread_live:
  "pthread_join s = (r, s') \<Longrightarrow> live s' = live s" "pthread_create s = (r, s') \<Longrightarrow> live s' = live s"
  by (auto simp: pthread_join_def pthread_create_def dest: os_try_frame split: prod.splits if_splits)

lemma thread_join_blocks:
  "thread_join s pt = (r, pt', s') \<Longrightarrow> th_priv pt \<noteq> None \<Longrightarrow>
   live s' = live s \<and> thread_blocks pt' = thread_blocks pt \<and> th_priv pt' \<noteq> None"
  by (auto simp: thread_join_def thread_blocks_def Let_def dest: pthread_live split: if_splits prod.splits)

lemma thread_init_managed:
  assumes "thread_init s pt = (r, pt', s')"
  shows "live s' - thread_blocks pt' = live s - thread_blocks pt \<and> r \<le> 0 \<and>
    (r < 0 \<longrightarrow> thread_blocks pt' = 0)"
proof -
  obtain ok priv s1 where a: "(case th_priv pt of
      None \<Rightarrow> (case os_alloc s of (ok, s) \<Rightarrow> (ok, \<lparr>th_mutex = None, th_dirty = False\<rparr>, s))
    | Some priv \<Rightarrow> (True, priv, s)) = (ok, priv, s1)"
    by (metis prod_cases3)
  then have b: "live s1 - (if ok then 1 + handle_blocks (th_mutex priv) else 0) = live s - thread_blocks pt"
    and "\<not> ok \<Longrightarrow> th_priv pt = None"
    by (auto simp: thread_blocks_def handle_blocks_def dest: os_alloc_live split: option.splits prod.splits)
  obtain ret m s2 where m: "mutex_init s1 (th_mutex priv) = (ret, m, s2)"
    by (metis prod_cases3)
  show ?thesis
    using assms a b \<open>\<not> ok \<Longrightarrow> th_priv pt = None\<close> m mutex.init_blocks [OF m] mutex.init_result [OF m]
      mutex.failed_init_no_leak [OF m]
    by (auto simp: thread_init_def thread_blocks_def split: if_splits)
qed

lemma thread_free_managed:
  assumes "thread_free s pt = (pt', s')"
  shows "live s' = live s - thread_blocks pt \<and> thread_blocks pt' = 0"
proof (cases "th_priv pt")
  case None
  with assms show ?thesis
    by (simp add: thread_free_def thread_blocks_def)
next
  case (Some priv)
  obtain r pt1 s1 where j: "thread_join s pt = (r, pt1, s1)"
    by (metis prod_cases3)
  obtain m s2 where m: "mutex_free s1 (th_mutex (the (th_priv pt1))) = (m, s2)"
    by (metis surj_pair)
  show ?thesis
    using assms Some j m thread_join_blocks [OF j] mutex.free_blocks [OF m]
    by (auto simp: thread_free_def thread_blocks_def)
qed

interpretation thread: managed thread_init thread_free thread_blocks
  by unfold_locales (use thread_init_managed thread_free_managed in blast)+

end
