(* ===== verification/Conn.thy ===== *)
theory Conn
  imports Thread
begin

text \<open>
  src/conn.c (the POSIX build): network connections over sockets.

  Each function is one definition over a handle and the environment of theory Os; the mutex of a
  handle orders these functions between threads and is left out of their bodies (theory Mutex
  has its protocol).  A receive returns the bytes it wrote to the start of the caller's buffer.
  \<open>rx_stream\<close> is the byte stream that the peer of a socket delivers, however it is cut into
  segments; the lemmas show that \<open>conn_recv\<close> reads exactly that stream, and that opening and
  closing a connection gives every descriptor back.
\<close>

section \<open>State\<close>

datatype CONN_TYPE = CONN_TYPE_TCP | CONN_TYPE_UDP

record conn_priv =
  cp_sock_fd :: int
  cp_conn_fd :: int
  cp_fd :: int
  cp_remote_addr :: sockaddr
  cp_mutex :: mutex_handle

record conn_handle =
  c_priv :: "conn_priv option"
  c_source_addr :: "string option"
  c_source_port :: "string option"
  c_type :: CONN_TYPE

abbreviation (input) INVALID_SOCKET :: int where "INVALID_SOCKET \<equiv> - 1"

text \<open>The functions other than \<open>conn_init\<close> and \<open>conn_free\<close> dereference \<open>priv\<close>.\<close>

abbreviation cpriv :: "conn_handle \<Rightarrow> conn_priv" where
  "cpriv conn \<equiv> the (c_priv conn)"

abbreviation with_priv :: "conn_handle \<Rightarrow> conn_priv \<Rightarrow> conn_handle" where
  "with_priv conn priv \<equiv> conn\<lparr>c_priv := Some priv\<rparr>"

text \<open>A handle with all its fields zero.\<close>

definition new_conn :: conn_handle where
  "new_conn = \<lparr>c_priv = None, c_source_addr = None, c_source_port = None, c_type = CONN_TYPE_TCP\<rparr>"

section \<open>The code\<close>

definition conn_init :: "os \<Rightarrow> conn_handle \<Rightarrow> int \<times> conn_handle \<times> os" where
  "conn_init s conn =
     (let (ok, priv, s) =
            (case c_priv conn of
               None \<Rightarrow> (case os_alloc s of (ok, s) \<Rightarrow>
                   (ok, \<lparr>cp_sock_fd = 0, cp_conn_fd = 0, cp_fd = 0, cp_remote_addr = AF_ZERO, cp_mutex = None\<rparr>, s))
             | Some priv \<Rightarrow> (True, priv, s))
      in if \<not> ok then (- ENOMEM, conn, s)
         else
           case mutex_init s (cp_mutex priv) of (ret, m, s) \<Rightarrow>
             if ret < 0 then (ret, conn\<lparr>c_priv := None\<rparr>, os_free s)
             else
               (0, with_priv conn (priv\<lparr>cp_mutex := m, cp_sock_fd := INVALID_SOCKET,
                     cp_conn_fd := INVALID_SOCKET, cp_fd := INVALID_SOCKET\<rparr>), s))"

definition conn_shutdown :: "os \<Rightarrow> conn_handle \<Rightarrow> os" where
  "conn_shutdown s conn =
     (let priv = cpriv conn;
          s = (if cp_conn_fd priv \<noteq> INVALID_SOCKET then os_shutdown s (cp_conn_fd priv) else s)
      in if cp_sock_fd priv \<noteq> INVALID_SOCKET then os_shutdown s (cp_sock_fd priv) else s)"

definition conn_close :: "os \<Rightarrow> conn_handle \<Rightarrow> conn_handle \<times> os" where
  "conn_close s conn =
     (let s = conn_shutdown s conn;
          priv = (cpriv conn)\<lparr>cp_fd := INVALID_SOCKET\<rparr>;
          (priv, s) =
            (if cp_conn_fd priv \<noteq> INVALID_SOCKET
             then (priv\<lparr>cp_conn_fd := INVALID_SOCKET\<rparr>, os_close s (cp_conn_fd priv)) else (priv, s));
          (priv, s) =
            (if cp_sock_fd priv \<noteq> INVALID_SOCKET
             then (priv\<lparr>cp_sock_fd := INVALID_SOCKET\<rparr>, os_close s (cp_sock_fd priv)) else (priv, s))
      in (with_priv conn priv, s))"

definition conn_free :: "os \<Rightarrow> conn_handle \<Rightarrow> conn_handle \<times> os" where
  "conn_free s conn =
     (if c_priv conn \<noteq> None
      then
        case conn_close s conn of (conn, s) \<Rightarrow>
          case mutex_free s (cp_mutex (cpriv conn)) of (_, s) \<Rightarrow>
            (conn\<lparr>c_priv := None\<rparr>, os_free s)
      else (conn, s))"

definition conn_listen :: "os \<Rightarrow> conn_handle \<Rightarrow> int \<times> conn_handle \<times> os" where
  "conn_listen s conn =
     (case os_try s of (ret, s) \<Rightarrow>
        if ret \<noteq> 0 then (- EADDRNOTAVAIL, conn, s)
        else
          (case os_socket s of
            (Inl e, s) \<Rightarrow> (- e, with_priv conn ((cpriv conn)\<lparr>cp_sock_fd := INVALID_SOCKET\<rparr>), s)
          | (Inr fd, s) \<Rightarrow>
              let priv = (cpriv conn)\<lparr>cp_sock_fd := fd\<rparr>
              in case os_fdcall s fd of (ret, s) \<Rightarrow>
                if ret \<noteq> 0 then (- ret, with_priv conn priv, s)
                else
                  case os_fdcall s fd of (ret, s) \<Rightarrow>
                    if ret \<noteq> 0 then (- ret, with_priv conn priv, s)
                    else
                      case (if c_type conn = CONN_TYPE_TCP then os_fdcall s fd else (0, s)) of (ret, s) \<Rightarrow>
                        if ret \<noteq> 0 then (- ret, with_priv conn priv, s)
                        else (0, with_priv conn (priv\<lparr>cp_fd := fd\<rparr>), s)))"

text \<open>\<open>conn_accept\<close> changes the accepted handle and only reads the listening one.  The keep-alive
  options are set by four calls.\<close>

fun conn_setsockopts :: "os \<Rightarrow> int \<Rightarrow> nat \<Rightarrow> int \<times> os" where
  "conn_setsockopts s fd 0 = (0, s)"
| "conn_setsockopts s fd (Suc n) =
     (case os_fdcall s fd of (ret, s) \<Rightarrow> if ret \<noteq> 0 then (- ret, s) else conn_setsockopts s fd n)"

definition conn_accept :: "os \<Rightarrow> conn_handle \<Rightarrow> conn_handle \<Rightarrow> int \<times> conn_handle \<times> os" where
  "conn_accept s conn accepted =
     (case os_accept s (cp_sock_fd (cpriv conn)) of
        (Inl e, s) \<Rightarrow> (- e, with_priv accepted ((cpriv accepted)\<lparr>cp_conn_fd := INVALID_SOCKET\<rparr>), s)
      | (Inr (fd, addr), s) \<Rightarrow>
          let apriv = (cpriv accepted)\<lparr>cp_conn_fd := fd, cp_remote_addr := addr\<rparr>
          in case conn_setsockopts s fd 4 of (ret, s) \<Rightarrow>
            if ret \<noteq> 0 then (ret, with_priv accepted apriv, s)
            else (0, with_priv accepted (apriv\<lparr>cp_fd := fd\<rparr>), s))"

text \<open>The target address of \<open>conn_connect\<close> only reaches \<open>getaddrinfo\<close> and \<open>connect\<close>, whose
  outcomes are the environment's.\<close>

definition conn_connect :: "os \<Rightarrow> conn_handle \<Rightarrow> string \<Rightarrow> string \<Rightarrow> int \<times> conn_handle \<times> os" where
  "conn_connect s conn addr port =
     (if c_type conn \<noteq> CONN_TYPE_TCP then (- EPROTOTYPE, conn, s)
      else
        case os_try s of (ret, s) \<Rightarrow>
          if ret \<noteq> 0 then (- EADDRNOTAVAIL, conn, s)
          else
            case os_try s of (ret, s) \<Rightarrow>
              if ret \<noteq> 0 then (- EADDRNOTAVAIL, conn, s)
              else
                (case os_socket s of
                  (Inl e, s) \<Rightarrow> (- e, with_priv conn ((cpriv conn)\<lparr>cp_sock_fd := INVALID_SOCKET\<rparr>), s)
                | (Inr fd, s) \<Rightarrow>
                    let priv = (cpriv conn)\<lparr>cp_sock_fd := fd\<rparr>;
                        failed = priv\<lparr>cp_sock_fd := INVALID_SOCKET\<rparr>
                    in case os_fdcall s fd of (ret, s) \<Rightarrow>
                      if ret \<noteq> 0 then (- ret, with_priv conn priv, s)
                      else
                        case os_fdcall s fd of (ret, s) \<Rightarrow>
                          if ret \<noteq> 0
                          then (- ret, with_priv conn failed, os_close (os_shutdown s fd) fd)
                          else
                            case os_fdcall s fd of (ret, s) \<Rightarrow>
                              if ret \<noteq> 0
                              then (- ret, with_priv conn failed, os_close (os_shutdown s fd) fd)
                              else (0, with_priv conn (priv\<lparr>cp_fd := fd\<rparr>), s)))"

text \<open>The number of digits, counted by a loop, and the digits, written by the cases of a switch
  that fall through; the result ends with its NUL.\<close>

function port_len :: "u16 \<Rightarrow> nat" where
  "port_len port_tmp =
     (let port_tmp = port_tmp div 10 in 1 + (if port_tmp \<noteq> 0 then port_len port_tmp else 0))"
  by pat_completeness auto

termination
proof (relation "measure unat")
  fix p q :: u16
  assume "q = p div 10" and "q \<noteq> 0"
  then have "unat q = unat p div 10" and "unat q \<noteq> 0"
    using unat_eq_zero [of q] by (auto simp: unat_div)
  then show "(q, p) \<in> measure unat"
    by simp
qed simp

definition conn_port_to_str :: "u16 \<Rightarrow> string" where
  "conn_port_to_str port =
     (let n = port_len port;
          digit = (\<lambda>d. char_of (48 + unat (d :: u16)) :: char);
          (r5, port_tmp) = (if n = 5 then ([digit (port div 10000)], port mod 10000) else ([], port));
          (r4, port_tmp) = (if n = 5 \<or> n = 4 then ([digit (port_tmp div 1000)], port_tmp mod 1000) else ([], port_tmp));
          (r3, port_tmp) = (if n = 5 \<or> n = 4 \<or> n = 3 then ([digit (port_tmp div 100)], port_tmp mod 100) else ([], port_tmp));
          (r2, port_tmp) = (if n = 5 \<or> n = 4 \<or> n = 3 \<or> n = 2 then ([digit (port_tmp div 10)], port_tmp mod 10) else ([], port_tmp));
          r1 = (if n = 5 \<or> n = 4 \<or> n = 3 \<or> n = 2 \<or> n = 1 then [digit port_tmp] else [])
      in r5 @ r4 @ r3 @ r2 @ r1 @ [NUL])"

text \<open>\<open>conn_recv\<close>: the loop for \<open>buff_len\<close> more bytes, with the bytes read so far.\<close>

function conn_recv_loop :: "os \<Rightarrow> int \<Rightarrow> nat \<Rightarrow> bytes \<Rightarrow> int \<times> bytes \<times> os" where
  "conn_recv_loop s fd buff_len got =
     (if buff_len = 0 then (int (length got), got, s)
      else
        case os_recvfrom s fd buff_len of
          (Inl e, s) \<Rightarrow> (- e, got, s)
        | (Inr (d, _), s) \<Rightarrow>
            if d = [] then (- EPIPE, got, s)
            else conn_recv_loop s fd (buff_len - length d) (got @ d))"
  by pat_completeness auto

termination
  by (relation "measure (\<lambda>(s, fd, n, got). n)") (auto simp flip: length_greater_0_conv)

definition conn_recv :: "os \<Rightarrow> conn_handle \<Rightarrow> nat \<Rightarrow> int \<times> bytes \<times> os" where
  "conn_recv s conn buff_len =
     (if c_type conn \<noteq> CONN_TYPE_TCP then (- EPROTOTYPE, [], s)
      else if cp_fd (cpriv conn) = INVALID_SOCKET then (- ENOTCONN, [], s)
      else conn_recv_loop s (cp_fd (cpriv conn)) buff_len [])"

text \<open>Reading an address as a \<open>struct sockaddr_in\<close>, whatever its family.\<close>

definition sin_of :: "sockaddr \<Rightarrow> u32 \<times> u16" where
  "sin_of a = (case a of AF_INET addr port \<Rightarrow> (addr, port) | AF_INET6 flow _ port \<Rightarrow> (flow, port) | AF_ZERO \<Rightarrow> (0, 0))"

text \<open>\<open>conn_recv_any\<close> returns its result, the bytes, and the address and port it stores through
  its pointer arguments when something was received.\<close>

definition conn_recv_any ::
    "os \<Rightarrow> conn_handle \<Rightarrow> nat \<Rightarrow> int \<times> bytes \<times> (u32 \<times> u16) option \<times> conn_handle \<times> os" where
  "conn_recv_any s conn buff_len =
     (if cp_fd (cpriv conn) = INVALID_SOCKET then (- ENOTCONN, [], None, conn, s)
      else
        case os_recvfrom s (cp_fd (cpriv conn)) buff_len of
          (Inl e, s) \<Rightarrow> (- e, [], None, conn, s)
        | (Inr (d, a), s) \<Rightarrow>
            let conn = (case a of None \<Rightarrow> conn
                  | Some a \<Rightarrow> with_priv conn ((cpriv conn)\<lparr>cp_remote_addr := a\<rparr>))
            in if d = [] then (- EPIPE, [], None, conn, s)
               else
                 let (addr, port) = sin_of (cp_remote_addr (cpriv conn))
                 in (int (length d), d, Some (addr, htons port), conn, s))"

text \<open>\<open>conn_send\<close>: every turn of the loop hands over the first \<open>buff_len\<close> bytes of the same
  buffer.\<close>

function conn_send_loop :: "os \<Rightarrow> int \<Rightarrow> bytes \<Rightarrow> nat \<Rightarrow> int \<times> os" where
  "conn_send_loop s fd buff buff_len =
     (if buff_len = 0 then (0, s)
      else
        case os_send s fd (take buff_len buff) of
          (Inl e, s) \<Rightarrow> (- e, s)
        | (Inr m, s) \<Rightarrow> if m = 0 then (- EPIPE, s) else conn_send_loop s fd buff (buff_len - m))"
  by pat_completeness auto

termination
  by (relation "measure (\<lambda>(s, fd, buff, n). n)") auto

definition conn_send :: "os \<Rightarrow> conn_handle \<Rightarrow> bytes \<Rightarrow> int \<times> os" where
  "conn_send s conn buff =
     (if c_type conn \<noteq> CONN_TYPE_TCP then (- EPROTOTYPE, s)
      else if cp_fd (cpriv conn) \<noteq> INVALID_SOCKET
      then conn_send_loop s (cp_fd (cpriv conn)) buff (length buff)
      else (- ENOTCONN, s))"

function conn_send_to_loop :: "os \<Rightarrow> int \<Rightarrow> bytes \<Rightarrow> nat \<Rightarrow> u32 \<Rightarrow> u16 \<Rightarrow> int \<times> os" where
  "conn_send_to_loop s fd buff buff_len addr port =
     (if buff_len = 0 then (0, s)
      else
        case os_sendto s fd (take buff_len buff) addr port of
          (Inl e, s) \<Rightarrow> (- e, s)
        | (Inr m, s) \<Rightarrow>
            if m = 0 then (- EPIPE, s) else conn_send_to_loop s fd buff (buff_len - m) addr port)"
  by pat_completeness auto

termination
  by (relation "measure (\<lambda>(s, fd, buff, n, addr, port). n)") auto

definition conn_send_to :: "os \<Rightarrow> conn_handle \<Rightarrow> bytes \<Rightarrow> u32 \<Rightarrow> u16 \<Rightarrow> int \<times> os" where
  "conn_send_to s conn buff addr port =
     (if c_type conn \<noteq> CONN_TYPE_UDP then (- EPROTOTYPE, s)
      else
        let sin_port = htons port
        in if cp_fd (cpriv conn) \<noteq> INVALID_SOCKET
           then conn_send_to_loop s (cp_fd (cpriv conn)) buff (length buff) addr sin_port
           else (- ENOTCONN, s))"

definition conn_timeval :: "u32 \<Rightarrow> u32 \<times> u32" where
  "conn_timeval msec = (msec div 1000, msec mod 1000 * 1000)"

definition conn_set_timeout :: "os \<Rightarrow> conn_handle \<Rightarrow> u32 \<Rightarrow> int \<times> os" where
  "conn_set_timeout s conn msec =
     (case os_fdcall s (cp_sock_fd (cpriv conn)) of (ret, s) \<Rightarrow> (- ret, s))"

definition conn_drop :: "os \<Rightarrow> conn_handle \<Rightarrow> conn_handle \<times> os" where
  "conn_drop s conn =
     (let priv = cpriv conn
      in if cp_conn_fd priv = INVALID_SOCKET \<and> cp_fd priv = INVALID_SOCKET then (conn, s)
         else
           let s = (if cp_conn_fd priv \<noteq> INVALID_SOCKET then os_shutdown s (cp_conn_fd priv) else s);
               priv = priv\<lparr>cp_fd := INVALID_SOCKET\<rparr>
           in if cp_conn_fd priv \<noteq> INVALID_SOCKET
              then (with_priv conn (priv\<lparr>cp_conn_fd := INVALID_SOCKET\<rparr>), os_close s (cp_conn_fd priv))
              else (with_priv conn priv, s))"

definition conn_in_use :: "conn_handle \<Rightarrow> bool" where
  "conn_in_use conn \<longleftrightarrow> cp_fd (cpriv conn) \<noteq> INVALID_SOCKET"

text \<open>The text of an IPv4 address, whose first byte in memory is its first component.\<close>

definition inet_ntop4 :: "u32 \<Rightarrow> string" where
  "inet_ntop4 a =
     (case map (\<lambda>b. dec (unat b)) (le32_bytes a) of
        [a0, a1, a2, a3] \<Rightarrow> a0 @ ''.'' @ a1 @ ''.'' @ a2 @ ''.'' @ a3 | _ \<Rightarrow> [])"

text \<open>\<open>conn_get_remote_addr\<close>: the string left in \<open>dest\<close>.  \<open>ntop6\<close> is \<open>inet_ntop\<close> for IPv6.\<close>

definition conn_get_remote_addr :: "(bytes \<Rightarrow> string) \<Rightarrow> conn_handle \<Rightarrow> string" where
  "conn_get_remote_addr ntop6 conn =
     (case cp_remote_addr (cpriv conn) of
        AF_INET addr port \<Rightarrow> inet_ntop4 addr @ '':'' @ cstr (conn_port_to_str port)
      | AF_INET6 _ addr port \<Rightarrow> ''['' @ ntop6 addr @ '']:'' @ cstr (conn_port_to_str port)
      | AF_ZERO \<Rightarrow> ''(unknown)'')"

section \<open>Specification\<close>

text \<open>The bytes that a stream socket still delivers before it ends or fails.\<close>

fun rx_stream :: "rx_event list \<Rightarrow> bytes" where
  "rx_stream (RxData d # rx) = (if d = [] then [] else d @ rx_stream rx)"
| "rx_stream _ = []"

definition sk_stream :: "sock \<Rightarrow> bytes" where
  "sk_stream k = (if sk_shut k then [] else rx_stream (sk_rx k))"

definition no_dgram :: "rx_event list \<Rightarrow> bool" where
  "no_dgram rx \<longleftrightarrow> (\<forall>a d. RxDgram a d \<notin> set rx)"

text \<open>A connection that can receive, and its stream.\<close>

definition conn_up :: "os \<Rightarrow> conn_handle \<Rightarrow> sock \<Rightarrow> bool" where
  "conn_up s conn k \<longleftrightarrow>
     c_type conn = CONN_TYPE_TCP \<and> cp_fd (cpriv conn) \<noteq> INVALID_SOCKET \<and>
     socks s (cp_fd (cpriv conn)) = Some k \<and> no_dgram (sk_rx k)"

definition conn_stream :: "os \<Rightarrow> conn_handle \<Rightarrow> bytes" where
  "conn_stream s conn =
     (case socks s (cp_fd (cpriv conn)) of None \<Rightarrow> [] | Some k \<Rightarrow> sk_stream k)"

text \<open>The descriptors a handle holds, the blocks it owns, and a handle that holds none.\<close>

definition conn_fds :: "conn_handle \<Rightarrow> int set" where
  "conn_fds conn =
     (case c_priv conn of None \<Rightarrow> {}
      | Some priv \<Rightarrow> {cp_sock_fd priv, cp_conn_fd priv} - {INVALID_SOCKET})"

definition conn_blocks :: "conn_handle \<Rightarrow> int" where
  "conn_blocks conn = (case c_priv conn of None \<Rightarrow> 0 | Some priv \<Rightarrow> 1 + handle_blocks (cp_mutex priv))"

definition conn_closed :: "conn_handle \<Rightarrow> bool" where
  "conn_closed conn \<longleftrightarrow>
     (case c_priv conn of None \<Rightarrow> False
      | Some priv \<Rightarrow> cp_sock_fd priv = INVALID_SOCKET \<and> cp_conn_fd priv = INVALID_SOCKET \<and>
          cp_fd priv = INVALID_SOCKET)"

text \<open>What the calls that open nothing leave alone.\<close>

definition same_fds :: "os \<Rightarrow> os \<Rightarrow> bool" where
  "same_fds s s' \<longleftrightarrow> socks s' = socks s \<and> next_fd s' = next_fd s \<and> live s' = live s \<and> threads s' = threads s"

text \<open>The state after a new socket \<open>fd\<close> was created and calls were made on it, as the openers
  leave it: still open, or closed again.\<close>

definition opened :: "os \<Rightarrow> int \<Rightarrow> os \<Rightarrow> bool" where
  "opened s fd s' \<longleftrightarrow>
     os_wf s' \<and> live s' = live s \<and> 0 \<le> fd \<and> socks s fd = None \<and> (\<forall>x. x \<noteq> fd \<longrightarrow> socks s' x = socks s x)"

text \<open>A result that leaves only new descriptors open, all of them held by the handle.\<close>

definition holds_new :: "os \<Rightarrow> int \<Rightarrow> conn_handle \<Rightarrow> os \<Rightarrow> bool" where
  "holds_new s r conn' s' \<longleftrightarrow>
     os_wf s' \<and> c_priv conn' \<noteq> None \<and> live s' = live s \<and> r \<le> 0 \<and>
     (\<forall>fd. fd \<notin> conn_fds conn' \<longrightarrow> socks s' fd = socks s fd) \<and>
     (\<forall>fd \<in> conn_fds conn'. socks s fd = None)"

text \<open>A transfer changes the state of one socket only, and never opens or closes it.\<close>

definition only_fd :: "int \<Rightarrow> os \<Rightarrow> os \<Rightarrow> bool" where
  "only_fd fd s s' \<longleftrightarrow>
     live s' = live s \<and> threads s' = threads s \<and> next_fd s' = next_fd s \<and> script s' = script s \<and>
     peers s' = peers s \<and> (\<forall>x. x \<noteq> fd \<longrightarrow> socks s' x = socks s x) \<and>
     (socks s' fd = None \<longleftrightarrow> socks s fd = None)"

text \<open>The socket behind a connection that \<open>conn_connect\<close> made.\<close>

definition next_peer :: "os \<Rightarrow> sock" where
  "next_peer s = (case peers s of [] \<Rightarrow> no_peer | p # _ \<Rightarrow> p)"

text \<open>A connection to a peer that is there and takes everything it is sent.\<close>

definition conn_good :: "os \<Rightarrow> conn_handle \<Rightarrow> sock \<Rightarrow> bool" where
  "conn_good s conn k \<longleftrightarrow> conn_up s conn k \<and> \<not> sk_shut k \<and> sk_tx k = []"

text \<open>A concrete connection, socket and environment for the witnesses.\<close>

definition wit_conn :: conn_handle where
  "wit_conn = \<lparr>c_priv = Some \<lparr>cp_sock_fd = 3, cp_conn_fd = - 1, cp_fd = 3, cp_remote_addr = AF_ZERO,
     cp_mutex = Some \<lparr>readers = 0\<rparr>\<rparr>, c_source_addr = None, c_source_port = None, c_type = CONN_TYPE_TCP\<rparr>"

definition wit_sock :: "rx_event list \<Rightarrow> tx_event list \<Rightarrow> sock" where
  "wit_sock rx tx = no_peer\<lparr>sk_rx := rx, sk_tx := tx\<rparr>"

definition wit_os :: "sock \<Rightarrow> os" where
  "wit_os k = \<lparr>script = [], live = 2, threads = 0, next_fd = 4, socks = [3 \<mapsto> k], peers = []\<rparr>"

section \<open>Receiving\<close>

lemma sk_recv_length: "sk_recv k n = (Inr (d, a), k') \<Longrightarrow> length d \<le> n"
  by (auto simp: sk_recv_def split: if_splits list.splits rx_event.splits)

lemma os_recvfrom_length: "os_recvfrom s fd n = (Inr (d, a), s') \<Longrightarrow> length d \<le> n"
  by (auto simp: os_recvfrom_def dest: sk_recv_length split: option.splits prod.splits)

declare conn_recv_loop.simps [simp del] conn_send_loop.simps [simp del]
  conn_send_to_loop.simps [simp del] port_len.simps [simp del]

lemma sk_recv_some:
  assumes "no_dgram (sk_rx k)" and "sk_stream k \<noteq> []" and "0 < n"
  obtains d rx where "sk_recv k n = (Inr (d, None), k\<lparr>sk_rx := rx\<rparr>)" and "d \<noteq> []"
    and "sk_stream k = d @ sk_stream (k\<lparr>sk_rx := rx\<rparr>)" and "no_dgram rx"
proof -
  from assms(2) obtain d rx where k: "sk_rx k = RxData d # rx" "d \<noteq> []" "\<not> sk_shut k"
    by (auto simp: sk_stream_def neq_Nil_conv split: if_splits elim!: rx_stream.elims)
  define rx' where "rx' = (if length d \<le> n then rx else RxData (drop n d) # rx)"
  have "sk_recv k n = (Inr (take n d, None), k\<lparr>sk_rx := rx'\<rparr>)"
    using k by (simp add: sk_recv_def rx'_def)
  moreover have "sk_stream k = take n d @ sk_stream (k\<lparr>sk_rx := rx'\<rparr>)"
    using k by (simp add: sk_stream_def rx'_def)
  moreover have "no_dgram rx'"
    using assms(1) by (auto simp: no_dgram_def k rx'_def)
  ultimately show ?thesis
    using that [of "take n d" rx'] k(2) assms(3) by simp
qed

lemma sk_recv_none:
  assumes "no_dgram (sk_rx k)" and "sk_stream k = []"
  shows "(\<exists>e k'. sk_recv k n = (Inl e, k') \<and> 0 < e) \<or> (\<exists>k'. sk_recv k n = (Inr ([], None), k'))"
proof (cases "sk_rx k")
  case (Cons r rx)
  with assms show ?thesis
    by (cases r) (auto simp: sk_recv_def sk_stream_def no_dgram_def errno_of_def split: if_splits)
qed (simp add: sk_recv_def)

lemma conn_recv_loop_ok:
  assumes "socks s fd = Some k" and "no_dgram (sk_rx k)" and "n \<le> length (sk_stream k)"
  shows "\<exists>rx. conn_recv_loop s fd n got =
      (int (length got + n), got @ take n (sk_stream k), set_sock s fd (k\<lparr>sk_rx := rx\<rparr>)) \<and>
    sk_stream (k\<lparr>sk_rx := rx\<rparr>) = drop n (sk_stream k) \<and> no_dgram rx"
  using assms
proof (induction n arbitrary: s k got rule: less_induct)
  case (less n)
  show ?case
  proof (cases "n = 0")
    case True
    with less.prems show ?thesis
      by (intro exI [of _ "sk_rx k"]) (simp add: conn_recv_loop.simps)
  next
    case False
    then have "sk_stream k \<noteq> []" "0 < n"
      using less.prems(3) by auto
    then obtain d rx where r: "sk_recv k n = (Inr (d, None), k\<lparr>sk_rx := rx\<rparr>)" "d \<noteq> []"
      and st: "sk_stream k = d @ sk_stream (k\<lparr>sk_rx := rx\<rparr>)" and "no_dgram rx"
      using sk_recv_some [OF less.prems(2)] by metis
    define s1 where "s1 = set_sock s fd (k\<lparr>sk_rx := rx\<rparr>)"
    have d: "length d \<le> n"
      using sk_recv_length [OF r(1)] .
    have "n - length d < n" "n - length d \<le> length (sk_stream (k\<lparr>sk_rx := rx\<rparr>))"
      using \<open>0 < n\<close> r(2) less.prems(3) st by auto
    moreover have "socks s1 fd = Some (k\<lparr>sk_rx := rx\<rparr>)"
      by (simp add: s1_def)
    ultimately obtain rx' where
      "conn_recv_loop s1 fd (n - length d) (got @ d) =
        (int (length (got @ d) + (n - length d)),
         (got @ d) @ take (n - length d) (sk_stream (k\<lparr>sk_rx := rx\<rparr>)),
         set_sock s1 fd (k\<lparr>sk_rx := rx'\<rparr>))"
      "sk_stream (k\<lparr>sk_rx := rx'\<rparr>) = drop (n - length d) (sk_stream (k\<lparr>sk_rx := rx\<rparr>))" "no_dgram rx'"
      using less.IH [of "n - length d" s1 "k\<lparr>sk_rx := rx\<rparr>" "got @ d"] \<open>no_dgram rx\<close> by auto
    moreover have "conn_recv_loop s fd n got = conn_recv_loop s1 fd (n - length d) (got @ d)"
      using False less.prems(1) r by (subst conn_recv_loop.simps) (simp add: os_recvfrom_def s1_def)
    ultimately show ?thesis
      using d st by (intro exI [of _ rx']) (simp add: s1_def)
  qed
qed

lemma conn_recv_loop_short:
  assumes "socks s fd = Some k" and "no_dgram (sk_rx k)" and "length (sk_stream k) < n"
  shows "\<exists>e s'. conn_recv_loop s fd n got = (- e, got @ sk_stream k, s') \<and> 0 < e"
  using assms
proof (induction n arbitrary: s k got rule: less_induct)
  case (less n)
  show ?case
  proof (cases "sk_stream k = []")
    case True
    then show ?thesis
      using sk_recv_none [OF less.prems(2) True, of n] less.prems
      by (subst conn_recv_loop.simps) (auto simp: os_recvfrom_def)
  next
    case False
    then obtain d rx where r: "sk_recv k n = (Inr (d, None), k\<lparr>sk_rx := rx\<rparr>)" "d \<noteq> []"
      and st: "sk_stream k = d @ sk_stream (k\<lparr>sk_rx := rx\<rparr>)" and "no_dgram rx"
      using sk_recv_some [OF less.prems(2), of n] less.prems(3) by (metis gr_implies_not0 neq0_conv)
    define s1 where "s1 = set_sock s fd (k\<lparr>sk_rx := rx\<rparr>)"
    have "n - length d < n" "length (sk_stream (k\<lparr>sk_rx := rx\<rparr>)) < n - length d"
      using r(2) less.prems(3) st by auto
    from less.IH [OF this(1) _ _ this(2), of s1 "got @ d"] \<open>no_dgram rx\<close> have
      "\<exists>e s'. conn_recv_loop s1 fd (n - length d) (got @ d) =
        (- e, (got @ d) @ sk_stream (k\<lparr>sk_rx := rx\<rparr>), s') \<and> 0 < e"
      by (auto simp: s1_def)
    moreover have "conn_recv_loop s fd n got = conn_recv_loop s1 fd (n - length d) (got @ d)"
      using less.prems r by (subst conn_recv_loop.simps) (simp add: os_recvfrom_def s1_def)
    ultimately show ?thesis
      using st by simp
  qed
qed

text \<open>The interface of a reader that blocks until it has all the bytes asked for: it delivers the
  next bytes of the stream behind it, and fails exactly when the stream ends too early.\<close>

locale byte_reader =
  fixes recv :: "'s \<Rightarrow> nat \<Rightarrow> int \<times> bytes \<times> 's"
    and stream :: "'s \<Rightarrow> bytes"
    and up :: "'s \<Rightarrow> bool"
  assumes recv_ok: "up s \<Longrightarrow> n \<le> length (stream s) \<Longrightarrow>
      \<exists>s'. recv s n = (int n, take n (stream s), s') \<and> stream s' = drop n (stream s) \<and> up s'"
    and recv_short: "up s \<Longrightarrow> length (stream s) < n \<Longrightarrow>
      \<exists>e s'. recv s n = (- e, stream s, s') \<and> 0 < e"
begin

lemma recv_result: "up s \<Longrightarrow> recv s n = (r, d, s') \<Longrightarrow> 0 \<le> r \<longleftrightarrow> n \<le> length (stream s)"
  using recv_ok [of s n] recv_short [of s n] by (cases "n \<le> length (stream s)") auto

lemma recv_prefix:
  assumes "up s" and "stream s = x @ y" and "length x = n"
  shows "\<exists>s'. recv s n = (int n, x, s') \<and> stream s' = y \<and> up s'"
  using recv_ok [OF assms(1), of n] assms(2,3) by auto

lemma recv_split:
  assumes "up s" and "m + n \<le> length (stream s)" and "recv s m = (r1, d1, s1)"
    and "recv s1 n = (r2, d2, s2)" and "recv s (m + n) = (r, d, s')"
  shows "d = d1 @ d2 \<and> r = r1 + r2 \<and> stream s' = stream s2"
proof -
  have "m \<le> length (stream s)"
    using assms(2) by simp
  then have 1: "r1 = int m" "d1 = take m (stream s)" "stream s1 = drop m (stream s)" "up s1"
    using recv_ok [OF assms(1), of m] assms(3) by auto
  then have 2: "r2 = int n" "d2 = take n (drop m (stream s))" "stream s2 = drop n (drop m (stream s))"
    using recv_ok [OF 1(4), of n] assms(2,4) by auto
  have "r = int (m + n)" "d = take (m + n) (stream s)" "stream s' = drop (m + n) (stream s)"
    using recv_ok [OF assms(1,2)] assms(5) by auto
  with 1 2 show ?thesis
    by (simp add: take_add add.commute)
qed

end

lemma conn_recv_ok:
  assumes "conn_up s conn k" and "n \<le> length (sk_stream k)"
  shows "\<exists>rx. conn_recv s conn n =
      (int n, take n (sk_stream k), set_sock s (cp_fd (cpriv conn)) (k\<lparr>sk_rx := rx\<rparr>)) \<and>
    sk_stream (k\<lparr>sk_rx := rx\<rparr>) = drop n (sk_stream k) \<and> no_dgram rx"
  using conn_recv_loop_ok [of s "cp_fd (cpriv conn)" k n "[]"] assms
  by (auto simp: conn_recv_def conn_up_def)

lemma conn_recv_short:
  assumes "conn_up s conn k" and "length (sk_stream k) < n"
  shows "\<exists>e s'. conn_recv s conn n = (- e, sk_stream k, s') \<and> 0 < e"
  using conn_recv_loop_short [of s "cp_fd (cpriv conn)" k n "[]"] assms
  by (auto simp: conn_recv_def conn_up_def)

lemma conn_stream_up: "conn_up s conn k \<Longrightarrow> conn_stream s conn = sk_stream k"
  by (simp add: conn_up_def conn_stream_def)

interpretation conn_reader: byte_reader "\<lambda>s. conn_recv s conn" "\<lambda>s. conn_stream s conn"
  "\<lambda>s. \<exists>k. conn_up s conn k" for conn
proof
  fix s n
  assume "\<exists>k. conn_up s conn k"
  then obtain k where k: "conn_up s conn k" ..
  show "\<exists>s'. conn_recv s conn n = (int n, take n (conn_stream s conn), s') \<and>
      conn_stream s' conn = drop n (conn_stream s conn) \<and> (\<exists>k. conn_up s' conn k)"
    if "n \<le> length (conn_stream s conn)"
    using conn_recv_ok [OF k, of n] that k
    by (auto simp: conn_stream_up [OF k] conn_up_def conn_stream_def)
  show "\<exists>e s'. conn_recv s conn n = (- e, conn_stream s conn, s') \<and> 0 < e"
    if "length (conn_stream s conn) < n"
    using conn_recv_short [OF k, of n] that by (simp add: conn_stream_up [OF k])
qed

section \<open>Sending\<close>

lemma htons_htons [simp, codec_simps]: "htons (htons x) = x"
  unfolding htons_def by (rule bit_word_eqI) (auto simp: bit_simps)

text \<open>A connection whose peer accepts everything.\<close>

lemma conn_send_loop_all:
  assumes "socks s fd = Some k" and "\<not> sk_shut k" and "sk_tx k = []"
  shows "conn_send_loop s fd buff (length buff) = (0, set_sock s fd (k\<lparr>sk_wire := sk_wire k @ buff\<rparr>))"
proof (cases "buff = []")
  case True
  with assms show ?thesis
    by (simp add: conn_send_loop.simps)
next
  case False
  have k: "k\<lparr>sk_tx := [], sk_wire := sk_wire k @ buff\<rparr> = k\<lparr>sk_wire := sk_wire k @ buff\<rparr>"
    using assms(3) by (cases k) simp
  from assms False show ?thesis
    by (subst conn_send_loop.simps) (simp add: os_send_def sk_send_def sk_accepts_def conn_send_loop.simps k)
qed

text \<open>Whatever the peer accepts, a send that succeeds has put as many bytes on the wire as the
  buffer has.\<close>

lemma sk_send_wire:
  "sk_send k d = (Inr m, k') \<Longrightarrow> m \<le> length d \<and> length (sk_wire k') = length (sk_wire k) + m"
  by (auto simp: sk_send_def sk_accepts_def split: if_splits list.splits tx_event.splits sum.splits prod.splits)

lemma conn_send_loop_count:
  assumes "conn_send_loop s fd buff n = (0, s')" and "n \<le> length buff"
    and "socks s fd = Some k"
  shows "\<exists>k'. socks s' fd = Some k' \<and> length (sk_wire k') = length (sk_wire k) + n"
  using assms
proof (induction n arbitrary: s k rule: less_induct)
  case (less n)
  show ?case
  proof (cases "n = 0")
    case True
    with less.prems show ?thesis
      by (simp add: conn_send_loop.simps)
  next
    case False
    obtain r k1 where r: "sk_send k (take n buff) = (r, k1)"
      by (metis surj_pair)
    with less.prems(1,3) False obtain m where m: "r = Inr m" "m \<noteq> 0"
      and rec: "conn_send_loop (set_sock s fd k1) fd buff (n - m) = (0, s')"
      by (subst (asm) conn_send_loop.simps)
         (auto simp: os_send_def sk_send_def sk_accepts_def errno_of_def split: sum.splits if_splits list.splits tx_event.splits)
    from r m have w: "m \<le> n" "length (sk_wire k1) = length (sk_wire k) + m"
      using sk_send_wire [of k "take n buff" m k1] less.prems(2) by simp_all
    show ?thesis
      using less.IH [OF _ rec, of k1] m(2) w less.prems(2) False by simp
  qed
qed

text \<open>A partial send is followed by the beginning of the buffer again.\<close>

lemma conn_send_loop_partial:
  assumes "socks s fd = Some k" and "\<not> sk_shut k" and "sk_tx k = [TxAccept m]"
    and "0 < m" and "m < length buff"
  shows "conn_send_loop s fd buff (length buff) =
    (0, set_sock s fd (k\<lparr>sk_tx := [], sk_wire := sk_wire k @ take m buff @ take (length buff - m) buff\<rparr>))"
proof -
  let ?k = "k\<lparr>sk_tx := [], sk_wire := sk_wire k @ take m buff\<rparr>"
  have "buff \<noteq> []"
    using assms(5) by auto
  note assms = assms this
  have "conn_send_loop s fd buff (length buff) = conn_send_loop (set_sock s fd ?k) fd buff (length buff - m)"
    using assms by (subst conn_send_loop.simps) (simp add: os_send_def sk_send_def sk_accepts_def)
  also have "\<dots> = (0, set_sock s fd (?k\<lparr>sk_wire := sk_wire ?k @ take (length buff - m) buff\<rparr>))"
    using assms by (subst conn_send_loop.simps) (simp add: os_send_def sk_send_def sk_accepts_def conn_send_loop.simps)
  finally show ?thesis
    by simp
qed

lemma conn_send_to_loop_all:
  assumes "socks s fd = Some k" and "\<not> sk_shut k" and "sk_tx k = []" and "buff \<noteq> []"
  shows "conn_send_to_loop s fd buff (length buff) addr port =
    (0, set_sock s fd (k\<lparr>sk_dgrams := sk_dgrams k @ [(addr, port, buff)]\<rparr>))"
proof -
  have k: "k\<lparr>sk_tx := [], sk_dgrams := sk_dgrams k @ [(addr, port, buff)]\<rparr> =
      k\<lparr>sk_dgrams := sk_dgrams k @ [(addr, port, buff)]\<rparr>"
    using assms(3) by (cases k) simp
  from assms show ?thesis
    by (subst conn_send_to_loop.simps)
       (simp add: os_sendto_def sk_sendto_def sk_accepts_def conn_send_to_loop.simps k)
qed

section \<open>Ports and addresses as text\<close>

lemma port_len_count:
  "port_len p = (let q = unat p in if q < 10 then 1 else if q < 100 then 2 else if q < 1000 then 3
     else if q < 10000 then 4 else 5)"
proof -
  have u: "unat (p div 10) = unat p div 10" "unat p < 65536" for p :: u16
    using unsigned_less [of p, where ?'a = nat] by (simp_all add: unat_div)
  have nz: "p div 10 \<noteq> 0 \<longleftrightarrow> 10 \<le> unat p" for p :: u16
    using u(1) [of p] unat_eq_zero [of "p div 10"] by auto
  have "port_len p = (if 10 \<le> unat p then Suc (port_len (p div 10)) else 1)" for p
    by (subst port_len.simps) (simp add: nz Let_def)
  note step = this
  show ?thesis
    using u(2) [of p]
    by (simp add: step [of p] step [of "p div 10"] step [of "p div 10 div 10"]
        step [of "p div 10 div 10 div 10"] step [of "p div 10 div 10 div 10 div 10"] u(1) Let_def
        div_mult2_eq [symmetric] less_eq_div_iff_mult_less_eq)
qed

lemma mod_mult_div: "q mod (a * b) div a = q div a mod b" for a b q :: nat
  by (cases "a = 0") (simp_all add: mod_mult2_eq)

lemma port_digit:
  "unat (p div 10000) = unat p div 10000" "unat (p mod 10000) = unat p mod 10000"
  "unat (p div 1000) = unat p div 1000" "unat (p mod 1000) = unat p mod 1000"
  "unat (p div 100) = unat p div 100" "unat (p mod 100) = unat p mod 100"
  "unat (p div 10) = unat p div 10" "unat (p mod 10) = unat p mod 10" for p :: u16
  by (simp_all add: unat_div unat_mod)

lemma conn_port_to_str_dec: "conn_port_to_str p = dec (unat p) @ [NUL]"
proof -
  define q where "q = unat p"
  have m: "q mod 10000 div 1000 = q div 1000 mod 10" "q mod 1000 div 100 = q div 100 mod 10"
    "q mod 100 div 10 = q div 10 mod 10"
    using mod_mult_div [of q 1000 10] mod_mult_div [of q 100 10] mod_mult_div [of q 10 10] by simp_all
  have c: "q mod 10000 mod 1000 = q mod 1000" "q mod 1000 mod 100 = q mod 100" "q mod 100 mod 10 = q mod 10"
    by (simp_all add: mod_mod_cancel)
  have d: "q div 10 div 10 = q div 100" "q div 100 div 10 = q div 1000" "q div 1000 div 10 = q div 10000"
    by (simp_all add: div_mult2_eq [symmetric])
  have "q < 65536"
    using unsigned_less [of p, where ?'a = nat] by (simp add: q_def)
  then consider "q < 10" | "10 \<le> q" "q < 100" | "100 \<le> q" "q < 1000" | "1000 \<le> q" "q < 10000"
    | "10000 \<le> q" "q < 65536"
    by linarith
  then show ?thesis
    unfolding conn_port_to_str_def port_len_count Let_def q_def [symmetric]
    by cases (simp_all add: port_digit q_def [symmetric] m c d dec_short [of q] dec_short [of "q div 10"]
        dec_short [of "q div 100"] dec_short [of "q div 1000"] dec_short [of "q div 10000"]
        less_eq_div_iff_mult_less_eq div_less_iff_less_mult)
qed

lemma cstr_port: "cstr (conn_port_to_str p) = dec (unat p)"
  by (simp add: conn_port_to_str_dec dec_digits)

lemma length_port: "length (dec (unat (p :: u16))) \<le> 5"
  using length_dec [of "unat p" 4] unsigned_less [of p, where ?'a = nat] by simp

lemma length_inet_ntop4: "length (inet_ntop4 a) \<le> 15"
proof -
  have "length (dec (unat (b :: u8))) \<le> 3" for b
    using length_dec [of "unat b" 2] unsigned_less [of b, where ?'a = nat] by simp
  note l = this
  show ?thesis
    unfolding inet_ntop4_def le32_bytes_def
    using l [of "ucast a"] l [of "ucast (drop_bit 8 a)"] l [of "ucast (drop_bit 16 a)"]
      l [of "ucast (drop_bit 24 a)"] by simp
qed

section \<open>Descriptors and blocks\<close>

lemma os_wf_cong: "os_wf s \<Longrightarrow> socks s' = socks s \<Longrightarrow> next_fd s' = next_fd s \<Longrightarrow> os_wf s'"
  by (simp add: os_wf_def)

lemma same_fds_trans [trans]: "same_fds s s' \<Longrightarrow> same_fds s' s'' \<Longrightarrow> same_fds s s''"
  by (simp add: same_fds_def)

lemma same_fds_calls:
  "os_try s = (r, s') \<Longrightarrow> same_fds s s'" "os_fdcall s fd = (r, s') \<Longrightarrow> same_fds s s'"
  by (auto simp: os_try_def os_fdcall_def same_fds_def split: list.splits if_splits)

lemma os_fdcall_result: "os_fdcall s fd = (r, s') \<Longrightarrow> 0 \<le> r"
  using os_try_live(2) [of s r s'] by (auto simp: os_fdcall_def split: if_splits)

lemma conn_setsockopts_frame: "conn_setsockopts s fd n = (r, s') \<Longrightarrow> same_fds s s' \<and> r \<le> 0"
proof (induction n arbitrary: s)
  case 0
  then show ?case
    by (simp add: same_fds_def)
next
  case (Suc n)
  obtain r1 s1 where c: "os_fdcall s fd = (r1, s1)"
    by (metis surj_pair)
  note f = same_fds_calls(2) [OF c] os_fdcall_result [OF c]
  show ?case
  proof (cases "r1 = 0")
    case True
    then show ?thesis
      using Suc.IH [of s1] Suc.prems c same_fds_trans [OF f(1)] by simp
  next
    case False
    then show ?thesis
      using Suc.prems c f by simp
  qed
qed

text \<open>A new socket: its descriptor was not in use.\<close>

lemma os_socket_new:
  assumes "os_wf s" and "os_socket s = (Inr fd, s')"
  obtains k where "socks s fd = None" "socks s' = (socks s)(fd \<mapsto> k)" "0 \<le> fd"
    "os_wf s'" "live s' = live s" "threads s' = threads s"
proof -
  obtain s1 where s1: "os_try s = (0, s1)" and fd: "fd = next_fd s1"
    using assms(2) by (auto simp: os_socket_def Let_def split: prod.splits if_splits)
  have same: "socks s1 = socks s" "next_fd s1 = next_fd s" "live s1 = live s" "threads s1 = threads s"
    using same_fds_calls(1) [OF s1] by (simp_all add: same_fds_def)
  obtain k where k: "socks s' = (socks s)(fd \<mapsto> k)" "next_fd s' = next_fd s + 1" "live s' = live s"
    "threads s' = threads s"
    using assms(2) s1 same fd by (auto simp: os_socket_def Let_def split: prod.splits)
  have wf: "0 \<le> next_fd s" "\<And>x k. socks s x = Some k \<Longrightarrow> 0 \<le> x \<and> x < next_fd s"
    using assms(1) by (auto simp: os_wf_def)
  have "0 \<le> fd" and "socks s fd = None"
    using wf(1) wf(2) [of "next_fd s"] fd same(2) by (simp, cases "socks s fd") auto
  moreover have "os_wf s'"
    using wf fd same(2) by (force simp: os_wf_def k)
  ultimately show ?thesis
    using that k by blast
qed

lemma os_socket_failed:
  assumes "os_socket s = (Inl e, s')"
  shows "same_fds s s' \<and> 0 < e"
proof -
  obtain r s1 where r: "os_try s = (r, s1)"
    by (metis surj_pair)
  with assms have "r \<noteq> 0" "e = r" "s' = s1"
    by (auto simp: os_socket_def Let_def split: if_splits prod.splits)
  then show ?thesis
    using same_fds_calls(1) [OF r] os_try_live(2) [OF r] by simp
qed

lemma os_shutdown_frame [simp]:
  "live (os_shutdown s fd) = live s" "threads (os_shutdown s fd) = threads s"
  "next_fd (os_shutdown s fd) = next_fd s"
  "socks (os_shutdown s fd) x = None \<longleftrightarrow> socks s x = None"
  "x \<noteq> fd \<Longrightarrow> socks (os_shutdown s fd) x = socks s x"
  by (auto simp: os_shutdown_def split: option.splits)

lemma os_close_frame [simp]:
  "live (os_close s fd) = live s" "threads (os_close s fd) = threads s"
  "next_fd (os_close s fd) = next_fd s" "socks (os_close s fd) = (socks s)(fd := None)"
  by (simp_all add: os_close_def)

lemma conn_shutdown_frame [simp]:
  "live (conn_shutdown s conn) = live s" "threads (conn_shutdown s conn) = threads s"
  "next_fd (conn_shutdown s conn) = next_fd s"
  by (simp_all add: conn_shutdown_def Let_def)

lemma conn_close_frame:
  assumes "c_priv conn = Some priv" and "conn_close s conn = (conn', s')"
  shows "conn' = with_priv conn (priv\<lparr>cp_fd := - 1, cp_conn_fd := - 1, cp_sock_fd := - 1\<rparr>)"
    and "socks s' = (\<lambda>x. if x \<in> conn_fds conn then None else socks s x)"
    and "live s' = live s" and "threads s' = threads s" and "next_fd s' = next_fd s"
proof -
  show "conn' = with_priv conn (priv\<lparr>cp_fd := - 1, cp_conn_fd := - 1, cp_sock_fd := - 1\<rparr>)"
    using assms by (cases priv) (auto simp: conn_close_def Let_def split: if_splits)
  show "socks s' = (\<lambda>x. if x \<in> conn_fds conn then None else socks s x)"
    using assms by (auto simp: conn_close_def conn_shutdown_def conn_fds_def Let_def split: if_splits)
  show "live s' = live s" "threads s' = threads s" "next_fd s' = next_fd s"
    using assms by (auto simp: conn_close_def Let_def split: if_splits)
qed

lemma conn_closed_close:
  "c_priv conn \<noteq> None \<Longrightarrow> conn_close s conn = (conn', s') \<Longrightarrow> conn_closed conn' \<and> conn_fds conn' = {}"
  using conn_close_frame(1) by (fastforce simp: conn_closed_def conn_fds_def)

lemma holds_new_close:
  assumes "holds_new s r conn' s'" and "conn_close s' conn' = (conn'', s'')"
  shows "socks s'' = socks s \<and> conn_closed conn'' \<and> live s'' = live s"
proof -
  note o = assms(1) [unfolded holds_new_def]
  then obtain priv where p: "c_priv conn' = Some priv"
    by auto
  have "socks s'' fd = socks s fd" for fd
    using o conn_close_frame(2) [OF p assms(2)] by auto
  then show ?thesis
    using o conn_close_frame(3) [OF p assms(2)] conn_closed_close [OF _ assms(2)] p by auto
qed

text \<open>The contract of an operation that opens a connection on a closed handle: every descriptor
  it leaves open is new and held by the handle, whether it succeeds or fails.  The client lemma:
  closing the handle afterwards gives all descriptors back.\<close>

locale conn_opener =
  fixes open_conn :: "os \<Rightarrow> conn_handle \<Rightarrow> int \<times> conn_handle \<times> os"
  assumes opens: "os_wf s \<Longrightarrow> conn_closed conn \<Longrightarrow> open_conn s conn = (r, conn', s') \<Longrightarrow>
      holds_new s r conn' s'"
    and keeps_blocks: "c_priv conn \<noteq> None \<Longrightarrow> open_conn s conn = (r, conn', s') \<Longrightarrow>
      conn_blocks conn' = conn_blocks conn"
begin

lemma close_restores:
  assumes "os_wf s" and "conn_closed conn" and "open_conn s conn = (r, conn', s')"
    and "conn_close s' conn' = (conn'', s'')"
  shows "socks s'' = socks s \<and> conn_closed conn'' \<and> live s'' = live s"
  using holds_new_close [OF opens [OF assms(1-3)] assms(4)] .

end

lemma conn_closed_priv:
  "conn_closed conn \<Longrightarrow> \<exists>priv. c_priv conn = Some priv \<and> cp_sock_fd priv = - 1 \<and> cp_conn_fd priv = - 1 \<and> cp_fd priv = - 1"
  by (auto simp: conn_closed_def split: option.splits)

lemmas open_simps = conn_fds_def same_fds_def Let_def

lemma opener_keeps_blocks:
  assumes "c_priv c \<noteq> None"
  shows "conn_accept s conn c = (r, c', s') \<Longrightarrow> conn_blocks c' = conn_blocks c"
    and "conn_listen s c = (r, c', s') \<Longrightarrow> conn_blocks c' = conn_blocks c"
    and "conn_connect s c addr port = (r, c', s') \<Longrightarrow> conn_blocks c' = conn_blocks c"
  using assms
  by (auto simp: conn_accept_def conn_listen_def conn_connect_def conn_blocks_def Let_def
      split: prod.splits sum.splits if_splits)

interpretation accepting: conn_opener "\<lambda>s acc. conn_accept s conn acc" for conn
proof
  show "c_priv c \<noteq> None \<Longrightarrow> conn_accept s conn c = (r, c', s') \<Longrightarrow> conn_blocks c' = conn_blocks c" for s c r c' s'
    by (rule opener_keeps_blocks)
  fix s acc r acc' s'
  assume wf: "os_wf s" and "conn_closed acc" and acc: "conn_accept s conn acc = (r, acc', s')"
  then obtain priv where p: "c_priv acc = Some priv" "cp_sock_fd priv = - 1" "cp_conn_fd priv = - 1" "cp_fd priv = - 1"
    using conn_closed_priv by blast
  obtain x s1 where x: "os_accept s (cp_sock_fd (cpriv conn)) = (x, s1)"
    by (metis surj_pair)
  show "holds_new s r acc' s'"
  proof (cases x)
    case (Inl e)
    then have "same_fds s s1 \<and> 0 < e"
      using x os_socket_failed [of s e s1]
      by (auto simp: os_accept_def same_fds_def split: if_splits prod.splits sum.splits)
    with acc x Inl p wf show ?thesis
      by (auto simp: holds_new_def conn_accept_def conn_fds_def same_fds_def intro: os_wf_cong)
  next
    case (Inr y)
    then obtain fd a where y: "x = Inr (fd, a)" by (cases y) auto
    then have "os_socket s = (Inr fd, s1)"
      using x by (auto simp: os_accept_def split: if_splits prod.splits sum.splits)
    then obtain k where k: "socks s fd = None" "socks s1 = (socks s)(fd \<mapsto> k)" "0 \<le> fd" "os_wf s1" "live s1 = live s"
      using os_socket_new [OF wf] by metis
    obtain r2 s2 where r2: "conn_setsockopts s1 fd 4 = (r2, s2)"
      by (metis surj_pair)
    note f = conn_setsockopts_frame [OF r2]
    show ?thesis
      using acc x y r2 f k p os_wf_cong [OF k(4), of s2]
      by (auto simp: holds_new_def conn_accept_def open_simps split: if_splits)
  qed
qed

lemma opened_socket:
  assumes "os_wf s" "same_fds s s1" "os_socket s1 = (Inr fd, s2)"
  shows "opened s fd s2"
proof -
  have "os_wf s1"
    using assms(1,2) by (simp add: os_wf_def same_fds_def)
  then obtain k where "socks s1 fd = None" "socks s2 = (socks s1)(fd \<mapsto> k)" "0 \<le> fd"
    "os_wf s2" "live s2 = live s1"
    using os_socket_new [OF _ assms(3)] by metis
  then show ?thesis
    using assms(2) by (simp add: opened_def same_fds_def)
qed

lemma opened_fdcall: "opened s fd s1 \<Longrightarrow> os_fdcall s1 x = (r, s2) \<Longrightarrow> opened s fd s2 \<and> 0 \<le> r"
  using same_fds_calls(2) [of s1 x r s2] os_fdcall_result [of s1 x r s2]
  by (auto simp: opened_def same_fds_def intro: os_wf_cong)

lemma opened_closed: "opened s fd s1 \<Longrightarrow> opened s fd (os_close (os_shutdown s1 fd) fd)"
  by (auto simp: opened_def os_wf_def)

lemma opened_closed_socks: "opened s fd s1 \<Longrightarrow> socks (os_close (os_shutdown s1 fd) fd) = socks s"
  by (auto simp: opened_def)

lemma same_fds_try: "same_fds s s1 \<Longrightarrow> os_try s1 = (r, s2) \<Longrightarrow> same_fds s s2"
  using same_fds_calls(1) same_fds_trans by blast

lemma same_fds_socket_failed: "same_fds s s1 \<Longrightarrow> os_socket s1 = (Inl e, s2) \<Longrightarrow> same_fds s s2 \<and> 0 < e"
  using os_socket_failed same_fds_trans by blast

lemma same_fds_refl: "same_fds s s"
  by (simp add: same_fds_def)

text \<open>The two shapes of a result that satisfy the contract.\<close>

lemma opens_nothing:
  assumes "os_wf s" "same_fds s s'" "conn_fds conn' = {}" "c_priv conn' \<noteq> None" "r \<le> 0"
  shows "holds_new s r conn' s'"
  using assms by (auto simp: holds_new_def same_fds_def os_wf_def)

lemma opens_one:
  assumes "opened s fd s'" "conn_fds conn' = {fd}" "c_priv conn' \<noteq> None" "r \<le> 0"
  shows "holds_new s r conn' s'"
  using assms by (auto simp: holds_new_def opened_def)

lemma opens_closed:
  assumes "opened s fd s1" "s' = os_close (os_shutdown s1 fd) fd" "conn_fds conn' = {}"
    "c_priv conn' \<noteq> None" "r \<le> 0"
  shows "holds_new s r conn' s'"
  using opened_closed [OF assms(1)] opened_closed_socks [OF assms(1)] assms(2-5)
  by (auto simp: holds_new_def opened_def)

lemma opened_nonneg: "opened s fd s' \<Longrightarrow> fd \<noteq> - 1"
  by (simp add: opened_def)

interpretation listening: conn_opener conn_listen
proof
  show "c_priv c \<noteq> None \<Longrightarrow> conn_listen s c = (r, c', s') \<Longrightarrow> conn_blocks c' = conn_blocks c" for s c r c' s'
    by (rule opener_keeps_blocks)
  fix s conn r conn' s'
  assume wf: "os_wf s" and "conn_closed conn" and l: "conn_listen s conn = (r, conn', s')"
  then obtain priv where p: "c_priv conn = Some priv" "cp_sock_fd priv = - 1" "cp_conn_fd priv = - 1" "cp_fd priv = - 1"
    using conn_closed_priv by blast
  obtain r1 s1 where 1: "os_try s = (r1, s1)" by (metis surj_pair)
  note f1 = same_fds_calls(1) [OF 1]
  obtain x s2 where 2: "os_socket s1 = (x, s2)" by (metis surj_pair)
  show "holds_new s r conn' s'"
  proof (cases "r1 \<noteq> 0")
    case True
    with l 1 p f1 show ?thesis
      by (intro opens_nothing [OF wf]) (auto simp: conn_listen_def conn_fds_def)
  next
    case r1: False
    show ?thesis
    proof (cases x)
      case (Inl e)
      with l 1 2 p r1 same_fds_socket_failed [OF f1, of e s2] show ?thesis
        by (intro opens_nothing [OF wf]) (auto simp: conn_listen_def conn_fds_def)
    next
      case (Inr fd)
      then have f2: "opened s fd s2"
        using opened_socket [OF wf f1] 2 by simp
      obtain r3 s3 where 3: "os_fdcall s2 fd = (r3, s3)" by (metis surj_pair)
      note f3 = opened_fdcall [OF f2 3]
      obtain r4 s4 where 4: "os_fdcall s3 fd = (r4, s4)" by (metis surj_pair)
      note f4 = opened_fdcall [OF conjunct1 [OF f3] 4]
      obtain r5 s5 where 5: "os_fdcall s4 fd = (r5, s5)" by (metis surj_pair)
      note f5 = opened_fdcall [OF conjunct1 [OF f4] 5]
      have "opened s fd s' \<and> conn_fds conn' = {fd} \<and> c_priv conn' \<noteq> None \<and> r \<le> 0"
        using l 1 2 3 4 5 Inr r1 p f3 f4 f5 opened_nonneg [OF f2]
        by (auto simp: conn_listen_def conn_fds_def Let_def split: if_splits)
      then show ?thesis
        by (intro opens_one) auto
    qed
  qed
qed

interpretation connecting: conn_opener "\<lambda>s conn. conn_connect s conn addr port" for addr port
proof
  show "c_priv c \<noteq> None \<Longrightarrow> conn_connect s c addr port = (r, c', s') \<Longrightarrow> conn_blocks c' = conn_blocks c" for s c r c' s'
    by (rule opener_keeps_blocks)
  fix s conn r conn' s'
  assume wf: "os_wf s" and "conn_closed conn" and l: "conn_connect s conn addr port = (r, conn', s')"
  then obtain priv where p: "c_priv conn = Some priv" "cp_sock_fd priv = - 1" "cp_conn_fd priv = - 1" "cp_fd priv = - 1"
    using conn_closed_priv by blast
  obtain r0 s0 where 0: "os_try s = (r0, s0)" by (metis surj_pair)
  note f0 = same_fds_calls(1) [OF 0]
  obtain r1 s1 where 1: "os_try s0 = (r1, s1)" by (metis surj_pair)
  note f1 = same_fds_try [OF f0 1]
  obtain x s2 where 2: "os_socket s1 = (x, s2)" by (metis surj_pair)
  show "holds_new s r conn' s'"
  proof (cases "c_type conn \<noteq> CONN_TYPE_TCP \<or> r0 \<noteq> 0 \<or> r1 \<noteq> 0")
    case True
    with l 0 1 p f0 f1 same_fds_refl [of s] show ?thesis
      by (intro opens_nothing [OF wf]) (auto simp: conn_connect_def conn_fds_def split: if_splits)
  next
    case r1: False
    show ?thesis
    proof (cases x)
      case (Inl e)
      with l 0 1 2 p r1 same_fds_socket_failed [OF f1, of e s2] show ?thesis
        by (intro opens_nothing [OF wf]) (auto simp: conn_connect_def conn_fds_def)
    next
      case (Inr fd)
      then have f2: "opened s fd s2"
        using opened_socket [OF wf f1] 2 by simp
      obtain r3 s3 where 3: "os_fdcall s2 fd = (r3, s3)" by (metis surj_pair)
      note f3 = opened_fdcall [OF f2 3]
      obtain r4 s4 where 4: "os_fdcall s3 fd = (r4, s4)" by (metis surj_pair)
      note f4 = opened_fdcall [OF conjunct1 [OF f3] 4]
      obtain r5 s5 where 5: "os_fdcall s4 fd = (r5, s5)" by (metis surj_pair)
      note f5 = opened_fdcall [OF conjunct1 [OF f4] 5]
      note calls = 0 1 2 3 4 5 Inr r1 p
      consider "r3 \<noteq> 0 \<or> r4 = 0 \<and> r5 = 0" | "r3 = 0" "r4 \<noteq> 0" | "r3 = 0" "r4 = 0" "r5 \<noteq> 0"
        by blast
      then show ?thesis
      proof cases
        case 1
        then show ?thesis
          using l calls f3 f4 f5 opened_nonneg [OF f2]
          by (intro opens_one [of s fd]) (auto simp: conn_connect_def conn_fds_def Let_def split: if_splits)
      next
        case 2
        then show ?thesis
          using l calls f4
          by (intro opens_closed [of s fd s4]) (auto simp: conn_connect_def conn_fds_def Let_def)
      next
        case 3
        then show ?thesis
          using l calls f5
          by (intro opens_closed [of s fd s5]) (auto simp: conn_connect_def conn_fds_def Let_def)
      qed
    qed
  qed
qed

text \<open>Life cycle.\<close>

lemma conn_init_managed:
  assumes "conn_init s conn = (r, conn', s')"
  shows "live s' - conn_blocks conn' = live s - conn_blocks conn \<and> r \<le> 0 \<and>
    (r < 0 \<longrightarrow> conn_blocks conn' = 0) \<and> (r = 0 \<longrightarrow> conn_closed conn')"
proof -
  obtain ok priv s1 where a: "(case c_priv conn of
      None \<Rightarrow> (case os_alloc s of (ok, s) \<Rightarrow>
          (ok, \<lparr>cp_sock_fd = 0, cp_conn_fd = 0, cp_fd = 0, cp_remote_addr = AF_ZERO, cp_mutex = None\<rparr>, s))
    | Some priv \<Rightarrow> (True, priv, s)) = (ok, priv, s1)"
    by (metis prod_cases3)
  then have b: "live s1 - (if ok then 1 + handle_blocks (cp_mutex priv) else 0) = live s - conn_blocks conn"
    and n: "\<not> ok \<Longrightarrow> c_priv conn = None"
    by (auto simp: conn_blocks_def handle_blocks_def dest: os_alloc_live split: option.splits prod.splits)
  obtain ret m s2 where m: "mutex_init s1 (cp_mutex priv) = (ret, m, s2)"
    by (metis prod_cases3)
  show ?thesis
    using assms a b n m mutex.init_blocks [OF m] mutex.init_result [OF m]
      mutex.failed_init_no_leak [OF m]
    by (auto simp: conn_init_def conn_blocks_def conn_closed_def split: if_splits)
qed

lemma conn_free_managed:
  assumes "conn_free s conn = (conn', s')"
  shows "live s' = live s - conn_blocks conn \<and> conn_blocks conn' = 0"
proof (cases "c_priv conn")
  case None
  with assms show ?thesis
    by (simp add: conn_free_def conn_blocks_def)
next
  case (Some priv)
  obtain conn1 s1 where c: "conn_close s conn = (conn1, s1)"
    by (metis surj_pair)
  obtain m s2 where m: "mutex_free s1 (cp_mutex (cpriv conn1)) = (m, s2)"
    by (metis surj_pair)
  show ?thesis
    using assms Some c m conn_close_frame(1,3) [OF Some c] mutex.free_blocks [OF m]
    by (auto simp: conn_free_def conn_blocks_def)
qed

interpretation conn: managed conn_init conn_free conn_blocks
  by unfold_locales (use conn_init_managed conn_free_managed in blast)+

text \<open>Descriptors of the life cycle, and freeing a handle that holds new descriptors only.\<close>

lemma mutex_frame:
  "mutex_init s m = (r, m', s') \<Longrightarrow> socks s' = socks s \<and> next_fd s' = next_fd s"
  "mutex_free s m = (m', s') \<Longrightarrow> socks s' = socks s \<and> next_fd s' = next_fd s"
  by (auto simp: mutex_init_def mutex_free_def os_alloc_def os_free_def os_try_def Let_def
      split: option.splits prod.splits if_splits list.splits)

lemma conn_init_frame:
  assumes "conn_init s conn = (r, conn', s')"
  shows "socks s' = socks s \<and> next_fd s' = next_fd s"
  using assms
  by (auto simp: conn_init_def os_alloc_def os_free_def os_try_def Let_def dest!: mutex_frame(1)
      split: option.splits prod.splits if_splits list.splits)

lemma conn_free_frame:
  assumes "conn_free s conn = (conn', s')"
  shows "socks s' = (\<lambda>x. if x \<in> conn_fds conn then None else socks s x) \<and> next_fd s' = next_fd s"
proof (cases "c_priv conn")
  case None
  with assms show ?thesis
    by (simp add: conn_free_def conn_fds_def)
next
  case (Some priv)
  obtain conn1 s1 where c: "conn_close s conn = (conn1, s1)"
    by (metis surj_pair)
  obtain m s2 where m: "mutex_free s1 (cp_mutex (cpriv conn1)) = (m, s2)"
    by (metis surj_pair)
  show ?thesis
    using assms Some c m conn_close_frame(2,5) [OF Some c] mutex_frame(2) [OF m] by (auto simp: conn_free_def)
qed

lemma holds_new_free:
  assumes "holds_new s r conn s1" and "conn_free s1 conn = (conn', s')"
  shows "socks s' = socks s \<and> live s' = live s - conn_blocks conn"
proof -
  have "socks s' fd = socks s fd" for fd
    using assms(1) conn_free_frame [OF assms(2)] by (auto simp: holds_new_def)
  then show ?thesis
    using assms(1) conn_free_managed [OF assms(2)] by (auto simp: holds_new_def)
qed

lemma conn_send_ok:
  assumes "conn_up s conn k" and "\<not> sk_shut k" and "sk_tx k = []"
  shows "conn_send s conn buff =
    (0, set_sock s (cp_fd (cpriv conn)) (k\<lparr>sk_wire := sk_wire k @ buff\<rparr>))"
  using conn_send_loop_all [of s "cp_fd (cpriv conn)" k buff] assms
  by (simp add: conn_send_def conn_up_def)

section \<open>What a transfer leaves alone\<close>

lemma only_fd_refl [simp]: "only_fd fd s s"
  by (simp add: only_fd_def)

lemma only_fd_trans [trans]: "only_fd fd s s' \<Longrightarrow> only_fd fd s' s'' \<Longrightarrow> only_fd fd s s''"
  by (simp add: only_fd_def)

lemma only_fd_wf: "only_fd fd s s' \<Longrightarrow> os_wf s \<Longrightarrow> os_wf s'"
  unfolding only_fd_def os_wf_def by metis

lemma only_fd_calls:
  "os_recvfrom s fd n = (r, s') \<Longrightarrow> only_fd fd s s'"
  "os_send s fd d = (r', s') \<Longrightarrow> only_fd fd s s'"
  "os_sendto s fd d a p = (r', s') \<Longrightarrow> only_fd fd s s'"
  by (auto simp: os_recvfrom_def os_send_def os_sendto_def only_fd_def split: option.splits prod.splits)

lemma conn_recv_loop_only: "conn_recv_loop s fd n got = (r, d, s') \<Longrightarrow> only_fd fd s s'"
proof (induction s fd n got arbitrary: r d s' rule: conn_recv_loop.induct)
  case (1 s fd n got)
  obtain x s1 where x: "os_recvfrom s fd n = (x, s1)"
    by (metis surj_pair)
  note o = only_fd_calls(1) [OF x]
  show ?case
  proof (cases "\<exists>d1 a. n \<noteq> 0 \<and> x = Inr (d1, a) \<and> d1 \<noteq> []")
    case True
    then obtain d1 a where y: "n \<noteq> 0" "x = Inr (d1, a)" "d1 \<noteq> []"
      by blast
    then have "conn_recv_loop s1 fd (n - length d1) (got @ d1) = (r, d, s')"
      using 1(2) x by (subst (asm) conn_recv_loop.simps) simp
    then have "only_fd fd s1 s'"
      using 1(1) [OF y(1) x [symmetric] y(2) refl y(3)] by blast
    with o show ?thesis
      by (rule only_fd_trans)
  next
    case False
    with 1(2) x o show ?thesis
      by (subst (asm) conn_recv_loop.simps) (auto split: if_splits sum.splits prod.splits)
  qed
qed

lemma conn_send_loop_only: "conn_send_loop s fd buff n = (r, s') \<Longrightarrow> only_fd fd s s'"
proof (induction s fd buff n arbitrary: r s' rule: conn_send_loop.induct)
  case (1 s fd buff n)
  obtain x s1 where x: "os_send s fd (take n buff) = (x, s1)"
    by (metis surj_pair)
  note o = only_fd_calls(2) [OF x]
  show ?case
  proof (cases "\<exists>m. n \<noteq> 0 \<and> x = Inr m \<and> m \<noteq> 0")
    case True
    then obtain m where y: "n \<noteq> 0" "x = Inr m" "m \<noteq> 0"
      by blast
    then have "conn_send_loop s1 fd buff (n - m) = (r, s')"
      using 1(2) x by (subst (asm) conn_send_loop.simps) simp
    then have "only_fd fd s1 s'"
      using 1(1) [OF y(1) x [symmetric] y(2,3)] by blast
    with o show ?thesis
      by (rule only_fd_trans)
  next
    case False
    with 1(2) x o show ?thesis
      by (subst (asm) conn_send_loop.simps) (auto split: if_splits sum.splits prod.splits)
  qed
qed

lemma conn_send_to_loop_only: "conn_send_to_loop s fd buff n a p = (r, s') \<Longrightarrow> only_fd fd s s'"
proof (induction s fd buff n a p arbitrary: r s' rule: conn_send_to_loop.induct)
  case (1 s fd buff n a p)
  obtain x s1 where x: "os_sendto s fd (take n buff) a p = (x, s1)"
    by (metis surj_pair)
  note o = only_fd_calls(3) [OF x]
  show ?case
  proof (cases "\<exists>m. n \<noteq> 0 \<and> x = Inr m \<and> m \<noteq> 0")
    case True
    then obtain m where y: "n \<noteq> 0" "x = Inr m" "m \<noteq> 0"
      by blast
    then have "conn_send_to_loop s1 fd buff (n - m) a p = (r, s')"
      using 1(2) x by (subst (asm) conn_send_to_loop.simps) simp
    then have "only_fd fd s1 s'"
      using 1(1) [OF y(1) x [symmetric] y(2,3)] by blast
    with o show ?thesis
      by (rule only_fd_trans)
  next
    case False
    with 1(2) x o show ?thesis
      by (subst (asm) conn_send_to_loop.simps) (auto split: if_splits sum.splits prod.splits)
  qed
qed

lemma conn_transfer_only:
  "conn_recv s conn n = (r, d, s') \<Longrightarrow> only_fd (cp_fd (cpriv conn)) s s'"
  "conn_send s conn buff = (r, s') \<Longrightarrow> only_fd (cp_fd (cpriv conn)) s s'"
  "conn_send_to s conn buff a p = (r, s') \<Longrightarrow> only_fd (cp_fd (cpriv conn)) s s'"
  by (auto simp: conn_recv_def conn_send_def conn_send_to_def Let_def split: if_splits
      dest: conn_recv_loop_only conn_send_loop_only conn_send_to_loop_only)

lemma conn_recv_any_only:
  "conn_recv_any s conn n = (r, d, from, conn', s') \<Longrightarrow> only_fd (cp_fd (cpriv conn)) s s'"
  by (auto simp: conn_recv_any_def Let_def split_beta split: if_splits sum.splits prod.splits option.splits
      intro: only_fd_calls(1) [OF surjective_pairing])

lemma holds_new_transfer:
  assumes "holds_new s r conn s1" and "only_fd fd s1 s2" and "fd \<in> conn_fds conn" and "r' \<le> 0"
  shows "holds_new s r' conn s2"
  using assms only_fd_wf [OF assms(2)] by (auto simp: holds_new_def only_fd_def)

lemma os_try_keeps: "os_try s = (r, s') \<Longrightarrow> next_fd s' = next_fd s \<and> peers s' = peers s \<and> socks s' = socks s"
  by (auto simp: os_try_def split: list.splits)

lemma conn_connect_peer:
  assumes "conn_connect s conn addr port = (0, conn', s')" and "c_priv conn \<noteq> None"
  shows "c_type conn' = CONN_TYPE_TCP \<and> cp_fd (cpriv conn') = next_fd s \<and>
    cp_sock_fd (cpriv conn') = next_fd s \<and> c_priv conn' \<noteq> None \<and>
    socks s' (next_fd s) = Some (next_peer s)"
proof -
  obtain r0 s0 where 0: "os_try s = (r0, s0)" by (metis surj_pair)
  obtain r1 s1 where 1: "os_try s0 = (r1, s1)" by (metis surj_pair)
  obtain x s2 where 2: "os_socket s1 = (x, s2)" by (metis surj_pair)
  have t: "c_type conn = CONN_TYPE_TCP" "r0 = 0" "r1 = 0"
    using assms(1) 0 1 by (auto simp: conn_connect_def split: if_splits)
  then obtain fd where x: "x = Inr fd"
    using assms(1) 0 1 2 os_socket_failed [of s1 _ s2] by (cases x) (auto simp: conn_connect_def)
  then have fd: "fd = next_fd s" "socks s2 fd = Some (next_peer s)"
    using 2 os_try_keeps [OF 0] os_try_keeps [OF 1]
    by (auto simp: os_socket_def next_peer_def Let_def dest!: os_try_keeps split: prod.splits if_splits list.splits)
  obtain r3 s3 where 3: "os_fdcall s2 fd = (r3, s3)" by (metis surj_pair)
  obtain r4 s4 where 4: "os_fdcall s3 fd = (r4, s4)" by (metis surj_pair)
  obtain r5 s5 where 5: "os_fdcall s4 fd = (r5, s5)" by (metis surj_pair)
  have "socks s5 = socks s2"
    using same_fds_calls(2) [OF 3] same_fds_calls(2) [OF 4] same_fds_calls(2) [OF 5] by (simp add: same_fds_def)
  moreover have "s' = s5 \<and> conn' = with_priv conn ((cpriv conn)\<lparr>cp_sock_fd := fd, cp_fd := fd\<rparr>)"
    using assms(1) t x 0 1 2 3 4 5 by (auto simp: conn_connect_def Let_def split: if_splits)
  ultimately show ?thesis
    using fd t by simp
qed

section \<open>Transfers with a good peer\<close>

lemma conn_up_send:
  "conn_up s conn k \<Longrightarrow> conn_up (set_sock s (cp_fd (cpriv conn)) (k\<lparr>sk_wire := w\<rparr>)) conn (k\<lparr>sk_wire := w\<rparr>)"
  by (simp add: conn_up_def)

lemma conn_up_recv:
  "conn_up s conn k \<Longrightarrow> no_dgram rx \<Longrightarrow>
   conn_up (set_sock s (cp_fd (cpriv conn)) (k\<lparr>sk_rx := rx\<rparr>)) conn (k\<lparr>sk_rx := rx\<rparr>)"
  by (simp add: conn_up_def)

lemma conn_good_send:
  assumes "conn_good s conn k"
  shows "\<exists>s1. conn_send s conn d = (0, s1) \<and> conn_good s1 conn (k\<lparr>sk_wire := sk_wire k @ d\<rparr>)"
  using assms conn_send_ok [of s conn k d] conn_up_send [of s conn k] by (auto simp: conn_good_def)

lemma conn_good_recv:
  assumes "conn_good s conn k" and "sk_stream k = x @ y"
  shows "\<exists>s1 k1. conn_recv s conn (length x) = (int (length x), x, s1) \<and> conn_good s1 conn k1 \<and>
    sk_stream k1 = y \<and> sk_wire k1 = sk_wire k"
proof -
  have "conn_up s conn k" "length x \<le> length (sk_stream k)"
    using assms by (simp_all add: conn_good_def)
  from conn_recv_ok [OF this] assms(2) obtain rx where
    "conn_recv s conn (length x) = (int (length x), x, set_sock s (cp_fd (cpriv conn)) (k\<lparr>sk_rx := rx\<rparr>))"
    "sk_stream (k\<lparr>sk_rx := rx\<rparr>) = y" "no_dgram rx"
    by auto
  then show ?thesis
    using assms conn_up_recv [of s conn k rx]
    by (intro exI [of _ "set_sock s (cp_fd (cpriv conn)) (k\<lparr>sk_rx := rx\<rparr>)"] exI [of _ "k\<lparr>sk_rx := rx\<rparr>"])
       (simp add: conn_good_def)
qed

lemma conn_good_wire: "sk_stream (k\<lparr>sk_wire := w\<rparr>) = sk_stream k"
  by (simp add: sk_stream_def)

section \<open>Properties\<close>



text \<open>a send that succeeds has put as many bytes on the wire as it was given, however the
  peer's window cuts it.\<close>

lemma conn_send_counts:
  assumes "conn_up s conn k" and "conn_send s conn buff = (0, s')"
  shows "\<exists>k'. socks s' (cp_fd (cpriv conn)) = Some k' \<and>
    length (sk_wire k') = length (sk_wire k) + length buff"
  using conn_send_loop_count [of s "cp_fd (cpriv conn)" buff "length buff" s' k] assms
  by (auto simp: conn_send_def conn_up_def split: if_splits)

text \<open>C15: if the peer accepts everything, \<open>conn_send\<close> returns 0 and appends exactly the buffer
  to what the peer receives.\<close>

theorem conn_send_delivers:
  assumes "conn_up s conn k" and "\<not> sk_shut k" and "sk_tx k = []"
  shows "conn_send s conn buff =
    (0, set_sock s (cp_fd (cpriv conn)) (k\<lparr>sk_wire := sk_wire k @ buff\<rparr>))"
  using assms by (rule conn_send_ok)

theorem conn_send_delivers_witness:
  "conn_send (wit_os (wit_sock [] [])) wit_conn [7, 8, 9] =
   (0, set_sock (wit_os (wit_sock [] [])) 3 ((wit_sock [] [])\<lparr>sk_wire := [7, 8, 9]\<rparr>))"
  using conn_send_delivers [of "wit_os (wit_sock [] [])" wit_conn "wit_sock [] []" "[7, 8, 9]"]
  by (simp add: conn_up_def wit_os_def wit_conn_def wit_sock_def no_dgram_def no_peer_def)

text \<open>C16: after a partial send, \<open>conn_send\<close> starts again at the beginning of the buffer: the peer
  gets the first \<open>m\<close> bytes, then the first bytes of the buffer again, never its end, and
  the call still returns 0.\<close>

theorem conn_send_partial_repeats:
  assumes "conn_up s conn k" and "\<not> sk_shut k" and "sk_tx k = [TxAccept m]"
    and "0 < m" and "m < length buff"
  shows "conn_send s conn buff = (0, set_sock s (cp_fd (cpriv conn))
    (k\<lparr>sk_tx := [], sk_wire := sk_wire k @ take m buff @ take (length buff - m) buff\<rparr>))"
  using conn_send_loop_partial [of s "cp_fd (cpriv conn)" k m buff] assms
  by (simp add: conn_send_def conn_up_def)

theorem conn_send_partial_repeats_witness:
  "conn_send (wit_os (wit_sock [] [TxAccept 2])) wit_conn [7, 8, 9] =
   (0, set_sock (wit_os (wit_sock [] [TxAccept 2])) 3 ((wit_sock [] [])\<lparr>sk_wire := [7, 8, 7]\<rparr>))"
  using conn_send_partial_repeats [of "wit_os (wit_sock [] [TxAccept 2])" wit_conn "wit_sock [] [TxAccept 2]" 2 "[7, 8, 9]"]
  by (simp add: conn_up_def wit_os_def wit_conn_def wit_sock_def no_dgram_def no_peer_def)

text \<open>\<open>conn_port_to_str\<close> writes the decimal notation of the port and a NUL, at most the six
  characters of its result.\<close>

theorem conn_port_to_str_decimal:
  "conn_port_to_str port = dec (unat port) @ [NUL] \<and> length (conn_port_to_str port) \<le> 6"
  using length_port [of port] by (simp add: conn_port_to_str_dec)

text \<open>the text of a remote address fits the 54 characters that \<open>conn_get_remote_addr\<close> is
  given, its NUL included, if \<open>inet_ntop\<close> keeps to its documented maximum of 45 characters for an
  IPv6 address (\<open>INET6_ADDRSTRLEN\<close> is 46).\<close>

lemma conn_get_remote_addr_fits:
  assumes "\<And>a. length (ntop6 a) \<le> 45"
  shows "length (conn_get_remote_addr ntop6 conn) < 54"
proof (cases "cp_remote_addr (cpriv conn)")
  case (AF_INET a p)
  then show ?thesis
    using length_inet_ntop4 [of a] length_port [of p]
    by (simp add: conn_get_remote_addr_def cstr_port)
next
  case (AF_INET6 f a p)
  then show ?thesis
    using assms [of a] length_port [of p] by (simp add: conn_get_remote_addr_def cstr_port)
qed (simp add: conn_get_remote_addr_def)

text \<open>C17: no descriptor is lost.  On a closed handle, whatever calls fail in \<open>conn_listen\<close>,
  \<open>conn_connect\<close> or \<open>conn_accept\<close>, a following \<open>conn_close\<close> leaves exactly the descriptors open that
  were open before, and the handle closed again.\<close>

theorem conn_open_close_no_leak:
  assumes "op \<in> {conn_listen, (\<lambda>s c. conn_connect s c addr port), (\<lambda>s c. conn_accept s listener c)}"
    and "os_wf s" and "conn_closed conn"
    and "op s conn = (r, conn', s')" and "conn_close s' conn' = (conn'', s'')"
  shows "socks s'' = socks s \<and> conn_closed conn'' \<and> live s'' = live s"
  using assms(1)
proof (elim insertE emptyE)
  assume "op = conn_listen"
  then show ?thesis
    using listening.close_restores [OF assms(2,3)] assms(4,5) by blast
next
  assume "op = (\<lambda>s c. conn_connect s c addr port)"
  then show ?thesis
    using connecting.close_restores [OF assms(2,3)] assms(4,5) by blast
next
  assume "op = (\<lambda>s c. conn_accept s listener c)"
  then show ?thesis
    using accepting.close_restores [OF assms(2,3)] assms(4,5) by blast
qed

theorem conn_open_close_no_leak_witness:
  "let conn = wit_conn\<lparr>c_priv := Some ((cpriv wit_conn)\<lparr>cp_sock_fd := - 1, cp_fd := - 1\<rparr>)\<rparr>;
       s = (wit_os (wit_sock [] []))\<lparr>script := [0, 0, 0, 98]\<rparr>;
       (r, conn', s') = conn_listen s conn;
       (conn'', s'') = conn_close s' conn'
   in r = - 98 \<and> socks s' 4 \<noteq> None \<and> socks s'' = socks s"
proof -
  define conn where "conn = wit_conn\<lparr>c_priv := Some ((cpriv wit_conn)\<lparr>cp_sock_fd := - 1, cp_fd := - 1\<rparr>)\<rparr>"
  define s where "s = (wit_os (wit_sock [] []))\<lparr>script := [0, 0, 0, 98]\<rparr>"
  obtain r conn' s' where l: "conn_listen s conn = (r, conn', s')"
    by (metis prod_cases3)
  obtain conn'' s'' where c: "conn_close s' conn' = (conn'', s'')"
    by (metis surj_pair)
  have "os_wf s" "conn_closed conn"
    by (simp_all add: s_def conn_def wit_os_def wit_conn_def os_wf_def conn_closed_def)
  then have "socks s'' = socks s"
    using conn_open_close_no_leak [of conn_listen "[]" "[]" wit_conn s conn r conn' s' conn'' s''] l c
    by simp
  moreover have "r = - 98" "socks s' 4 \<noteq> None"
    using l by (auto simp: conn_listen_def s_def conn_def wit_os_def wit_conn_def os_try_def
        os_socket_def os_fdcall_def Let_def)
  ultimately show ?thesis
    using l c by (simp add: conn_def [symmetric] s_def [symmetric])
qed

text \<open>C18: replies to a datagram go back to its sender.  The address and port that
  \<open>conn_recv_any\<close> reports for a datagram, given to \<open>conn_send_to\<close>, address exactly the socket
  address that the datagram came from: the two conversions of the port between host and network
  byte order cancel.\<close>

theorem udp_reply_address:
  assumes "cp_fd (cpriv conn) \<noteq> - 1" and "socks s (cp_fd (cpriv conn)) = Some k" and "\<not> sk_shut k"
    and "sk_rx k = RxDgram (AF_INET a p) d # rx" and "d \<noteq> []" and "0 < n"
    and "conn_recv_any s conn n = (r, got, Some (addr, port), conn1, s1)"
    and "c_type out = CONN_TYPE_UDP" and "cp_fd (cpriv out) \<noteq> - 1"
    and "socks s1 (cp_fd (cpriv out)) = Some ko" and "\<not> sk_shut ko" and "sk_tx ko = []" and "buff \<noteq> []"
  shows "got = take n d \<and> r = int (length got) \<and>
    conn_send_to s1 out buff addr port =
      (0, set_sock s1 (cp_fd (cpriv out)) (ko\<lparr>sk_dgrams := sk_dgrams ko @ [(a, p, buff)]\<rparr>))"
proof -
  have "got = take n d \<and> r = int (length got) \<and> addr = a \<and> port = htons p"
    using assms(1-7) by (auto simp: conn_recv_any_def os_recvfrom_def sk_recv_def sin_of_def Let_def)
  moreover have "conn_send_to s1 out buff a (htons p) =
      (0, set_sock s1 (cp_fd (cpriv out)) (ko\<lparr>sk_dgrams := sk_dgrams ko @ [(a, p, buff)]\<rparr>))"
    using conn_send_to_loop_all [OF assms(10-13), of a p] assms(8,9) by (simp add: conn_send_to_def)
  ultimately show ?thesis
    by simp
qed

theorem udp_reply_address_witness:
  "let conn = wit_conn\<lparr>c_type := CONN_TYPE_UDP\<rparr>;
       s = wit_os (wit_sock [RxDgram (AF_INET 0x0100007f 0x5014) [1, 2, 3]] []);
       (r, got, from, conn1, s1) = conn_recv_any s conn 100
   in from = Some (0x0100007f, 0x1450) \<and>
      fst (conn_send_to s1 conn [9] 0x0100007f 0x1450) = 0"
proof -
  define conn where "conn = wit_conn\<lparr>c_type := CONN_TYPE_UDP\<rparr>"
  define k where "k = wit_sock [RxDgram (AF_INET 0x0100007f 0x5014) [1, 2, 3]] []"
  have up: "cp_fd (cpriv conn) = 3" "socks (wit_os k) 3 = Some k" "\<not> sk_shut k" "sk_tx k = []"
    "sk_rx k = [RxDgram (AF_INET 0x0100007f 0x5014) [1, 2, 3]]" "c_type conn = CONN_TYPE_UDP"
    by (simp_all add: conn_def wit_conn_def wit_os_def k_def wit_sock_def no_peer_def)
  have "htons 0x5014 = 0x1450"
    by (simp add: htons_def)
  then obtain conn1 where r: "conn_recv_any (wit_os k) conn 100 =
      (3, [1, 2, 3], Some (0x0100007f, 0x1450), conn1, set_sock (wit_os k) 3 (k\<lparr>sk_rx := []\<rparr>))"
    using up by (simp add: conn_recv_any_def os_recvfrom_def sk_recv_def sin_of_def Let_def)
  show ?thesis
    using udp_reply_address [of conn "wit_os k" k "0x0100007f" "0x5014" "[1, 2, 3]" "[]" 100 3 "[1, 2, 3]"
        "0x0100007f" "0x1450" conn1 "set_sock (wit_os k) 3 (k\<lparr>sk_rx := []\<rparr>)" conn "k\<lparr>sk_rx := []\<rparr>" "[9]"] up r
    by (simp add: conn_def [symmetric] k_def [symmetric])
qed

end
