(* ===== verification/Md5.thy ===== *)
theory Md5
  imports Prelude
begin

text \<open>
  The MD5 implementation of src/md5.c (the build without OpenSSL) and its correctness against
  RFC 1321.

  The first section translates the file: the context record, the four auxiliary functions and
  the macro STEP, the 64 unrolled steps of \<open>body\<close>, \<open>MD5_Init\<close>, \<open>MD5_Update\<close> and \<open>MD5_Final\<close>.
  SET and GET are the little-endian memory reads of the x86 branch, so the scratch array
  \<open>block\<close> of the context, which only the other branch writes, does not occur.  The second
  section is the specification: RFC 1321 as a fold of a table-driven step over the padded
  message.  The lemmas relate the two through \<open>md5_inv ctx m\<close>, which says that a context
  holds the message \<open>m\<close>; the locale \<open>hash_stream\<close> is the interface that the digest theory
  relies on.
\<close>

section \<open>The code\<close>

record md5_ctx =
  ctx_lo :: u32
  ctx_hi :: u32
  ctx_a :: u32
  ctx_b :: u32
  ctx_c :: u32
  ctx_d :: u32
  ctx_buffer :: bytes

type_synonym md5_regs = "u32 \<times> u32 \<times> u32 \<times> u32"

definition MD5_F :: "u32 \<Rightarrow> u32 \<Rightarrow> u32 \<Rightarrow> u32" where
  "MD5_F x y z = z XOR (x AND (y XOR z))"

definition MD5_G :: "u32 \<Rightarrow> u32 \<Rightarrow> u32 \<Rightarrow> u32" where
  "MD5_G x y z = y XOR (z AND (x XOR y))"

definition MD5_H :: "u32 \<Rightarrow> u32 \<Rightarrow> u32 \<Rightarrow> u32" where
  "MD5_H x y z = (x XOR y) XOR z"

definition MD5_H2 :: "u32 \<Rightarrow> u32 \<Rightarrow> u32 \<Rightarrow> u32" where
  "MD5_H2 x y z = x XOR (y XOR z)"

definition MD5_I :: "u32 \<Rightarrow> u32 \<Rightarrow> u32 \<Rightarrow> u32" where
  "MD5_I x y z = y XOR (x OR NOT z)"

definition STEP :: "(u32 \<Rightarrow> u32 \<Rightarrow> u32 \<Rightarrow> u32) \<Rightarrow> u32 \<Rightarrow> u32 \<Rightarrow> u32 \<Rightarrow> u32 \<Rightarrow>
    u32 \<Rightarrow> u32 \<Rightarrow> nat \<Rightarrow> u32" where
  "STEP f a b c d x t s =
     (let a1 = a + (f b c d + x + t);
          a2 = push_bit s a1 OR drop_bit (32 - s) (a1 AND 0xffffffff)
      in a2 + b)"

text \<open>The four ways the macro is applied: it updates its first argument and reads the other
  three in the order given.\<close>

definition STEP_a :: "(u32 \<Rightarrow> u32 \<Rightarrow> u32 \<Rightarrow> u32) \<Rightarrow> u32 \<Rightarrow> u32 \<Rightarrow> nat \<Rightarrow> md5_regs \<Rightarrow> md5_regs" where
  "STEP_a f x t s = (\<lambda>(a, b, c, d). (STEP f a b c d x t s, b, c, d))"

definition STEP_d :: "(u32 \<Rightarrow> u32 \<Rightarrow> u32 \<Rightarrow> u32) \<Rightarrow> u32 \<Rightarrow> u32 \<Rightarrow> nat \<Rightarrow> md5_regs \<Rightarrow> md5_regs" where
  "STEP_d f x t s = (\<lambda>(a, b, c, d). (a, b, c, STEP f d a b c x t s))"

definition STEP_c :: "(u32 \<Rightarrow> u32 \<Rightarrow> u32 \<Rightarrow> u32) \<Rightarrow> u32 \<Rightarrow> u32 \<Rightarrow> nat \<Rightarrow> md5_regs \<Rightarrow> md5_regs" where
  "STEP_c f x t s = (\<lambda>(a, b, c, d). (a, b, STEP f c d a b x t s, d))"

definition STEP_b :: "(u32 \<Rightarrow> u32 \<Rightarrow> u32 \<Rightarrow> u32) \<Rightarrow> u32 \<Rightarrow> u32 \<Rightarrow> nat \<Rightarrow> md5_regs \<Rightarrow> md5_regs" where
  "STEP_b f x t s = (\<lambda>(a, b, c, d). (a, STEP f b c d a x t s, c, d))"

definition SET :: "bytes \<Rightarrow> nat \<Rightarrow> u32" where
  "SET ptr n = le32_at ptr (n * 4)"

definition GET :: "bytes \<Rightarrow> nat \<Rightarrow> u32" where
  "GET ptr n = SET ptr n"

definition md5_round1 :: "bytes \<Rightarrow> (md5_regs \<Rightarrow> md5_regs) list" where
  "md5_round1 ptr = [
     STEP_a MD5_F (SET ptr 0) 0xd76aa478 7,
     STEP_d MD5_F (SET ptr 1) 0xe8c7b756 12,
     STEP_c MD5_F (SET ptr 2) 0x242070db 17,
     STEP_b MD5_F (SET ptr 3) 0xc1bdceee 22,
     STEP_a MD5_F (SET ptr 4) 0xf57c0faf 7,
     STEP_d MD5_F (SET ptr 5) 0x4787c62a 12,
     STEP_c MD5_F (SET ptr 6) 0xa8304613 17,
     STEP_b MD5_F (SET ptr 7) 0xfd469501 22,
     STEP_a MD5_F (SET ptr 8) 0x698098d8 7,
     STEP_d MD5_F (SET ptr 9) 0x8b44f7af 12,
     STEP_c MD5_F (SET ptr 10) 0xffff5bb1 17,
     STEP_b MD5_F (SET ptr 11) 0x895cd7be 22,
     STEP_a MD5_F (SET ptr 12) 0x6b901122 7,
     STEP_d MD5_F (SET ptr 13) 0xfd987193 12,
     STEP_c MD5_F (SET ptr 14) 0xa679438e 17,
     STEP_b MD5_F (SET ptr 15) 0x49b40821 22]"


definition md5_round2 :: "bytes \<Rightarrow> (md5_regs \<Rightarrow> md5_regs) list" where
  "md5_round2 ptr = [
     STEP_a MD5_G (GET ptr 1) 0xf61e2562 5,
     STEP_d MD5_G (GET ptr 6) 0xc040b340 9,
     STEP_c MD5_G (GET ptr 11) 0x265e5a51 14,
     STEP_b MD5_G (GET ptr 0) 0xe9b6c7aa 20,
     STEP_a MD5_G (GET ptr 5) 0xd62f105d 5,
     STEP_d MD5_G (GET ptr 10) 0x02441453 9,
     STEP_c MD5_G (GET ptr 15) 0xd8a1e681 14,
     STEP_b MD5_G (GET ptr 4) 0xe7d3fbc8 20,
     STEP_a MD5_G (GET ptr 9) 0x21e1cde6 5,
     STEP_d MD5_G (GET ptr 14) 0xc33707d6 9,
     STEP_c MD5_G (GET ptr 3) 0xf4d50d87 14,
     STEP_b MD5_G (GET ptr 8) 0x455a14ed 20,
     STEP_a MD5_G (GET ptr 13) 0xa9e3e905 5,
     STEP_d MD5_G (GET ptr 2) 0xfcefa3f8 9,
     STEP_c MD5_G (GET ptr 7) 0x676f02d9 14,
     STEP_b MD5_G (GET ptr 12) 0x8d2a4c8a 20]"


definition md5_round3 :: "bytes \<Rightarrow> (md5_regs \<Rightarrow> md5_regs) list" where
  "md5_round3 ptr = [
     STEP_a MD5_H (GET ptr 5) 0xfffa3942 4,
     STEP_d MD5_H2 (GET ptr 8) 0x8771f681 11,
     STEP_c MD5_H (GET ptr 11) 0x6d9d6122 16,
     STEP_b MD5_H2 (GET ptr 14) 0xfde5380c 23,
     STEP_a MD5_H (GET ptr 1) 0xa4beea44 4,
     STEP_d MD5_H2 (GET ptr 4) 0x4bdecfa9 11,
     STEP_c MD5_H (GET ptr 7) 0xf6bb4b60 16,
     STEP_b MD5_H2 (GET ptr 10) 0xbebfbc70 23,
     STEP_a MD5_H (GET ptr 13) 0x289b7ec6 4,
     STEP_d MD5_H2 (GET ptr 0) 0xeaa127fa 11,
     STEP_c MD5_H (GET ptr 3) 0xd4ef3085 16,
     STEP_b MD5_H2 (GET ptr 6) 0x04881d05 23,
     STEP_a MD5_H (GET ptr 9) 0xd9d4d039 4,
     STEP_d MD5_H2 (GET ptr 12) 0xe6db99e5 11,
     STEP_c MD5_H (GET ptr 15) 0x1fa27cf8 16,
     STEP_b MD5_H2 (GET ptr 2) 0xc4ac5665 23]"


definition md5_round4 :: "bytes \<Rightarrow> (md5_regs \<Rightarrow> md5_regs) list" where
  "md5_round4 ptr = [
     STEP_a MD5_I (GET ptr 0) 0xf4292244 6,
     STEP_d MD5_I (GET ptr 7) 0x432aff97 10,
     STEP_c MD5_I (GET ptr 14) 0xab9423a7 15,
     STEP_b MD5_I (GET ptr 5) 0xfc93a039 21,
     STEP_a MD5_I (GET ptr 12) 0x655b59c3 6,
     STEP_d MD5_I (GET ptr 3) 0x8f0ccc92 10,
     STEP_c MD5_I (GET ptr 10) 0xffeff47d 15,
     STEP_b MD5_I (GET ptr 1) 0x85845dd1 21,
     STEP_a MD5_I (GET ptr 8) 0x6fa87e4f 6,
     STEP_d MD5_I (GET ptr 15) 0xfe2ce6e0 10,
     STEP_c MD5_I (GET ptr 6) 0xa3014314 15,
     STEP_b MD5_I (GET ptr 13) 0x4e0811a1 21,
     STEP_a MD5_I (GET ptr 4) 0xf7537e82 6,
     STEP_d MD5_I (GET ptr 11) 0xbd3af235 10,
     STEP_c MD5_I (GET ptr 2) 0x2ad7d2bb 15,
     STEP_b MD5_I (GET ptr 9) 0xeb86d391 21]"

definition md5_add :: "md5_regs \<Rightarrow> md5_regs \<Rightarrow> md5_regs" where
  "md5_add = (\<lambda>(a, b, c, d) (saved_a, saved_b, saved_c, saved_d).
     (a + saved_a, b + saved_b, c + saved_c, d + saved_d))"

text \<open>One pass of the loop of \<open>body\<close> over the 64 bytes at \<open>ptr\<close>.\<close>

definition body_block :: "bytes \<Rightarrow> md5_regs \<Rightarrow> md5_regs" where
  "body_block ptr r =
     md5_add (fold (\<lambda>step. step)
       (md5_round1 ptr @ md5_round2 ptr @ md5_round3 ptr @ md5_round4 ptr) r) r"

text \<open>The loop \<open>do ... while (size -= 64)\<close>.  Every caller passes a positive multiple of 64, for
  which the subtraction on \<open>nat\<close> is the one of the code.\<close>

function body_loop :: "md5_regs \<Rightarrow> bytes \<Rightarrow> nat \<Rightarrow> md5_regs \<times> bytes" where
  "body_loop r ptr sz =
     (let r' = body_block ptr r; ptr' = drop 64 ptr; sz' = sz - 64
      in if sz' \<noteq> 0 then body_loop r' ptr' sz' else (r', ptr'))"
  by pat_completeness auto
termination
  by (relation "measure (\<lambda>(r, ptr, sz). sz)") auto

definition body :: "md5_ctx \<Rightarrow> bytes \<Rightarrow> nat \<Rightarrow> md5_ctx \<times> bytes" where
  "body ctx data sz =
     (case body_loop (ctx_a ctx, ctx_b ctx, ctx_c ctx, ctx_d ctx) data sz of
        ((a, b, c, d), ptr) \<Rightarrow>
          (ctx\<lparr>ctx_a := a, ctx_b := b, ctx_c := c, ctx_d := d\<rparr>, ptr))"

definition MD5_Init :: "md5_ctx \<Rightarrow> md5_ctx" where
  "MD5_Init ctx = ctx\<lparr>ctx_a := 0x67452301, ctx_b := 0xefcdab89,
     ctx_c := 0x98badcfe, ctx_d := 0x10325476, ctx_lo := 0, ctx_hi := 0\<rparr>"

definition MD5_Update :: "md5_ctx \<Rightarrow> bytes \<Rightarrow> md5_ctx" where
  "MD5_Update ctx data =
     (let size = length data;
          saved_lo = ctx_lo ctx;
          lo = ucast ((ucast saved_lo + of_nat size :: u64) AND 0x1fffffff);
          hi = (if lo < saved_lo then ctx_hi ctx + 1 else ctx_hi ctx);
          ctx = ctx\<lparr>ctx_lo := lo, ctx_hi := hi + ucast (drop_bit 29 (of_nat size :: u64))\<rparr>;
          used = unat (saved_lo AND 0x3f);
          available = 64 - used
      in if used \<noteq> 0 \<and> size < available
         then ctx\<lparr>ctx_buffer := memcpy_at (ctx_buffer ctx) used data\<rparr>
         else
           let (ctx, data) =
                 (if used \<noteq> 0
                  then (let ctx = ctx\<lparr>ctx_buffer :=
                                    memcpy_at (ctx_buffer ctx) used (take available data)\<rparr>
                        in (fst (body ctx (ctx_buffer ctx) 64), drop available data))
                  else (ctx, data));
               (ctx, data) =
                 (if length data \<ge> 64
                  then body ctx data (length data - length data mod 64)
                  else (ctx, data))
           in ctx\<lparr>ctx_buffer := memcpy_at (ctx_buffer ctx) 0 data\<rparr>)"

definition MD5_Final :: "md5_ctx \<Rightarrow> bytes \<times> md5_ctx" where
  "MD5_Final ctx =
     (let used = unat (ctx_lo ctx AND 0x3f);
          ctx = ctx\<lparr>ctx_buffer := (ctx_buffer ctx)[used := 0x80]\<rparr>;
          used = used + 1;
          available = 64 - used;
          (ctx, used, available) =
            (if available < 8
             then (let ctx = ctx\<lparr>ctx_buffer :=
                               memcpy_at (ctx_buffer ctx) used (replicate available 0)\<rparr>
                   in (fst (body ctx (ctx_buffer ctx) 64), 0, 64))
             else (ctx, used, available));
          buf = memcpy_at (ctx_buffer ctx) used (replicate (available - 8) 0);
          lo = push_bit 3 (ctx_lo ctx);
          buf = memcpy_at buf 56 (le32_bytes lo @ le32_bytes (ctx_hi ctx));
          ctx = fst (body (ctx\<lparr>ctx_lo := lo, ctx_buffer := buf\<rparr>) buf 64)
      in (le32_bytes (ctx_a ctx) @ le32_bytes (ctx_b ctx) @
            le32_bytes (ctx_c ctx) @ le32_bytes (ctx_d ctx),
          \<lparr>ctx_lo = 0, ctx_hi = 0, ctx_a = 0, ctx_b = 0, ctx_c = 0, ctx_d = 0,
           ctx_buffer = replicate 64 0\<rparr>))"

section \<open>RFC 1321\<close>

definition rfc_F :: "u32 \<Rightarrow> u32 \<Rightarrow> u32 \<Rightarrow> u32" where
  "rfc_F x y z = (x AND y) OR (NOT x AND z)"

definition rfc_G :: "u32 \<Rightarrow> u32 \<Rightarrow> u32 \<Rightarrow> u32" where
  "rfc_G x y z = (x AND z) OR (y AND NOT z)"

definition rfc_H :: "u32 \<Rightarrow> u32 \<Rightarrow> u32 \<Rightarrow> u32" where
  "rfc_H x y z = x XOR y XOR z"

definition rfc_I :: "u32 \<Rightarrow> u32 \<Rightarrow> u32 \<Rightarrow> u32" where
  "rfc_I x y z = y XOR (x OR NOT z)"

text \<open>The table T, entry i being the integer part of 4294967296 times abs(sin(i + 1)).\<close>

definition rfc_T :: "u32 list" where
  "rfc_T = [
   0xd76aa478, 0xe8c7b756, 0x242070db, 0xc1bdceee,
   0xf57c0faf, 0x4787c62a, 0xa8304613, 0xfd469501,
   0x698098d8, 0x8b44f7af, 0xffff5bb1, 0x895cd7be,
   0x6b901122, 0xfd987193, 0xa679438e, 0x49b40821,
   0xf61e2562, 0xc040b340, 0x265e5a51, 0xe9b6c7aa,
   0xd62f105d, 0x02441453, 0xd8a1e681, 0xe7d3fbc8,
   0x21e1cde6, 0xc33707d6, 0xf4d50d87, 0x455a14ed,
   0xa9e3e905, 0xfcefa3f8, 0x676f02d9, 0x8d2a4c8a,
   0xfffa3942, 0x8771f681, 0x6d9d6122, 0xfde5380c,
   0xa4beea44, 0x4bdecfa9, 0xf6bb4b60, 0xbebfbc70,
   0x289b7ec6, 0xeaa127fa, 0xd4ef3085, 0x04881d05,
   0xd9d4d039, 0xe6db99e5, 0x1fa27cf8, 0xc4ac5665,
   0xf4292244, 0x432aff97, 0xab9423a7, 0xfc93a039,
   0x655b59c3, 0x8f0ccc92, 0xffeff47d, 0x85845dd1,
   0x6fa87e4f, 0xfe2ce6e0, 0xa3014314, 0x4e0811a1,
   0xf7537e82, 0xbd3af235, 0x2ad7d2bb, 0xeb86d391]"

definition rfc_shift :: "nat \<Rightarrow> nat" where
  "rfc_shift i =
     (if i < 16 then [7, 12, 17, 22] else if i < 32 then [5, 9, 14, 20]
      else if i < 48 then [4, 11, 16, 23] else [6, 10, 15, 21]) ! (i mod 4)"

definition rfc_index :: "nat \<Rightarrow> nat" where
  "rfc_index i =
     (if i < 16 then i else if i < 32 then (5 * i + 1) mod 16
      else if i < 48 then (3 * i + 5) mod 16 else 7 * i mod 16)"

definition rfc_fun :: "nat \<Rightarrow> u32 \<Rightarrow> u32 \<Rightarrow> u32 \<Rightarrow> u32" where
  "rfc_fun i = (if i < 16 then rfc_F else if i < 32 then rfc_G else if i < 48 then rfc_H else rfc_I)"

text \<open>One operation [ABCD k s i] on registers that rotate by one place at each step.\<close>

definition rfc_op :: "(u32 \<Rightarrow> u32 \<Rightarrow> u32 \<Rightarrow> u32) \<Rightarrow> u32 \<Rightarrow> u32 \<Rightarrow> nat \<Rightarrow> md5_regs \<Rightarrow> md5_regs" where
  "rfc_op f x t s = (\<lambda>(a, b, c, d). (d, b + word_rotl s (a + f b c d + x + t), b, c))"

definition rfc_step :: "bytes \<Rightarrow> nat \<Rightarrow> md5_regs \<Rightarrow> md5_regs" where
  "rfc_step blk i = rfc_op (rfc_fun i) (le32_at blk (4 * rfc_index i)) (rfc_T ! i) (rfc_shift i)"

definition rfc_block :: "bytes \<Rightarrow> md5_regs \<Rightarrow> md5_regs" where
  "rfc_block blk r = md5_add (fold (rfc_step blk) [0..<64] r) r"

fun rfc_blocks :: "md5_regs \<Rightarrow> bytes \<Rightarrow> nat \<Rightarrow> md5_regs" where
  "rfc_blocks r m 0 = r"
| "rfc_blocks r m (Suc n) = rfc_blocks (rfc_block (take 64 m) r) (drop 64 m) n"

definition rfc_pad :: "bytes \<Rightarrow> bytes" where
  "rfc_pad m =
     (let bits = 8 * length m
      in m @ 0x80 # replicate ((119 - length m mod 64) mod 64) 0 @
         le32_bytes (of_nat bits) @ le32_bytes (of_nat (bits div 2 ^ 32)))"

definition rfc_init :: md5_regs where
  "rfc_init = (0x67452301, 0xefcdab89, 0x98badcfe, 0x10325476)"

definition rfc_md5 :: "bytes \<Rightarrow> bytes" where
  "rfc_md5 m =
     (case rfc_blocks rfc_init (rfc_pad m) (length (rfc_pad m) div 64) of
        (a, b, c, d) \<Rightarrow> le32_bytes a @ le32_bytes b @ le32_bytes c @ le32_bytes d)"

section \<open>Contexts that hold a message\<close>

text \<open>\<open>md5_data ctx m\<close>: the registers are the RFC registers after the whole blocks of \<open>m\<close>, and
  the buffer starts with the rest of \<open>m\<close>.  \<open>md5_inv\<close> adds the two counters: the length of \<open>m\<close>
  in \<open>lo\<close> (29 bits) and \<open>hi\<close> (32 bits), so it holds of messages of any length, with the length
  taken modulo 2^61.\<close>

definition md5_data :: "md5_ctx \<Rightarrow> bytes \<Rightarrow> bool" where
  "md5_data ctx m \<longleftrightarrow>
     (ctx_a ctx, ctx_b ctx, ctx_c ctx, ctx_d ctx) = rfc_blocks rfc_init m (length m div 64) \<and>
     length (ctx_buffer ctx) = 64 \<and>
     take (length m mod 64) (ctx_buffer ctx) = drop (64 * (length m div 64)) m"

definition md5_inv :: "md5_ctx \<Rightarrow> bytes \<Rightarrow> bool" where
  "md5_inv ctx m \<longleftrightarrow>
     md5_data ctx m \<and>
     unat (ctx_lo ctx) = length m mod 2 ^ 29 \<and>
     unat (ctx_hi ctx) = length m div 2 ^ 29 mod 2 ^ 32"

text \<open>The buffering of \<open>MD5_Update\<close>, without the counters.\<close>

definition md5_absorb :: "md5_ctx \<Rightarrow> nat \<Rightarrow> bytes \<Rightarrow> md5_ctx" where
  "md5_absorb ctx used data =
     (let available = 64 - used
      in if used \<noteq> 0 \<and> length data < available
         then ctx\<lparr>ctx_buffer := memcpy_at (ctx_buffer ctx) used data\<rparr>
         else
           let (ctx, data) =
                 (if used \<noteq> 0
                  then (let ctx = ctx\<lparr>ctx_buffer :=
                                    memcpy_at (ctx_buffer ctx) used (take available data)\<rparr>
                        in (fst (body ctx (ctx_buffer ctx) 64), drop available data))
                  else (ctx, data));
               (ctx, data) =
                 (if length data \<ge> 64
                  then body ctx data (length data - length data mod 64)
                  else (ctx, data))
           in ctx\<lparr>ctx_buffer := memcpy_at (ctx_buffer ctx) 0 data\<rparr>)"

definition md5_result :: "md5_ctx \<Rightarrow> bytes" where
  "md5_result ctx =
     le32_bytes (ctx_a ctx) @ le32_bytes (ctx_b ctx) @ le32_bytes (ctx_c ctx) @ le32_bytes (ctx_d ctx)"

section \<open>The 64 steps\<close>

lemma MD5_F_rfc: "MD5_F = rfc_F"
  by (intro ext bit_word_eqI) (auto simp: MD5_F_def rfc_F_def bit_simps)

lemma MD5_G_rfc: "MD5_G = rfc_G"
  by (intro ext bit_word_eqI) (auto simp: MD5_G_def rfc_G_def bit_simps)

lemma MD5_H_rfc: "MD5_H = rfc_H" and MD5_H2_rfc: "MD5_H2 = rfc_H"
  by (intro ext; simp add: MD5_H_def MD5_H2_def rfc_H_def xor.assoc)+

lemma MD5_I_rfc: "MD5_I = rfc_I"
  by (intro ext) (simp add: MD5_I_def rfc_I_def)

lemmas MD5_funs_rfc = MD5_F_rfc MD5_G_rfc MD5_H_rfc MD5_H2_rfc MD5_I_rfc

lemma shift_pair_rotl:
  fixes x :: u32
  assumes "0 < s" and "s < 32"
  shows "push_bit s x OR drop_bit (32 - s) (x AND 0xffffffff) = word_rotl s x"
proof -
  have m1: "(- 1 :: u32) = 0xffffffff"
    by simp
  have full: "x AND 0xffffffff = x"
    using and.right_neutral [of x] unfolding m1 .
  show ?thesis
    unfolding full
  proof (rule bit_word_eqI)
    fix n :: nat
    assume n: "n < LENGTH(32)"
    show "bit (push_bit s x OR drop_bit (32 - s) x) n = bit (word_rotl s x) n"
    proof (cases "n < s")
      case True
      with assms n have "(n + (32 - s)) mod 32 = 32 - s + n"
        by simp
      with True assms n show ?thesis
        by (simp add: bit_or_iff bit_push_bit_iff bit_drop_bit_eq bit_word_rotl_iff)
    next
      case False
      with assms n have "n + (32 - s) = (n - s) + 32"
        by simp
      then have "(n + (32 - s)) mod 32 = (n - s) mod 32"
        by (simp only: mod_add_self2)
      also have "\<dots> = n - s"
        using n by simp
      finally have idx: "(n + (32 - s)) mod 32 = n - s" .
      have "32 \<le> 32 - s + n"
        using False assms by simp
      then have "\<not> bit x (32 - s + n)"
        by (auto dest: bit_imp_le_length)
      with False assms n idx show ?thesis
        by (simp add: bit_or_iff bit_push_bit_iff bit_drop_bit_eq bit_word_rotl_iff)
    qed
  qed
qed

lemma STEP_rotl:
  assumes "0 < s" and "s < 32"
  shows "STEP f a b c d x t s = b + word_rotl s (a + f b c d + x + t)"
  unfolding STEP_def Let_def shift_pair_rotl [OF assms]
  by (simp add: ac_simps)

lemma four_STEPs:
  assumes "0 < s1" "s1 < 32" "0 < s2" "s2 < 32" "0 < s3" "s3 < 32" "0 < s4" "s4 < 32"
  shows "STEP_b f4 x4 t4 s4 (STEP_c f3 x3 t3 s3 (STEP_d f2 x2 t2 s2 (STEP_a f1 x1 t1 s1 r))) =
    rfc_op f4 x4 t4 s4 (rfc_op f3 x3 t3 s3 (rfc_op f2 x2 t2 s2 (rfc_op f1 x1 t1 s1 r)))"
  using assms
  by (cases r) (simp add: STEP_a_def STEP_b_def STEP_c_def STEP_d_def rfc_op_def STEP_rotl)

lemma upt_64: "[0..<64] = [0..<16] @ [16..<32] @ [32..<48] @ [48..<(64::nat)]"
  by (simp add: upt_rec)

lemma le32_at_take: "i + 3 < n \<Longrightarrow> le32_at (take n bs) i = le32_at bs i"
  by (simp add: le32_at_def)

lemmas round_rfc_simps =
  upt_rec four_STEPs rfc_step_def rfc_fun_def rfc_index_def rfc_T_def rfc_shift_def
  SET_def GET_def MD5_funs_rfc le32_at_take

lemma round1_rfc: "fold (\<lambda>step. step) (md5_round1 ptr) r = fold (rfc_step (take 64 ptr)) [0..<16] r"
  by (simp add: md5_round1_def round_rfc_simps)

lemma round2_rfc: "fold (\<lambda>step. step) (md5_round2 ptr) r = fold (rfc_step (take 64 ptr)) [16..<32] r"
  by (simp add: md5_round2_def round_rfc_simps)

lemma round3_rfc: "fold (\<lambda>step. step) (md5_round3 ptr) r = fold (rfc_step (take 64 ptr)) [32..<48] r"
  by (simp add: md5_round3_def round_rfc_simps)

lemma round4_rfc: "fold (\<lambda>step. step) (md5_round4 ptr) r = fold (rfc_step (take 64 ptr)) [48..<64] r"
  by (simp add: md5_round4_def round_rfc_simps)

lemma body_block_rfc: "body_block ptr r = rfc_block (take 64 ptr) r"
  unfolding body_block_def rfc_block_def upt_64
  by (simp only: fold_append comp_apply round1_rfc round2_rfc round3_rfc round4_rfc)

section \<open>Blocks, counters and padding\<close>

declare body_loop.simps [simp del]

lemma rfc_blocks_append:
  "64 * n \<le> length m \<Longrightarrow> rfc_blocks r (m @ x) n = rfc_blocks r m n"
  by (induction n arbitrary: r m) auto

lemma rfc_blocks_add:
  "rfc_blocks r m (j + k) = rfc_blocks (rfc_blocks r m j) (drop (64 * j) m) k"
  by (induction j arbitrary: r m) (auto simp: add.commute)

lemma rfc_blocks_extend:
  assumes "length m = 64 * j"
  shows "rfc_blocks r (m @ x) (j + k) = rfc_blocks (rfc_blocks r m j) x k"
  using assms by (simp add: rfc_blocks_add rfc_blocks_append)

lemma body_loop_rfc:
  "body_loop r ptr (64 * Suc n) = (rfc_blocks r ptr (Suc n), drop (64 * Suc n) ptr)"
proof (induction n arbitrary: r ptr)
  case 0
  show ?case
    by (subst body_loop.simps) (simp add: body_block_rfc)
next
  case (Suc n)
  have "64 * Suc (Suc n) - 64 = 64 * Suc n"
    by simp
  then show ?case
    using Suc [of "body_block ptr r" "drop 64 ptr"]
    by (subst body_loop.simps) (simp add: body_block_rfc Let_def add.commute)
qed

lemma body_fields [simp]:
  "ctx_buffer (fst (body ctx d n)) = ctx_buffer ctx"
  "ctx_lo (fst (body ctx d n)) = ctx_lo ctx"
  "ctx_hi (fst (body ctx d n)) = ctx_hi ctx"
  by (simp_all add: body_def split: prod.splits)

lemma body_regs:
  assumes "n = 64 * Suc k"
  shows "(ctx_a (fst (body ctx d n)), ctx_b (fst (body ctx d n)),
          ctx_c (fst (body ctx d n)), ctx_d (fst (body ctx d n))) =
         rfc_blocks (ctx_a ctx, ctx_b ctx, ctx_c ctx, ctx_d ctx) d (Suc k)"
  unfolding assms body_def body_loop_rfc by (simp split: prod.splits del: rfc_blocks.simps)

lemma body_ptr:
  assumes "n = 64 * Suc k"
  shows "snd (body ctx d n) = drop n d"
  unfolding assms body_def body_loop_rfc by (simp split: prod.splits del: rfc_blocks.simps)

text \<open>Data that does not fill the buffer is only stored.\<close>

lemma md5_data_store:
  assumes "md5_data ctx m" and "length m mod 64 + length x < 64"
  shows "md5_data (ctx\<lparr>ctx_buffer := memcpy_at (ctx_buffer ctx) (length m mod 64) x\<rparr>) (m @ x)"
proof -
  note qr = div_mod_add_small [OF assms(2)]
  show ?thesis
    using assms by (simp add: md5_data_def qr rfc_blocks_append)
qed

text \<open>Data that fills the buffer exactly is hashed with it.\<close>

lemma md5_data_fill:
  assumes "md5_data ctx m" and x: "length m mod 64 + length x = 64"
    and buf: "buf = memcpy_at (ctx_buffer ctx) (length m mod 64) x"
  shows "md5_data (fst (body (ctx\<lparr>ctx_buffer := buf\<rparr>) buf 64)) (m @ x)"
proof -
  let ?j = "length m div 64"
  have len: "length m + length x = 64 * Suc ?j"
    using x by (rule div_mod_add_full)
  have regs: "(ctx_a ctx, ctx_b ctx, ctx_c ctx, ctx_d ctx) = rfc_blocks rfc_init m ?j"
    and buf': "buf = drop (64 * ?j) m @ x"
    using assms by (auto simp: md5_data_def memcpy_at_full)
  have lbuf: "length buf = 64"
    using assms by (simp add: md5_data_def)
  let ?c = "fst (body (ctx\<lparr>ctx_buffer := buf\<rparr>) buf 64)"
  have "(ctx_a ?c, ctx_b ?c, ctx_c ?c, ctx_d ?c) = rfc_blocks (rfc_blocks rfc_init m ?j) buf 1"
    using body_regs [of 64 0 "ctx\<lparr>ctx_buffer := buf\<rparr>" buf] by (simp add: regs)
  also have "\<dots> = rfc_blocks rfc_init (m @ x) (?j + 1)"
    unfolding rfc_blocks_add by (simp add: rfc_blocks_append buf')
  finally show ?thesis
    using lbuf len by (simp add: md5_data_def)
qed

text \<open>Whole blocks after a whole number of blocks are hashed in place.\<close>

lemma md5_data_blocks:
  assumes "md5_data ctx m" and m: "length m mod 64 = 0"
    and x: "length x = n" "n = 64 * Suc k"
  shows "md5_data (fst (body ctx (x @ y) n)) (m @ x)"
proof -
  let ?j = "length m div 64"
  have lm: "length m = 64 * ?j"
    using m by (metis add.right_neutral mult_div_mod_eq)
  then have len: "length m + length x = 64 * (?j + Suc k)"
    using x by simp
  have regs: "(ctx_a ctx, ctx_b ctx, ctx_c ctx, ctx_d ctx) = rfc_blocks rfc_init m ?j"
    and lbuf: "length (ctx_buffer ctx) = 64"
    using assms(1) by (auto simp: md5_data_def)
  let ?c = "fst (body ctx (x @ y) n)"
  have "(ctx_a ?c, ctx_b ?c, ctx_c ?c, ctx_d ?c) =
      rfc_blocks (rfc_blocks rfc_init m ?j) (x @ y) (Suc k)"
    unfolding body_regs [OF x(2)] regs ..
  also have "\<dots> = rfc_blocks (rfc_blocks rfc_init m ?j) x (Suc k)"
    by (rule rfc_blocks_append) (simp add: x)
  also have "\<dots> = rfc_blocks rfc_init (m @ x) (?j + Suc k)"
    by (rule rfc_blocks_extend [OF lm, symmetric])
  finally show ?thesis
    using lbuf len by (simp add: md5_data_def del: rfc_blocks.simps)
qed

lemma count_lo:
  assumes "unat lo = L mod 2 ^ 29"
  shows "unat (ucast ((ucast lo + of_nat n :: u64) AND 0x1fffffff) :: u32) = (L + n) mod 2 ^ 29"
proof -
  have mask: "(0x1fffffff :: u64) = mask 29"
    by (simp add: mask_eq_exp_minus_1)
  have "unat (ucast lo + of_nat n :: u64) = (unat lo + n) mod 2 ^ 64"
    by (simp add: unat_word_ariths unat_of_nat unsigned_ucast_eq take_bit_eq_mod mod_simps)
  then have "unat ((ucast lo + of_nat n :: u64) AND 0x1fffffff) = (unat lo + n) mod 2 ^ 29"
    unfolding mask
    by (simp only: take_bit_eq_mask [symmetric] unsigned_take_bit_eq)
       (simp add: take_bit_eq_mod mod_mod_cancel)
  also have "\<dots> = (L + n) mod 2 ^ 29"
    unfolding assms by (simp add: mod_simps)
  finally have *: "unat ((ucast lo + of_nat n :: u64) AND 0x1fffffff) = (L + n) mod 2 ^ 29" .
  have "(L + n) mod 2 ^ 29 < 2 ^ 32"
    by (rule less_trans [of _ "2 ^ 29"]) simp_all
  then show ?thesis
    unfolding unsigned_ucast_eq * by (simp add: take_bit_eq_mod)
qed

lemma count_hi:
  assumes lo: "unat lo = L mod 2 ^ 29" and hi: "unat hi = L div 2 ^ 29 mod 2 ^ 32"
    and lo': "unat lo' = (L + n) mod 2 ^ 29"
  shows "unat ((if lo' < lo then hi + 1 else hi) + ucast (drop_bit 29 (of_nat n :: u64)) :: u32) =
    (L + n) div 2 ^ 29 mod 2 ^ 32"
proof -
  have "unat (ucast (drop_bit 29 (of_nat n :: u64)) :: u32) =
      take_bit 32 (drop_bit 29 (take_bit 64 n))"
    by (simp only: unsigned_ucast_eq unsigned_drop_bit_eq unsigned_of_nat) simp
  then have d: "unat (ucast (drop_bit 29 (of_nat n :: u64)) :: u32) = n div 2 ^ 29 mod 2 ^ 32"
    by (simp only: drop_bit_take_bit take_bit_take_bit) (simp add: take_bit_eq_mod drop_bit_eq_div)
  have "lo' < lo \<longleftrightarrow> (L + n) mod 2 ^ 29 < L mod 2 ^ 29"
    by (simp add: word_less_nat_alt lo lo')
  then have "(L + n) div 2 ^ 29 mod 2 ^ 32 =
      ((L div 2 ^ 29 + (if lo' < lo then 1 else 0)) mod 2 ^ 32 + n div 2 ^ 29) mod 2 ^ 32"
    using carry_nat [of "2 ^ 29" L n] by (simp add: mod_add_left_eq)
  moreover have "unat (if lo' < lo then hi + 1 else hi) =
      (L div 2 ^ 29 + (if lo' < lo then 1 else 0)) mod 2 ^ 32"
    by (simp add: unat_word_ariths hi mod_Suc_eq)
  ultimately show ?thesis
    by (simp add: unat_word_ariths d mod_add_right_eq)
qed

lemma MD5_Update_absorb:
  "MD5_Update ctx data =
     (let lo = ucast ((ucast (ctx_lo ctx) + of_nat (length data) :: u64) AND 0x1fffffff)
      in md5_absorb
           (ctx\<lparr>ctx_lo := lo,
                ctx_hi := (if lo < ctx_lo ctx then ctx_hi ctx + 1 else ctx_hi ctx) +
                  ucast (drop_bit 29 (of_nat (length data) :: u64))\<rparr>)
           (unat (ctx_lo ctx AND 0x3f)) data)"
  by (simp only: MD5_Update_def md5_absorb_def Let_def)

lemma md5_absorb_counts [simp]:
  "ctx_lo (md5_absorb ctx u d) = ctx_lo ctx" "ctx_hi (md5_absorb ctx u d) = ctx_hi ctx"
  by (simp_all add: md5_absorb_def Let_def split_beta)

lemma md5_absorb_aligned:
  assumes "md5_data ctx m" and "length m mod 64 = 0"
  shows "md5_data (md5_absorb ctx 0 data) (m @ data)"
proof (cases "length data < 64")
  case True
  then show ?thesis
    using md5_data_store [OF assms(1), of data] assms(2) by (simp add: md5_absorb_def)
next
  case False
  define n where "n = length data - length data mod 64"
  define k where "k = length data div 64 - 1"
  have n: "n = 64 * Suc k"
    using False by (simp add: n_def k_def minus_mod_eq_mult_div Suc_diff_Suc)
  have le: "n \<le> length data" and rest: "length (drop n data) < 64"
    by (simp_all add: n_def)
  have len: "length (take n data) = n"
    using le by simp
  have 1: "md5_data (fst (body ctx data n)) (m @ take n data)"
    using md5_data_blocks [OF assms len n, of "drop n data"] by simp
  have aligned: "length (m @ take n data) mod 64 = 0"
    using assms(2) len n by (simp add: mod_add_eq [symmetric])
  have "md5_data ((fst (body ctx data n))\<lparr>ctx_buffer :=
      memcpy_at (ctx_buffer (fst (body ctx data n))) 0 (drop n data)\<rparr>) (m @ data)"
    using md5_data_store [OF 1, of "drop n data"] rest
    unfolding aligned by simp
  then show ?thesis
    using False body_ptr [OF n, of ctx data]
    by (simp add: md5_absorb_def n_def [symmetric] split_beta)
qed

lemma md5_absorb_data:
  assumes "md5_data ctx m" and u: "u = length m mod 64"
  shows "md5_data (md5_absorb ctx u data) (m @ data)"
proof (cases "u = 0 \<or> u + length data < 64")
  case True
  then consider "u = 0" | "u \<noteq> 0" "u + length data < 64"
    by blast
  then show ?thesis
  proof cases
    case 1
    then show ?thesis
      using md5_absorb_aligned [OF assms(1)] u by simp
  next
    case 2
    then have "length data < 64 - u"
      by simp
    with 2 show ?thesis
      using md5_data_store [OF assms(1), of data] u by (simp add: md5_absorb_def Let_def)
  qed
next
  case False
  let ?x = "take (64 - u) data"
  let ?buf = "memcpy_at (ctx_buffer ctx) u ?x"
  let ?c = "fst (body (ctx\<lparr>ctx_buffer := ?buf\<rparr>) ?buf 64)"
  have u64: "u < 64"
    by (simp add: u)
  have le: "64 - u \<le> length data"
    using False by arith
  then have "length ?x = 64 - u"
    by simp
  then have len: "length m mod 64 + length ?x = 64"
    using u64 by (simp only: u)
  have 1: "md5_data ?c (m @ ?x)"
    by (rule md5_data_fill [OF assms(1) len]) (simp add: u)
  have "length (m @ ?x) = 64 * Suc (length m div 64)"
    using div_mod_add_full [OF len] by simp
  then have "md5_data (md5_absorb ?c 0 (drop (64 - u) data)) ((m @ ?x) @ drop (64 - u) data)"
    by (intro md5_absorb_aligned [OF 1]) (simp only: mod_mult_self1_is_0)
  moreover have "md5_absorb ctx u data = md5_absorb ?c 0 (drop (64 - u) data)"
    using False le by (simp add: md5_absorb_def Let_def not_less [symmetric])
  ultimately show ?thesis
    by simp
qed

lemma md5_inv_Update:
  assumes "md5_inv ctx m"
  shows "md5_inv (MD5_Update ctx data) (m @ data)"
proof -
  from assms have d: "md5_data ctx m" and lo: "unat (ctx_lo ctx) = length m mod 2 ^ 29"
    and hi: "unat (ctx_hi ctx) = length m div 2 ^ 29 mod 2 ^ 32"
    by (auto simp: md5_inv_def)
  have u: "unat (ctx_lo ctx AND 0x3f) = length m mod 64"
    unfolding unat_and_63 lo by (simp add: mod_mod_cancel)
  have "md5_data (MD5_Update ctx data) (m @ data)"
    unfolding MD5_Update_absorb Let_def
    by (rule md5_absorb_data) (use d u in \<open>simp_all add: md5_data_def\<close>)
  then show ?thesis
    using count_lo [OF lo, of "length data"] count_hi [OF lo hi count_lo [OF lo], of "length data"]
    by (simp add: md5_inv_def MD5_Update_absorb Let_def)
qed

lemma md5_inv_Init:
  assumes "length (ctx_buffer ctx) = 64"
  shows "md5_inv (MD5_Init ctx) []"
  using assms by (simp add: md5_inv_def md5_data_def MD5_Init_def rfc_init_def)

lemma md5_data_lo [simp]: "md5_data (ctx\<lparr>ctx_lo := x\<rparr>) m = md5_data ctx m"
  by (simp add: md5_data_def)

lemma length_field:
  assumes lo: "unat lo = L mod 2 ^ 29" and hi: "unat hi = L div 2 ^ 29 mod 2 ^ 32"
  shows "push_bit 3 lo = (of_nat (8 * L) :: u32)" and "hi = (of_nat (8 * L div 2 ^ 32) :: u32)"
proof -
  have "unat (push_bit 3 lo) = 8 * (L mod 2 ^ 29) mod 2 ^ 32"
    by (simp only: unsigned_push_bit_eq lo) (simp add: take_bit_eq_mod push_bit_eq_mult mult.commute)
  also have "\<dots> = 8 * L mod 2 ^ 32"
    using mult_mod_right [of 8 L "2 ^ 29"] by simp
  also have "\<dots> = unat (of_nat (8 * L) :: u32)"
    by (simp only: unat_of_nat) simp
  finally show "push_bit 3 lo = of_nat (8 * L)"
    by (simp only: word_unat_eq_iff)
  have "8 * L div 2 ^ 32 = L div 2 ^ 29"
    using div_mult_mult1 [of 8 L "2 ^ 29"] by simp
  then show "hi = of_nat (8 * L div 2 ^ 32)"
    by (simp add: word_unat_eq_iff unat_of_nat take_bit_eq_mod hi)
qed

lemma md5_result_pad: "md5_data ctx (rfc_pad m) \<Longrightarrow> md5_result ctx = rfc_md5 m"
  by (auto simp: md5_data_def md5_result_def rfc_md5_def split: prod.splits)

lemma MD5_Final_short:
  assumes u: "u = unat (ctx_lo ctx AND 0x3f)" "u < 56" and len: "length (ctx_buffer ctx) = 64"
    and x: "x = 0x80 # replicate (55 - u) 0 @
      le32_bytes (push_bit 3 (ctx_lo ctx)) @ le32_bytes (ctx_hi ctx)"
    and buf: "buf = memcpy_at (ctx_buffer ctx) u x"
  shows "fst (MD5_Final ctx) =
    md5_result (fst (body (ctx\<lparr>ctx_lo := push_bit 3 (ctx_lo ctx), ctx_buffer := buf\<rparr>) buf 64))"
proof -
  have av: "\<not> 64 - (u + 1) < 8" and n: "64 - (u + 1) - 8 = 55 - u"
    using u by simp_all
  have "memcpy_at (memcpy_at ((ctx_buffer ctx)[u := 0x80]) (u + 1) (replicate (55 - u) 0)) 56
      (le32_bytes (push_bit 3 (ctx_lo ctx)) @ le32_bytes (ctx_hi ctx)) = buf"
    using u(2) len by (simp add: list_update_memcpy_at memcpy_at_memcpy_at buf x)
  then show ?thesis
    unfolding MD5_Final_def Let_def u(1) [symmetric] md5_result_def
    using av n by simp
qed

lemma MD5_Final_long:
  assumes u: "u = unat (ctx_lo ctx AND 0x3f)" "56 \<le> u" "u < 64"
    and len: "length (ctx_buffer ctx) = 64"
    and buf1: "buf1 = memcpy_at (ctx_buffer ctx) u (0x80 # replicate (63 - u) 0)"
    and c1: "c1 = fst (body (ctx\<lparr>ctx_buffer := buf1\<rparr>) buf1 64)"
    and x: "x = replicate 56 0 @ le32_bytes (push_bit 3 (ctx_lo ctx)) @ le32_bytes (ctx_hi ctx)"
    and buf: "buf = memcpy_at (ctx_buffer c1) 0 x"
  shows "fst (MD5_Final ctx) =
    md5_result (fst (body (c1\<lparr>ctx_lo := push_bit 3 (ctx_lo ctx), ctx_buffer := buf\<rparr>) buf 64))"
proof -
  have av: "64 - (u + 1) < 8" and n: "64 - (u + 1) = 63 - u"
    using u by simp_all
  have b1: "memcpy_at ((ctx_buffer ctx)[u := 0x80]) (u + 1) (replicate (63 - u) 0) = buf1"
    using u(2,3) len by (simp add: list_update_memcpy_at memcpy_at_memcpy_at buf1)
  have c1': "ctx_lo c1 = ctx_lo ctx" "ctx_hi c1 = ctx_hi ctx" "ctx_buffer c1 = buf1"
    and "length buf1 = 64"
    using u(3) len by (simp_all add: c1 buf1)
  then have "memcpy_at (memcpy_at buf1 0 (replicate 56 0)) 56
      (le32_bytes (push_bit 3 (ctx_lo ctx)) @ le32_bytes (ctx_hi ctx)) = buf"
    by (simp add: memcpy_at_memcpy_at buf x)
  then show ?thesis
    unfolding MD5_Final_def Let_def u(1) [symmetric] md5_result_def
    using av n b1 c1' by (simp add: c1 [symmetric])
qed

lemma md5_inv_Final:
  assumes "md5_inv ctx m"
  shows "fst (MD5_Final ctx) = rfc_md5 m"
proof -
  from assms have d: "md5_data ctx m" and lo: "unat (ctx_lo ctx) = length m mod 2 ^ 29"
    and hi: "unat (ctx_hi ctx) = length m div 2 ^ 29 mod 2 ^ 32"
    and buf: "length (ctx_buffer ctx) = 64"
    by (auto simp: md5_inv_def md5_data_def)
  define u where "u = length m mod 64"
  have u: "u = unat (ctx_lo ctx AND 0x3f)"
    unfolding unat_and_63 lo u_def by (simp add: mod_mod_cancel)
  define len8 where "len8 = le32_bytes (push_bit 3 (ctx_lo ctx)) @ le32_bytes (ctx_hi ctx)"
  have len8: "len8 = le32_bytes (of_nat (8 * length m)) @ le32_bytes (of_nat (8 * length m div 2 ^ 32))"
    unfolding len8_def length_field(1) [OF lo hi] length_field(2) [OF lo hi, symmetric] ..
  have pad: "rfc_pad m = m @ 0x80 # replicate ((119 - u) mod 64) 0 @ len8"
    by (simp only: rfc_pad_def Let_def len8 u_def)
  show ?thesis
  proof (cases "u < 56")
    case True
    define x where "x = 0x80 # replicate (55 - u) 0 @ len8"
    have "(119 - u) mod 64 = 55 - u"
      using True by (simp add: mod_if)
    then have "md5_data (fst (body (ctx\<lparr>ctx_lo := push_bit 3 (ctx_lo ctx),
        ctx_buffer := memcpy_at (ctx_buffer ctx) u x\<rparr>) (memcpy_at (ctx_buffer ctx) u x) 64)) (rfc_pad m)"
      using md5_data_fill [of "ctx\<lparr>ctx_lo := push_bit 3 (ctx_lo ctx)\<rparr>" m x] d True
      by (simp add: pad x_def u_def [symmetric] len8)
    then show ?thesis
      using MD5_Final_short [OF u True buf x_def [unfolded len8_def] refl] md5_result_pad by metis
  next
    case False
    define x1 :: bytes where "x1 = 0x80 # replicate (63 - u) 0"
    define buf1 where "buf1 = memcpy_at (ctx_buffer ctx) u x1"
    define c1 where "c1 = fst (body (ctx\<lparr>ctx_buffer := buf1\<rparr>) buf1 64)"
    define x where "x = replicate 56 0 @ len8"
    have u64: "56 \<le> u" "u < 64"
      using False by (simp_all add: u_def)
    have len1: "length m mod 64 + length x1 = 64"
      using u64 by (simp add: x1_def u_def [symmetric])
    have d1: "md5_data c1 (m @ x1)"
      unfolding c1_def by (rule md5_data_fill [OF d len1]) (simp add: buf1_def u_def)
    have al: "length (m @ x1) mod 64 = 0"
      using div_mod_add_full [OF len1] by (simp only: length_append mod_mult_self1_is_0)
    have "(119 - u) mod 64 = 63 - u + 56"
      using u64 by simp
    then have "rfc_pad m = (m @ x1) @ x"
      by (simp only: pad x1_def x_def replicate_add) simp
    moreover have "md5_data (fst (body (c1\<lparr>ctx_lo := push_bit 3 (ctx_lo ctx),
        ctx_buffer := memcpy_at (ctx_buffer c1) 0 x\<rparr>) (memcpy_at (ctx_buffer c1) 0 x) 64)) ((m @ x1) @ x)"
      using md5_data_fill [of "c1\<lparr>ctx_lo := push_bit 3 (ctx_lo ctx)\<rparr>" "m @ x1" x] d1 al
      by (simp add: x_def len8)
    ultimately show ?thesis
      using MD5_Final_long [OF u u64 buf buf1_def [unfolded x1_def] c1_def x_def [unfolded len8_def] refl]
        md5_result_pad by metis
  qed
qed

section \<open>The interface of a streaming hash\<close>

text \<open>What a client of a streaming hash function relies on: \<open>holds c m\<close> says that the context
  \<open>c\<close> has absorbed the message \<open>m\<close>, \<open>init\<close> empties any well-formed context, \<open>update\<close> appends
  and \<open>final\<close> delivers the hash of what was absorbed.\<close>

locale hash_stream =
  fixes init :: "'c \<Rightarrow> 'c"
    and update :: "'c \<Rightarrow> bytes \<Rightarrow> 'c"
    and final :: "'c \<Rightarrow> bytes \<times> 'c"
    and hash :: "bytes \<Rightarrow> bytes"
    and fresh :: "'c \<Rightarrow> bool"
    and holds :: "'c \<Rightarrow> bytes \<Rightarrow> bool"
  assumes holds_init: "fresh c \<Longrightarrow> holds (init c) []"
    and holds_update: "holds c m \<Longrightarrow> holds (update c d) (m @ d)"
    and final_hash: "holds c m \<Longrightarrow> fst (final c) = hash m"
    and final_fresh: "holds c m \<Longrightarrow> fresh (snd (final c))"
begin

lemma holds_chunks: "holds c m \<Longrightarrow> holds (fold (\<lambda>d c. update c d) ds c) (m @ concat ds)"
proof (induction ds arbitrary: c m)
  case (Cons d ds)
  then show ?case
    using Cons.IH [OF holds_update [OF Cons.prems, of d]] by simp
qed simp

lemma final_chunks:
  "fresh c \<Longrightarrow> fst (final (fold (\<lambda>d c. update c d) ds (init c))) = hash (concat ds)"
  using holds_chunks [OF holds_init] final_hash by fastforce

lemma fresh_chunks:
  "fresh c \<Longrightarrow> fresh (snd (final (fold (\<lambda>d c. update c d) ds (init c))))"
  using holds_chunks [OF holds_init] final_fresh by blast

lemma one_shot: "fresh c \<Longrightarrow> fst (final (update (init c) d)) = hash d"
  using final_chunks [of c "[d]"] by simp

end

lemma length_MD5_Final_buffer: "length (ctx_buffer (snd (MD5_Final ctx))) = 64"
  by (simp add: MD5_Final_def Let_def)

interpretation md5: hash_stream MD5_Init MD5_Update MD5_Final rfc_md5
  "\<lambda>ctx. length (ctx_buffer ctx) = 64" md5_inv
  by unfold_locales
     (simp_all add: md5_inv_Init md5_inv_Update md5_inv_Final length_MD5_Final_buffer)

section \<open>Properties\<close>

text \<open>C5: the MD5 of md5.c is the MD5 of RFC 1321.  Whatever a context held before (its buffer
  has its 64 bytes), after \<open>MD5_Init\<close> and any sequence of \<open>MD5_Update\<close> calls \<open>MD5_Final\<close>
  writes the RFC 1321 digest of the concatenated data, for data of any length: the 29-bit and
  32-bit counters, their carry, the partial-block buffering, the unrolled rounds and the padding
  agree with the specification.\<close>

theorem MD5_rfc1321:
  "length (ctx_buffer ctx) = 64 \<Longrightarrow>
   fst (MD5_Final (fold (\<lambda>d c. MD5_Update c d) chunks (MD5_Init ctx))) = rfc_md5 (concat chunks)"
  by (rule md5.final_chunks)

theorem MD5_rfc1321_witness:
  "fst (MD5_Final (fold (\<lambda>d c. MD5_Update c d) [replicate 60 0x61, replicate 70 0x62]
      (MD5_Init \<lparr>ctx_lo = 7, ctx_hi = 8, ctx_a = 0, ctx_b = 0, ctx_c = 0, ctx_d = 0,
         ctx_buffer = replicate 64 0xff\<rparr>))) =
   rfc_md5 (replicate 60 0x61 @ replicate 70 0x62)"
  using MD5_rfc1321 [of "\<lparr>ctx_lo = 7, ctx_hi = 8, ctx_a = 0, ctx_b = 0, ctx_c = 0, ctx_d = 0,
      ctx_buffer = replicate 64 0xff\<rparr>" "[replicate 60 0x61, replicate 70 0x62]"] by simp

end
