(* ===== verification/Digest.thy ===== *)
theory Digest
  imports Md5
begin

text \<open>
  src/digest.c: the one-shot digest and the base-16 conversions that the login handshake uses.

  The conversions work on \<open>char\<close>, which is signed on the platform, so the comparisons of
  \<open>hex4_to_digest\<close> are on \<open>schar\<close>.  The reference for the decoder is \<open>hex_number\<close>, the number
  that a string of base-16 digits denotes.
\<close>

section \<open>The code\<close>

abbreviation (input) DIGEST_LEN :: nat where "DIGEST_LEN \<equiv> 16"

text \<open>\<open>digest_get\<close>; the context is an uninitialised local variable, so it is an argument.  The
  length is an \<open>unsigned int\<close> and selects a prefix of the data.\<close>

definition digest_get :: "md5_ctx \<Rightarrow> bytes \<Rightarrow> u32 \<Rightarrow> bytes" where
  "digest_get ctx data len =
     (let ctx = MD5_Init ctx;
          ctx = MD5_Update ctx (take (unat len) data)
      in fst (MD5_Final ctx))"

definition digest_to_hex8 :: "u8 \<Rightarrow> string" where
  "digest_to_hex8 data =
     (let lookup = ''0123456789abcdef''
      in [lookup ! unat (data div 16), lookup ! unat (data mod 16)])"

definition digest_to_hex8_u :: "u8 \<Rightarrow> string" where
  "digest_to_hex8_u data =
     (let lookup = ''0123456789ABCDEF''
      in [lookup ! unat (data div 16), lookup ! unat (data mod 16)])"

definition digest_to_hex32 :: "u32 \<Rightarrow> string" where
  "digest_to_hex32 data =
     digest_to_hex8 (ucast (drop_bit 0x18 data AND 0xff)) @
     digest_to_hex8 (ucast (drop_bit 0x10 data AND 0xff)) @
     digest_to_hex8 (ucast (drop_bit 0x8 data AND 0xff)) @
     digest_to_hex8 (ucast (data AND 0xff))"

definition digest_to_str :: "bytes \<Rightarrow> string \<Rightarrow> string" where
  "digest_to_str md5 result =
     fold (\<lambda>i result. memcpy_at result (2 * i) (digest_to_hex8_u (md5 ! i))) [0..<DIGEST_LEN] result"

definition hex4_to_digest :: "char \<Rightarrow> u8" where
  "hex4_to_digest data =
     (let d = schar data
      in if d > 57 \<and> d > 70 \<and> d > 102 then 0
         else
           let base = (if d > 57 then (if d > 70 then 97 - 10 else 65 - 10) else 48)
           in if d < base then 0 else of_int (d - base))"

definition hex8_to_digest :: "string \<Rightarrow> u8" where
  "hex8_to_digest data = hex4_to_digest (data ! 0) * 16 + hex4_to_digest (data ! 1)"

definition hex32_to_digest :: "string \<Rightarrow> u32" where
  "hex32_to_digest data =
     ntohl (le32 (hex8_to_digest data) (hex8_to_digest (drop 2 data))
                 (hex8_to_digest (drop 4 data)) (hex8_to_digest (drop 6 data)))"

section \<open>Base 16\<close>

definition hex_digits :: string where
  "hex_digits = ''0123456789abcdefABCDEF''"

definition hex_digit :: "char \<Rightarrow> nat" where
  "hex_digit c =
     (let n = of_char c in if n \<le> 57 then n - 48 else if n \<le> 70 then n - 55 else n - 87)"

definition hex_number :: "string \<Rightarrow> nat" where
  "hex_number s = foldl (\<lambda>n c. 16 * n + hex_digit c) 0 s"

text \<open>A context with arbitrary contents, for concrete inputs.\<close>

definition wit_md5 :: md5_ctx where
  "wit_md5 = \<lparr>ctx_lo = 0, ctx_hi = 0, ctx_a = 0, ctx_b = 0, ctx_c = 0, ctx_d = 0, ctx_buffer = replicate 64 0\<rparr>"

section \<open>Lemmas\<close>

lemma hex4_digit:
  assumes "c \<in> set hex_digits"
  shows "hex4_to_digest c = of_nat (hex_digit c)" and "hex_digit c < 16"
proof -
  have "\<forall>c \<in> set hex_digits. hex4_to_digest c = of_nat (hex_digit c) \<and> hex_digit c < 16"
    by code_simp
  with assms show "hex4_to_digest c = of_nat (hex_digit c)" and "hex_digit c < 16"
    by blast+
qed

lemma lookup_digit:
  assumes "n < 16"
  shows "hex4_to_digest (''0123456789abcdef'' ! n) = of_nat n"
    and "''0123456789abcdef'' ! n \<in> set hex_digits"
proof -
  have "\<forall>n \<in> set [0..<16]. hex4_to_digest (''0123456789abcdef'' ! n) = of_nat n \<and>
      ''0123456789abcdef'' ! n \<in> set hex_digits"
    by code_simp
  with assms show "hex4_to_digest (''0123456789abcdef'' ! n) = of_nat n"
    and "''0123456789abcdef'' ! n \<in> set hex_digits"
    by simp_all
qed

lemma length_hex8 [simp, byte_len]: "length (digest_to_hex8 x) = 2" "length (digest_to_hex8_u x) = 2"
  by (simp_all add: digest_to_hex8_def digest_to_hex8_u_def Let_def)

lemma length_hex32 [simp, byte_len]: "length (digest_to_hex32 x) = 8"
  by (simp add: digest_to_hex32_def)

lemma unat_div_mod_16: "unat (x div 16) < 16" "unat (x mod 16) < 16" for x :: u8
proof -
  have "unat x < 256"
    using unsigned_less [of x, where ?'a = nat] by simp
  then show "unat (x div 16) < 16" "unat (x mod 16) < 16"
    by (simp_all add: unat_div unat_mod less_mult_imp_div_less)
qed

lemma hex8_hex8 [simp, codec_simps]: "hex8_to_digest (digest_to_hex8 x @ r) = x"
proof -
  have "x div 16 * 16 + x mod 16 = x"
    by (rule div_mult_mod_eq)
  then show ?thesis
    using unat_div_mod_16 [of x]
    by (simp add: hex8_to_digest_def digest_to_hex8_def Let_def lookup_digit)
qed

lemma hex8_parts: "drop 2 (digest_to_hex8 x @ r) = r"
  by simp

lemma byte_of_word: "ucast (x AND 0xff) = (ucast x :: u8)" for x :: u32
proof -
  have "(0xff :: u32) = mask 8"
    by (simp add: mask_eq_exp_minus_1)
  then show ?thesis
    by (simp only: take_bit_eq_mask [symmetric]) (auto intro!: bit_word_eqI simp: bit_simps)
qed

lemma hex32_hex32 [simp, codec_simps]: "hex32_to_digest (digest_to_hex32 x) = x"
proof -
  have d: "drop 4 s = drop 2 (drop 2 s)" "drop 6 s = drop 2 (drop 2 (drop 2 s))" for s :: string
    by simp_all
  show ?thesis
    unfolding hex32_to_digest_def digest_to_hex32_def byte_of_word d hex8_parts hex8_hex8
    using hex8_hex8 [of "ucast x" "[]"] by simp
qed

interpretation hex32: codec digest_to_hex32 hex32_to_digest 8
  by unfold_locales simp_all

text \<open>The decoder reads the number that the digits denote.\<close>

lemma hex8_number:
  assumes "a \<in> set hex_digits" "b \<in> set hex_digits"
  shows "unat (hex8_to_digest (a # b # r)) = 16 * hex_digit a + hex_digit b"
proof -
  have "16 * hex_digit a + hex_digit b < 256"
    using hex4_digit(2) [OF assms(1)] hex4_digit(2) [OF assms(2)] by simp
  moreover have "hex8_to_digest (a # b # r) = of_nat (16 * hex_digit a + hex_digit b)"
    by (simp add: hex8_to_digest_def hex4_digit assms)
  ultimately show ?thesis
    by (simp only: unat_of_nat) simp
qed

lemma length_8_cases:
  assumes "length s = 8"
  obtains a b c d e f g h where "s = [a, b, c, d, e, f, g, h]"
  using assms by (auto simp: numeral_eq_Suc length_Suc_conv)

lemma hex32_of_nat_number:
  assumes "length s = 8" and "set s \<subseteq> set hex_digits"
  shows "hex32_to_digest s = of_nat (hex_number s)"
proof -
  obtain a b c d e f g h where s: "s = [a, b, c, d, e, f, g, h]"
    using assms(1) by (rule length_8_cases)
  have p: "unat (hex8_to_digest (a # b # r)) = 16 * hex_digit a + hex_digit b"
    "unat (hex8_to_digest (c # d # r)) = 16 * hex_digit c + hex_digit d"
    "unat (hex8_to_digest (e # f # r)) = 16 * hex_digit e + hex_digit f"
    "unat (hex8_to_digest (g # h # r)) = 16 * hex_digit g + hex_digit h" for r
    using assms(2) by (simp_all add: s hex8_number)
  show ?thesis
    unfolding hex32_to_digest_def ntohl_le32 s
    unfolding le32_eq_of_nat
    by (rule arg_cong [where f = of_nat]) (simp add: p hex_number_def)
qed

lemma hex_number_bound:
  assumes "set s \<subseteq> set hex_digits"
  shows "hex_number s < 16 ^ length s"
proof -
  have "foldl (\<lambda>n c. 16 * n + hex_digit c) k s < 16 ^ length s * Suc k" for k
    using assms
  proof (induction s arbitrary: k)
    case (Cons c s)
    have "Suc (16 * k + hex_digit c) \<le> 16 * Suc k"
      using hex4_digit(2) [of c] Cons.prems by simp
    then have "16 ^ length s * Suc (16 * k + hex_digit c) \<le> 16 ^ length s * (16 * Suc k)"
      by (rule mult_le_mono2)
    then have "16 ^ length s * Suc (16 * k + hex_digit c) \<le> 16 ^ length (c # s) * Suc k"
      by (simp only: length_Cons power_Suc mult.assoc mult.left_commute)
    with Cons.IH [of "16 * k + hex_digit c"] Cons.prems show ?case
      by (simp only: foldl_Cons) simp
  qed simp
  from this [of 0] show ?thesis
    by (simp add: hex_number_def)
qed

lemma hex8_digits: "set (digest_to_hex8 x) \<subseteq> set hex_digits"
  using lookup_digit(2) [OF unat_div_mod_16(1)] lookup_digit(2) [OF unat_div_mod_16(2)]
  by (simp add: digest_to_hex8_def Let_def)

lemma hex32_digits: "set (digest_to_hex32 x) \<subseteq> set hex_digits"
  using hex8_digits by (simp add: digest_to_hex32_def)

lemma hex_number_hex32: "hex_number (digest_to_hex32 x) = unat x"
proof -
  have "hex_number (digest_to_hex32 x) < 2 ^ 32"
    using hex_number_bound [OF hex32_digits, of x] by simp
  moreover have "of_nat (hex_number (digest_to_hex32 x)) = x"
    using hex32_of_nat_number [OF _ hex32_digits, of x] by simp
  ultimately show ?thesis
    using unat_of_nat [of "hex_number (digest_to_hex32 x)", where ?'a = 32] by simp
qed

lemma length_rfc_md5 [simp, byte_len]: "length (rfc_md5 m) = 16"
  by (simp add: rfc_md5_def split: prod.splits)

lemma digest_get_rfc:
  "length (ctx_buffer ctx) = 64 \<Longrightarrow> digest_get ctx data len = rfc_md5 (take (unat len) data)"
  by (simp add: digest_get_def md5.one_shot)

text \<open>\<open>digest_to_str\<close> writes the 32 upper-case digits over the start of the result and leaves
  what follows, the place of the terminating NUL included.\<close>

lemma digest_to_str_upto:
  "2 * n \<le> length result \<Longrightarrow>
   fold (\<lambda>i result. memcpy_at result (2 * i) (digest_to_hex8_u (md5 ! i))) [0..<n] result =
   concat (map (\<lambda>i. digest_to_hex8_u (md5 ! i)) [0..<n]) @ drop (2 * n) result"
proof (induction n)
  case (Suc n)
  have "length (concat (map (\<lambda>i. digest_to_hex8_u (md5 ! i)) [0..<n])) = 2 * n"
    by (induction n) simp_all
  with Suc show ?case
    by (simp add: memcpy_at_def)
qed simp

lemma digest_to_str_hex:
  assumes "length md5 = DIGEST_LEN" and "length result = 33"
  shows "digest_to_str md5 result = concat (map digest_to_hex8_u md5) @ [result ! 32]"
proof -
  have "map (\<lambda>i. digest_to_hex8_u (md5 ! i)) [0..<DIGEST_LEN] = map digest_to_hex8_u md5"
    using assms(1) by (intro nth_equalityI) simp_all
  moreover have "drop 32 result = [result ! 32]"
    using assms(2) by (simp add: Cons_nth_drop_Suc [symmetric])
  ultimately show ?thesis
    unfolding digest_to_str_def using digest_to_str_upto [of 16 result md5] assms(2) by simp
qed

section \<open>Properties\<close>

text \<open>C6: the base-16 conversions of a 32-bit value are inverse to each other.  The text that
  \<open>digest_to_hex32\<close> writes has eight characters, all of them digits, denotes the value in base
  16, most significant digit first, and \<open>hex32_to_digest\<close> reads the value back from it.\<close>

theorem hex32_roundtrip:
  "length (digest_to_hex32 x) = 8 \<and> set (digest_to_hex32 x) \<subseteq> set hex_digits \<and>
   hex_number (digest_to_hex32 x) = unat x \<and> hex32_to_digest (digest_to_hex32 x) = x"
  by (simp add: hex32_digits hex_number_hex32)

text \<open>\<open>hex32_to_digest\<close> reads every string of eight base-16 digits, in either case, as the
  number it denotes.\<close>

lemma hex32_to_digest_number:
  assumes "length s = 8" and "set s \<subseteq> set hex_digits"
  shows "unat (hex32_to_digest s) = hex_number s"
proof -
  have "hex_number s < 2 ^ 32"
    using hex_number_bound [OF assms(2)] assms(1) by simp
  then show ?thesis
    by (simp only: hex32_of_nat_number [OF assms] unat_of_nat) simp
qed

text \<open>the digest as text.  \<open>digest_to_str\<close> fills the first 32 characters of its 33-character
  result with two upper-case digits for each byte of the digest, in order, and leaves the last
  character as the caller set it: the terminating NUL is the caller's.\<close>

lemma digest_to_str_fills:
  "length md5 = DIGEST_LEN \<Longrightarrow> length result = 33 \<Longrightarrow>
   digest_to_str md5 result = concat (map digest_to_hex8_u md5) @ [result ! 32]"
  by (rule digest_to_str_hex)

end
