(* ===== verification/Auth.thy ===== *)
theory Auth
  imports Conn Digest
begin

text \<open>
  Who may use the proxy: src/regex.c, src/rand.c, and of src/proxy.c the functions
  \<open>proxy_authorize_callsign\<close>, \<open>get_nonce\<close>, \<open>get_password_response\<close> and \<open>proxy_worker_authorize\<close>, the
  server side of the login handshake.

  The PCRE2 library is a parameter \<open>pcre\<close>: what it compiles a pattern to, and what a match of
  compiled code against a subject returns.
\<close>

section \<open>Regular expressions\<close>

record 're pcre =
  pcre2_compile :: "string \<Rightarrow> 're option"
  pcre2_match :: "'re \<Rightarrow> string \<Rightarrow> int"

abbreviation (input) PCRE2_ERROR_NOMATCH :: int where "PCRE2_ERROR_NOMATCH \<equiv> - 1"

record 're regex_priv =
  rx_re :: "'re option"

type_synonym 're regex_handle = "'re regex_priv option"

definition regex_init :: "os \<Rightarrow> 're regex_handle \<Rightarrow> int \<times> 're regex_handle \<times> os" where
  "regex_init s re =
     (case re of
        None \<Rightarrow> (case os_alloc s of (ok, s) \<Rightarrow>
            if ok then (0, Some \<lparr>rx_re = None\<rparr>, s) else (- ENOMEM, None, s))
      | Some priv \<Rightarrow> (0, Some priv, s))"

text \<open>The code PCRE2 compiles is a block that \<open>pcre2_code_free\<close> gives back.\<close>

definition regex_compile :: "'re pcre \<Rightarrow> os \<Rightarrow> 're regex_handle \<Rightarrow> string \<Rightarrow> int \<times> 're regex_handle \<times> os" where
  "regex_compile pcre s re pattern =
     (let priv = the re;
          s = (if rx_re priv \<noteq> None then os_free s else s)
      in case pcre2_compile pcre pattern of
           None \<Rightarrow> (- EINVAL, Some (priv\<lparr>rx_re := None\<rparr>), s)
         | Some code \<Rightarrow> (0, Some (priv\<lparr>rx_re := Some code\<rparr>), s\<lparr>live := live s + 1\<rparr>))"

definition regex_free :: "os \<Rightarrow> 're regex_handle \<Rightarrow> 're regex_handle \<times> os" where
  "regex_free s re =
     (case re of
        None \<Rightarrow> (None, s)
      | Some priv \<Rightarrow> (None, os_free (if rx_re priv \<noteq> None then os_free s else s)))"

text \<open>The match data is a block that exists during the call; without compiled code
  \<open>pcre2_match_data_create_from_pattern\<close> returns NULL.\<close>

definition regex_is_match :: "'re pcre \<Rightarrow> os \<Rightarrow> 're regex_handle \<Rightarrow> string \<Rightarrow> int \<times> os" where
  "regex_is_match pcre s re subject =
     (case rx_re (the re) of
        None \<Rightarrow> (- EINVAL, s)
      | Some code \<Rightarrow>
          (case os_alloc s of (ok, s) \<Rightarrow>
             if \<not> ok then (- EINVAL, s)
             else
               let ret = pcre2_match pcre code subject; s = os_free s
               in if ret < 0
                  then (if ret = PCRE2_ERROR_NOMATCH then (0, s) else (- EINVAL, s))
                  else (1, s)))"

section \<open>Authorization of callsigns\<close>

text \<open>The two fields of \<open>proxy_priv\<close> that the function reads.\<close>

record 're call_res =
  re_calls_allowed :: "'re regex_handle option"
  re_calls_denied :: "'re regex_handle option"

definition proxy_authorize_callsign :: "'re pcre \<Rightarrow> os \<Rightarrow> 're call_res \<Rightarrow> string \<Rightarrow> int \<times> os" where
  "proxy_authorize_callsign pcre s priv callsign =
     (case (case re_calls_denied priv of None \<Rightarrow> (0, s)
            | Some re \<Rightarrow> regex_is_match pcre s re callsign) of (ret, s) \<Rightarrow>
        if ret \<noteq> 0 then (0, s)
        else
          (case re_calls_allowed priv of
             None \<Rightarrow> (1, s)
           | Some re \<Rightarrow>
               (case regex_is_match pcre s re callsign of (ret, s) \<Rightarrow>
                  if ret \<noteq> 1 then (0, s) else (1, s))))"

section \<open>The password response\<close>

text \<open>\<open>rnd\<close> is what \<open>rand()\<close> returns.\<close>

definition rand_get :: "u32 \<Rightarrow> int \<times> u32" where
  "rand_get rnd = (0, rnd)"

definition get_nonce :: "u32 \<Rightarrow> int \<times> u32" where
  "get_nonce rnd = rand_get rnd"

fun upcase :: "string \<Rightarrow> string" where
  "upcase [] = []"
| "upcase (c # cs) =
     (if schar c \<ge> 97 \<and> schar c \<le> 122 then char_of (nat (schar c - 32)) else c) # upcase cs"

text \<open>\<open>ctx\<close> is the uninitialised context of \<open>digest_get\<close>.\<close>

definition get_password_response :: "md5_ctx \<Rightarrow> u32 \<Rightarrow> string \<Rightarrow> int \<times> bytes" where
  "get_password_response ctx nonce password =
     (let pass_with_nonce_len = of_nat (length password) + 8;
          pass_with_nonce = bytes_of_string (upcase password @ digest_to_hex32 nonce)
      in (0, digest_get ctx pass_with_nonce pass_with_nonce_len))"

section \<open>The server side of the handshake\<close>

abbreviation (input) PROXY_PASS_RES_LEN :: nat where "PROXY_PASS_RES_LEN \<equiv> 16"

definition msg_bad_pw :: bytes where
  "msg_bad_pw = [0x07, 0x00, 0x00, 0x00, 0x00, 0x01, 0x00, 0x00, 0x00, 0x01]"

definition msg_bad_auth :: bytes where
  "msg_bad_auth = [0x07, 0x00, 0x00, 0x00, 0x00, 0x01, 0x00, 0x00, 0x00, 0x02]"

text \<open>The search for the end of the callsign, from \<open>idx\<close> on.\<close>

function find_newline :: "bytes \<Rightarrow> nat \<Rightarrow> nat" where
  "find_newline buff idx =
     (if idx < 11 \<and> buff ! idx \<noteq> byte_of_char LF then find_newline buff (idx + 1) else idx)"
  by pat_completeness auto

termination
  by (relation "measure (\<lambda>(buff, idx). 11 - idx)") auto

text \<open>The comparison of the response with the buffer from \<open>idx\<close> on.\<close>

fun response_matches :: "bytes \<Rightarrow> bytes \<Rightarrow> nat \<Rightarrow> nat \<Rightarrow> nat \<Rightarrow> bool" where
  "response_matches response buff idx j 0 = True"
| "response_matches response buff idx j (Suc n) =
     (response ! j = buff ! idx \<and> response_matches response buff (idx + 1) (j + 1) n)"

text \<open>\<open>proxy_worker_authorize\<close> on the connection \<open>conn\<close> of the worker.  \<open>buff\<close> is the
  uninitialised local buffer of 28 bytes; the result carries the callsign stored in the worker.\<close>

definition proxy_worker_authorize ::
    "'re pcre \<Rightarrow> 're call_res \<Rightarrow> md5_ctx \<Rightarrow> string \<Rightarrow> u32 \<Rightarrow> bytes \<Rightarrow> os \<Rightarrow> conn_handle \<Rightarrow> string \<Rightarrow>
     int \<times> string \<times> os" where
  "proxy_worker_authorize pcre priv ctx password rnd buff s conn callsign =
     (case get_nonce rnd of (ret, nonce) \<Rightarrow>
        if ret < 0 then (ret, callsign, s)
        else
          case get_password_response ctx nonce password of (ret, response) \<Rightarrow>
            if ret < 0 then (ret, callsign, s)
            else
              case conn_send s conn (bytes_of_string (digest_to_hex32 nonce)) of (ret, s) \<Rightarrow>
                if ret < 0 then (ret, callsign, s)
                else
                  case conn_recv s conn 16 of (ret, d, s) \<Rightarrow>
                    let buff = memcpy_at buff 0 d
                    in if ret < 0 then (ret, callsign, s)
                    else
                      let idx = find_newline buff 0
                      in if idx \<ge> 11 then (- EINVAL, callsign, s)
                      else
                        let buff = buff[idx := 0];
                            callsign = cstr (string_of_bytes buff)
                        in case conn_recv s conn (idx + 1) of (ret, d, s) \<Rightarrow>
                          let buff = memcpy_at buff 16 d
                          in if ret < 0 then (ret, callsign, s)
                          else if \<not> response_matches response buff (idx + 1) 0 PROXY_PASS_RES_LEN
                          then (case conn_send s conn msg_bad_pw of (ret, s) \<Rightarrow>
                                  (if ret < 0 then ret else - EACCES, callsign, s))
                          else
                            case proxy_authorize_callsign pcre s priv callsign of (ret, s) \<Rightarrow>
                              if ret \<noteq> 1
                              then (case conn_send s conn msg_bad_auth of (ret, s) \<Rightarrow>
                                      (if ret < 0 then ret else - EACCES, callsign, s))
                              else (0, callsign, s))"

section \<open>Specification\<close>

text \<open>The response that the protocol asks for: the MD5 of the password in upper case followed by
  the nonce as eight digits.\<close>

definition password_digest :: "u32 \<Rightarrow> string \<Rightarrow> bytes" where
  "password_digest nonce password = rfc_md5 (bytes_of_string (upcase password @ digest_to_hex32 nonce))"

text \<open>What a client sends to log in with the callsign \<open>c\<close>.\<close>

definition login_bytes :: "u32 \<Rightarrow> string \<Rightarrow> bytes \<Rightarrow> bytes" where
  "login_bytes nonce password c = c @ [byte_of_char LF] @ password_digest nonce password"

definition callsign_ok :: "bytes \<Rightarrow> bool" where
  "callsign_ok c \<longleftrightarrow> length c \<le> 10 \<and> byte_of_char LF \<notin> set c"

section \<open>Lemmas\<close>

declare find_newline.simps [simp del]

lemma find_newline_spec:
  "i \<le> 11 \<Longrightarrow> i \<le> find_newline buff i \<and> find_newline buff i \<le> 11 \<and>
   (\<forall>j. i \<le> j \<longrightarrow> j < find_newline buff i \<longrightarrow> buff ! j \<noteq> byte_of_char LF) \<and>
   (find_newline buff i < 11 \<longrightarrow> buff ! find_newline buff i = byte_of_char LF)"
proof (induction buff i rule: find_newline.induct)
  case (1 buff i)
  show ?case
  proof (cases "i < 11 \<and> buff ! i \<noteq> byte_of_char LF")
    case True
    then have e: "find_newline buff i = find_newline buff (i + 1)"
      by (simp add: find_newline.simps [of buff i])
    have "i + 1 \<le> find_newline buff (i + 1) \<and> find_newline buff (i + 1) \<le> 11 \<and>
       (\<forall>j. i + 1 \<le> j \<longrightarrow> j < find_newline buff (i + 1) \<longrightarrow> buff ! j \<noteq> byte_of_char LF) \<and>
       (find_newline buff (i + 1) < 11 \<longrightarrow> buff ! find_newline buff (i + 1) = byte_of_char LF)"
      using 1 True by simp
    with True show ?thesis
      unfolding e by (metis Suc_eq_plus1 Suc_leI le_neq_implies_less le_trans nat_le_linear not_less_eq_eq)
  next
    case False
    then have "find_newline buff i = i"
      by (subst find_newline.simps) (rule if_not_P)
    with 1 False show ?thesis
      by auto
  qed
qed

lemma find_newline_first:
  assumes "idx < 11" and "buff ! idx = byte_of_char LF" and "\<forall>j < idx. buff ! j \<noteq> byte_of_char LF"
  shows "find_newline buff 0 = idx"
  using find_newline_spec [of 0 buff] assms
  by (metis le_neq_implies_less linorder_not_less order_less_le_trans zero_le)

lemma response_matches_take:
  "idx + n \<le> length buff \<Longrightarrow> j + n \<le> length response \<Longrightarrow>
   response_matches response buff idx j n \<longleftrightarrow> take n (drop j response) = take n (drop idx buff)"
proof (induction n arbitrary: idx j)
  case (Suc n)
  have "drop j response = response ! j # drop (Suc j) response"
    and "drop idx buff = buff ! idx # drop (Suc idx) buff"
    using Suc.prems by (simp_all add: Cons_nth_drop_Suc)
  with Suc show ?case
    by simp
qed simp

lemma length_upcase [simp]: "length (upcase cs) = length cs"
  by (induction cs) simp_all

lemma get_password_response_digest:
  assumes "length (ctx_buffer ctx) = 64" and "length password + 8 < 2 ^ 32"
  shows "get_password_response ctx nonce password = (0, password_digest nonce password)"
proof -
  have "unat (of_nat (length password) + 8 :: u32) = length password + 8"
  proof -
    have "of_nat (length password) + 8 = (of_nat (length password + 8) :: u32)"
      by simp
    with assms(2) show ?thesis
      by (simp only: unat_of_nat) simp
  qed
  then show ?thesis
    by (simp add: get_password_response_def Let_def digest_get_rfc assms(1) password_digest_def)
qed

text \<open>Authorization fails closed: any error of a match denies.\<close>

lemma regex_is_match_result: "fst (regex_is_match pcre s re c) \<in> {0, 1, - EINVAL}"
  by (auto simp: regex_is_match_def Let_def split: option.splits prod.splits)

lemma proxy_authorize_result: "fst (proxy_authorize_callsign pcre s priv c) \<in> {0, 1}"
  by (auto simp: proxy_authorize_callsign_def split: option.splits prod.splits)

lemma regex_is_match_script:
  "script s = script s' \<Longrightarrow> fst (regex_is_match pcre s re c) = fst (regex_is_match pcre s' re c) \<and>
   script (snd (regex_is_match pcre s re c)) = script (snd (regex_is_match pcre s' re c))"
  by (auto simp: regex_is_match_def os_alloc_def os_try_def os_free_def Let_def
      split: option.splits prod.splits list.splits if_splits)

lemma proxy_authorize_script:
  assumes "script s = script s'"
  shows "fst (proxy_authorize_callsign pcre s priv c) = fst (proxy_authorize_callsign pcre s' priv c)"
proof -
  have 1: "fst (regex_is_match pcre s re c) = fst (regex_is_match pcre s' re c)" for re
    using regex_is_match_script [OF assms] by blast
  have 2: "fst (regex_is_match pcre (snd (regex_is_match pcre s re' c)) re c) =
      fst (regex_is_match pcre (snd (regex_is_match pcre s' re' c)) re c)" for re re'
    using regex_is_match_script regex_is_match_script [OF assms] by blast
  show ?thesis
    by (cases "re_calls_denied priv"; cases "re_calls_allowed priv")
       (simp_all add: proxy_authorize_callsign_def split_beta 1 2)
qed

lemma regex_is_match_socks: "socks (snd (regex_is_match pcre s re c)) = socks s"
  by (auto simp: regex_is_match_def os_alloc_def os_try_def Let_def
      split: option.splits prod.splits list.splits if_splits)

lemma proxy_authorize_socks: "socks (snd (proxy_authorize_callsign pcre s priv c)) = socks s"
  by (cases "re_calls_denied priv"; cases "re_calls_allowed priv")
     (simp_all add: proxy_authorize_callsign_def split_beta regex_is_match_socks)

text \<open>The conn functions do not consume outcomes of the environment.\<close>

lemma cstr_append_NUL_any [simp]: "cstr (xs @ NUL # ys) = cstr xs"
  by (induction xs) (simp_all add: cstr_def)

text \<open>The buffer of \<open>proxy_worker_authorize\<close> after the first and after the second read, for the
  stream \<open>S\<close>.\<close>

lemma authorize_buffer1:
  assumes "length buff = 28" and "16 \<le> length S"
  shows "memcpy_at buff 0 (take 16 S) = take 16 S @ drop 16 buff"
  using assms by (simp add: memcpy_at_def)

lemma authorize_callsign:
  assumes "length S1 = 16" and "idx < 16"
  shows "cstr (string_of_bytes ((S1 @ r)[idx := 0])) = cstr (string_of_bytes (take idx S1))"
proof -
  have "char_of_byte 0 = NUL"
    by code_simp
  moreover have "(S1 @ r)[idx := 0] = take idx S1 @ 0 # drop (Suc idx) (S1 @ r)"
    using assms by (simp add: upd_conv_take_nth_drop)
  ultimately show ?thesis
    by simp
qed

lemma authorize_buffer2:
  assumes "length buff = 28" and "idx < 11" and "17 + idx \<le> length S"
  shows "take 16 (drop (idx + 1) (memcpy_at ((take 16 S @ drop 16 buff)[idx := 0]) 16
      (take (idx + 1) (drop 16 S)))) = take 16 (drop (idx + 1) S)"
proof -
  have "memcpy_at ((take 16 S @ drop 16 buff)[idx := 0]) 16 (take (idx + 1) (drop 16 S)) =
      (take 16 S)[idx := 0] @ take (idx + 1) (drop 16 S) @ drop (17 + idx) buff"
    using assms by (simp add: memcpy_at_def list_update_append)
  moreover have "drop (idx + 1) ((take 16 S)[idx := 0]) = drop (idx + 1) (take 16 S)"
    by simp
  moreover have "drop (idx + 1) (take 16 S) @ take (idx + 1) (drop 16 S) = take 16 (drop (idx + 1) S)"
  proof -
    have "drop (idx + 1) (take 16 S) = take (15 - idx) (drop (idx + 1) S)"
      using assms(2) by (simp add: drop_take)
    moreover have "drop 16 S = drop (15 - idx) (drop (idx + 1) S)"
      using assms(2) by simp
    moreover have "15 - idx + (idx + 1) = 16"
      using assms(2) by simp
    ultimately show ?thesis
      using take_add [of "15 - idx" "idx + 1" "drop (idx + 1) S"] by simp
  qed
  ultimately show ?thesis
    using assms by simp
qed

text \<open>The run of \<open>proxy_worker_authorize\<close> on a client that accepts what it is sent, from the
  first read on, by what the client's stream holds.\<close>

lemma authorize_first_read:
  assumes "conn_up s conn k" "\<not> sk_shut k" "sk_tx k = []"
  obtains k1 s1 where "conn_send s conn (bytes_of_string (digest_to_hex32 rnd)) = (0, s1)"
    "conn_up s1 conn k1" "sk_stream k1 = sk_stream k" "script s1 = script s"
    "\<not> sk_shut k1" "sk_tx k1 = []"
proof -
  define k1 where "k1 = k\<lparr>sk_wire := sk_wire k @ bytes_of_string (digest_to_hex32 rnd)\<rparr>"
  show ?thesis
    using that [of "set_sock s (cp_fd (cpriv conn)) k1" k1] conn_send_ok [OF assms] conn_up_send [OF assms(1)] assms(2,3)
    by (simp add: k1_def sk_stream_def)
qed

lemma conn_recv_step:
  assumes "conn_up s conn k" "n \<le> length (sk_stream k)"
  shows "\<exists>k1 s1. conn_recv s conn n = (int n, take n (sk_stream k), s1) \<and>
    conn_up s1 conn k1 \<and> sk_stream k1 = drop n (sk_stream k) \<and> script s1 = script s \<and>
    sk_shut k1 = sk_shut k \<and> sk_tx k1 = sk_tx k"
proof -
  from conn_recv_ok [OF assms] obtain rx where
    "conn_recv s conn n = (int n, take n (sk_stream k), set_sock s (cp_fd (cpriv conn)) (k\<lparr>sk_rx := rx\<rparr>))"
    "sk_stream (k\<lparr>sk_rx := rx\<rparr>) = drop n (sk_stream k)" "no_dgram rx"
    by blast
  then show ?thesis
    using conn_up_recv [OF assms(1)]
    by (intro exI [of _ "k\<lparr>sk_rx := rx\<rparr>"] exI [of _ "set_sock s (cp_fd (cpriv conn)) (k\<lparr>sk_rx := rx\<rparr>)"]) simp
qed

lemma authorize_rejects:
  assumes up: "conn_up s conn k" "\<not> sk_shut k" "sk_tx k = []"
    and ctx: "length (ctx_buffer ctx) = 64" and pw: "length password + 8 < 2 ^ 32"
    and buff: "length buff = 28"
    and S: "S = sk_stream k"
    and run: "proxy_worker_authorize pcre priv ctx password rnd buff s conn callsign = (r, cs, s')"
    and idx: "idx = find_newline (take 16 S @ drop 16 buff) 0"
    and bad: "length S < 16 \<or> 11 \<le> idx \<or> length S < 17 + idx"
  shows "r < 0"
proof -
  note resp = get_password_response_digest [OF ctx pw]
  obtain k1 s1 where 1: "conn_send s conn (bytes_of_string (digest_to_hex32 rnd)) = (0, s1)"
    "conn_up s1 conn k1" "sk_stream k1 = S"
    using authorize_first_read [OF up, of rnd] S by metis
  note start = proxy_worker_authorize_def get_nonce_def rand_get_def resp 1(1)
  show ?thesis
  proof (cases "length S < 16")
    case True
    then obtain e s2 where "conn_recv s1 conn 16 = (- e, S, s2)" "0 < e"
      using conn_recv_short [OF 1(2), of 16] 1(3) by auto
    with run show ?thesis
      by (simp add: start Let_def)
  next
    case False
    then obtain k2 s2 where 2: "conn_recv s1 conn 16 = (16, take 16 S, s2)" "conn_up s2 conn k2"
      "sk_stream k2 = drop 16 S"
      using conn_recv_step [OF 1(2), of 16] 1(3) by auto
    note buff1 = authorize_buffer1 [OF buff, of S]
    show ?thesis
    proof (cases "11 \<le> idx")
      case True
      with run False show ?thesis
        by (simp add: start 2(1) buff1 idx [symmetric] Let_def)
    next
      case idx11: False
      then have "length (drop 16 S) < idx + 1"
        using bad False by simp
      then obtain e s3 where "conn_recv s2 conn (idx + 1) = (- e, drop 16 S, s3)" "0 < e"
        using conn_recv_short [OF 2(2), of "idx + 1"] 2(3) by auto
      with run False idx11 show ?thesis
        by (simp add: start 2(1) buff1 idx [symmetric] Let_def)
    qed
  qed
qed

lemma authorize_decides:
  assumes up: "conn_up s conn k" "\<not> sk_shut k" "sk_tx k = []"
    and ctx: "length (ctx_buffer ctx) = 64" and pw: "length password + 8 < 2 ^ 32"
    and buff: "length buff = 28"
    and S: "S = sk_stream k"
    and run: "proxy_worker_authorize pcre priv ctx password rnd buff s conn callsign = (r, cs, s')"
    and idx: "idx = find_newline (take 16 S @ drop 16 buff) 0"
    and good: "16 \<le> length S" "idx < 11" "17 + idx \<le> length S"
  shows "cs = cstr (string_of_bytes (take idx S)) \<and>
      r = (if take 16 (drop (idx + 1) S) = password_digest rnd password \<and>
              fst (proxy_authorize_callsign pcre s priv cs) = 1 then 0 else - EACCES)"
proof -
  note resp = get_password_response_digest [OF ctx pw]
  obtain k1 s1 where 1: "conn_send s conn (bytes_of_string (digest_to_hex32 rnd)) = (0, s1)"
    "conn_up s1 conn k1" "sk_stream k1 = S" "script s1 = script s" "\<not> sk_shut k1" "sk_tx k1 = []"
    using authorize_first_read [OF up, of rnd] S by metis
  obtain k2 s2 where 2: "conn_recv s1 conn 16 = (16, take 16 S, s2)" "conn_up s2 conn k2"
    "sk_stream k2 = drop 16 S" "script s2 = script s" "\<not> sk_shut k2" "sk_tx k2 = []"
    using conn_recv_step [OF 1(2), of 16] 1(3-6) good by auto
  have "idx + 1 \<le> length (sk_stream k2)"
    using 2(3) good by simp
  then obtain k3 s3 where 3: "conn_recv s2 conn (idx + 1) = (int (idx + 1), take (idx + 1) (drop 16 S), s3)"
    "conn_up s3 conn k3" "script s3 = script s" "\<not> sk_shut k3" "sk_tx k3 = []"
    using conn_recv_step [OF 2(2), of "idx + 1"] 2(3-6) by auto
  note auth = proxy_authorize_script [OF 3(3), of pcre priv]
  have call: "cstr (string_of_bytes ((take 16 S @ drop 16 buff)[idx := 0])) = cstr (string_of_bytes (take idx S))"
    using authorize_callsign [of "take 16 S" idx "drop 16 buff"] good by simp
  have match: "response_matches (password_digest rnd password)
      (memcpy_at ((take 16 S @ drop 16 buff)[idx := 0]) 16 (take (idx + 1) (drop 16 S))) (idx + 1) 0 16 \<longleftrightarrow>
      take 16 (drop (idx + 1) S) = password_digest rnd password"
    using authorize_buffer2 [OF buff good(2,3)] good buff
    by (subst response_matches_take) (auto simp: password_digest_def)
  have told: "fst (conn_send t conn m) = 0" if "socks t = socks s3" for t m
    using conn_send_ok [of t conn k3 m] 3(2,4,5) that by (simp add: conn_up_def)
  show ?thesis
    using run good auth told [OF refl] told [OF proxy_authorize_socks [of pcre s3 priv]]
    by (simp add: proxy_worker_authorize_def get_nonce_def rand_get_def resp 1(1) 2(1) 3(1) [simplified] call match [simplified]
        authorize_buffer1 [OF buff] idx [symmetric] Let_def split_beta split: if_splits)
qed

text \<open>The position of the newline is the length of the callsign.\<close>

lemma find_newline_login:
  assumes "callsign_ok c" and "S = c @ [byte_of_char LF] @ t" and "16 \<le> length S"
  shows "find_newline (take 16 S @ r) 0 = length c"
proof (rule find_newline_first)
  have n: "(take 16 S @ r) ! j = S ! j" if "j < 16" for j
    using that assms(3) by (simp add: nth_append)
  show "length c < 11"
    using assms(1) by (simp add: callsign_ok_def)
  then show "(take 16 S @ r) ! length c = byte_of_char LF"
    using n [of "length c"] assms(2) by simp
  show "\<forall>j < length c. (take 16 S @ r) ! j \<noteq> byte_of_char LF"
    using assms(1,2) n by (auto simp: callsign_ok_def nth_append in_set_conv_nth)
qed

lemma newline_login:
  assumes "find_newline (take 16 S @ r) 0 = idx" and "idx < 11" and "17 + idx \<le> length S"
  shows "S = take idx S @ [byte_of_char LF] @ take 16 (drop (idx + 1) S) @ drop (17 + idx) S \<and>
    callsign_ok (take idx S)"
proof -
  have n: "(take 16 S @ r) ! j = S ! j" if "j < 16" for j
    using that assms(3) by (simp add: nth_append)
  have sp: "S ! idx = byte_of_char LF" "\<forall>j < idx. S ! j \<noteq> byte_of_char LF"
    using find_newline_spec [of 0 "take 16 S @ r"] assms(1,2) n by auto
  have rest: "drop (Suc idx) S = take 16 (drop (idx + 1) S) @ drop (17 + idx) S"
    using append_take_drop_id [of 16 "drop (Suc idx) S"] by (simp add: add.commute)
  have "take idx S @ [byte_of_char LF] @ take 16 (drop (idx + 1) S) @ drop (17 + idx) S =
      take idx S @ S ! idx # drop (Suc idx) S"
    unfolding rest sp(1) by simp
  also have "\<dots> = S"
    using assms(2,3) by (intro id_take_nth_drop [symmetric]) simp
  finally have "S = take idx S @ [byte_of_char LF] @ take 16 (drop (idx + 1) S) @ drop (17 + idx) S"
    by (rule sym)
  moreover have "callsign_ok (take idx S)"
    using sp(2) assms(2,3) by (auto simp: callsign_ok_def in_set_conv_nth)
  ultimately show ?thesis
    by (rule conjI)
qed

text \<open>A client that sends a login with the right response is accepted if its callsign is authorized.\<close>

lemma authorize_login:
  assumes "conn_up s conn k" and "\<not> sk_shut k" and "sk_tx k = []"
    and "length (ctx_buffer ctx) = 64" and "length password + 8 < 2 ^ 32" and "length buff = 28"
    and run: "proxy_worker_authorize pcre priv ctx password rnd buff s conn callsign = (r, cs, s')"
    and login: "sk_stream k = login_bytes rnd password c @ rest" and c: "callsign_ok c"
  shows "cs = cstr (string_of_bytes c) \<and> r = (if fst (proxy_authorize_callsign pcre s priv cs) = 1 then 0 else - EACCES)"
proof -
  define S where "S = sk_stream k"
  have len: "length (password_digest rnd password) = 16"
    by (simp add: password_digest_def)
  have idx: "length c = find_newline (take 16 S @ drop 16 buff) 0"
    using find_newline_login [OF c, of S "password_digest rnd password @ rest"] login len by (simp add: S_def login_bytes_def)
  have "16 \<le> length S" "length c < 11" "17 + length c \<le> length S"
    using login len c by (simp_all add: S_def login_bytes_def callsign_ok_def)
  from authorize_decides [OF assms(1-6) S_def run idx this] show ?thesis
    using login len by (simp add: S_def login_bytes_def)
qed

section \<open>Properties\<close>

text \<open>C11: the login.  \<open>proxy_worker_authorize\<close> accepts a client exactly when the client sends a
  callsign of at most ten characters, a newline and the correct response to the nonce, and the
  callsign is authorized: however the bytes are segmented, and never on any other input.  The
  callsign stored in the worker is the one the client sent (up to its first NUL), and it is the
  one that was checked.\<close>

theorem login_accepts_iff:
  assumes "conn_up s conn k" and "\<not> sk_shut k" and "sk_tx k = []"
    and "length (ctx_buffer ctx) = 64" and "length password + 8 < 2 ^ 32" and "length buff = 28"
    and "proxy_worker_authorize pcre priv ctx password rnd buff s conn callsign = (r, cs, s')"
  shows "r = 0 \<longleftrightarrow> (\<exists>c rest. sk_stream k = login_bytes rnd password c @ rest \<and> callsign_ok c \<and>
      cs = cstr (string_of_bytes c) \<and> fst (proxy_authorize_callsign pcre s priv cs) = 1)"
proof
  define S where "S = sk_stream k"
  define idx where "idx = find_newline (take 16 S @ drop 16 buff) 0"
  assume "r = 0"
  then have "16 \<le> length S" "idx < 11" "17 + idx \<le> length S"
    using authorize_rejects [OF assms(1-6) S_def assms(7) idx_def] by (meson not_le less_irrefl)+
  note d = authorize_decides [OF assms(1-6) S_def assms(7) idx_def this] and nl = newline_login [OF idx_def [symmetric] this(2,3)]
  have ok: "take 16 (drop (idx + 1) S) = password_digest rnd password" "fst (proxy_authorize_callsign pcre s priv cs) = 1"
    using d \<open>r = 0\<close> by (simp_all split: if_splits)
  then have "S = login_bytes rnd password (take idx S) @ drop (17 + idx) S" "callsign_ok (take idx S)"
    using nl by (simp_all add: login_bytes_def)
  with d ok(2) show "\<exists>c rest. sk_stream k = login_bytes rnd password c @ rest \<and> callsign_ok c \<and>
      cs = cstr (string_of_bytes c) \<and> fst (proxy_authorize_callsign pcre s priv cs) = 1"
    unfolding S_def by blast
next
  assume "\<exists>c rest. sk_stream k = login_bytes rnd password c @ rest \<and> callsign_ok c \<and>
      cs = cstr (string_of_bytes c) \<and> fst (proxy_authorize_callsign pcre s priv cs) = 1"
  then obtain c rest where c: "sk_stream k = login_bytes rnd password c @ rest" "callsign_ok c"
    "fst (proxy_authorize_callsign pcre s priv cs) = 1"
    by blast
  from authorize_login [OF assms c(1,2)] c(3) show "r = 0"
    by simp
qed

theorem login_accepts_iff_witness:
  "fst (proxy_worker_authorize \<lparr>pcre2_compile = (\<lambda>_. None :: unit option), pcre2_match = (\<lambda>_ _. 0)\<rparr>
     \<lparr>re_calls_allowed = None, re_calls_denied = None\<rparr>
     \<lparr>ctx_lo = 0, ctx_hi = 0, ctx_a = 0, ctx_b = 0, ctx_c = 0, ctx_d = 0, ctx_buffer = replicate 64 0\<rparr>
     ''asdf1234'' 0x4d3b6d47 (replicate 28 0)
     (wit_os (wit_sock [RxData (login_bytes 0x4d3b6d47 ''asdf1234'' [0x4b, 0x4d, 0x30, 0x48])] [])) wit_conn []) = 0"
proof -
  let ?pcre = "\<lparr>pcre2_compile = (\<lambda>_. None :: unit option), pcre2_match = (\<lambda>_ _. 0)\<rparr>"
  let ?priv = "\<lparr>re_calls_allowed = None, re_calls_denied = None\<rparr>"
  let ?ctx = "\<lparr>ctx_lo = 0, ctx_hi = 0, ctx_a = 0, ctx_b = 0, ctx_c = 0, ctx_d = 0, ctx_buffer = replicate 64 0\<rparr>"
  let ?login = "login_bytes 0x4d3b6d47 ''asdf1234'' [0x4b, 0x4d, 0x30, 0x48]"
  define k where "k = wit_sock [RxData ?login] []"
  obtain r cs s' where run: "proxy_worker_authorize ?pcre ?priv ?ctx ''asdf1234'' 0x4d3b6d47 (replicate 28 0) (wit_os k) wit_conn [] = (r, cs, s')"
    by (metis prod_cases3)
  have k: "conn_up (wit_os k) wit_conn k" "\<not> sk_shut k" "sk_tx k = []" "sk_stream k = ?login @ []"
    by (simp_all add: conn_up_def wit_os_def wit_conn_def k_def wit_sock_def no_dgram_def no_peer_def
        sk_stream_def login_bytes_def)
  have ok: "callsign_ok [0x4b, 0x4d, 0x30, 0x48]"
    by (simp add: callsign_ok_def byte_of_char_def)
  have auth: "fst (proxy_authorize_callsign ?pcre (wit_os k) ?priv c) = 1" for c
    by (simp add: proxy_authorize_callsign_def)
  note iff = login_accepts_iff [OF k(1-3) _ _ _ run]
  have cs: "cs = cstr (string_of_bytes [0x4b, 0x4d, 0x30, 0x48])"
  proof -
    have len: "length ?login = 21"
      by (simp add: login_bytes_def password_digest_def)
    have "find_newline (take 16 ?login @ drop 16 (replicate 28 0)) 0 = 4"
      using find_newline_login [OF ok, of ?login "password_digest 0x4d3b6d47 ''asdf1234''"] len
      by (simp add: login_bytes_def)
    then show ?thesis
      using authorize_decides [OF k(1-3) _ _ _ refl run refl] len k(4) by (simp add: login_bytes_def)
  qed
  have "\<exists>c rest. sk_stream k = login_bytes 0x4d3b6d47 ''asdf1234'' c @ rest \<and> callsign_ok c \<and>
      cs = cstr (string_of_bytes c) \<and> fst (proxy_authorize_callsign ?pcre (wit_os k) ?priv cs) = 1"
    using k(4) ok cs auth by blast
  then have "r = 0"
    by (subst iff) simp_all
  then show ?thesis
    using run by (simp add: k_def)
qed

text \<open>C12: authorization fails closed.  A callsign is authorized only if the denial pattern, when
  there is one, compiled and reported no match, and the allowing pattern, when there is one,
  compiled and reported a match; an error of either match, a pattern that did not compile and a
  failed allocation deny.  The result is always 0 or 1.\<close>

theorem authorize_fails_closed:
  assumes "proxy_authorize_callsign pcre s priv c = (r, s')" and "r \<noteq> 0"
  shows "r = 1 \<and>
    (case re_calls_denied priv of None \<Rightarrow> True
     | Some re \<Rightarrow> \<exists>code. rx_re (the re) = Some code \<and> pcre2_match pcre code c = PCRE2_ERROR_NOMATCH) \<and>
    (case re_calls_allowed priv of None \<Rightarrow> True
     | Some re \<Rightarrow> \<exists>code. rx_re (the re) = Some code \<and> 0 \<le> pcre2_match pcre code c)"
  using assms
  by (auto simp: proxy_authorize_callsign_def regex_is_match_def Let_def
      split: option.splits prod.splits if_splits)

theorem authorize_fails_closed_witness:
  "fst (proxy_authorize_callsign \<lparr>pcre2_compile = Some, pcre2_match = (\<lambda>code c. if code = c then 1 else - 1)\<rparr>
     (wit_os (wit_sock [] [])) \<lparr>re_calls_allowed = Some (Some \<lparr>rx_re = Some ''K1RFD''\<rparr>),
       re_calls_denied = Some (Some \<lparr>rx_re = Some ''KM0H''\<rparr>)\<rparr> ''K1RFD'') = 1"
proof -
  let ?pcre = "\<lparr>pcre2_compile = Some, pcre2_match = (\<lambda>code c. if code = c then 1 else - 1)\<rparr> :: string pcre"
  let ?priv = "\<lparr>re_calls_allowed = Some (Some \<lparr>rx_re = Some ''K1RFD''\<rparr>),
       re_calls_denied = Some (Some \<lparr>rx_re = Some ''KM0H''\<rparr>)\<rparr>"
  obtain r s' where run: "proxy_authorize_callsign ?pcre (wit_os (wit_sock [] [])) ?priv ''K1RFD'' = (r, s')"
    by (metis surj_pair)
  moreover have "r \<noteq> 0"
    using run by (auto simp: proxy_authorize_callsign_def regex_is_match_def wit_os_def os_alloc_def
        os_try_def os_free_def Let_def)
  ultimately show ?thesis
    using authorize_fails_closed [OF run] by simp
qed

end
