(* ===== verification/Message.thy ===== *)
theory Message
  imports Conn
begin

text \<open>
  src/include/proxy_msg.h: the messages between the proxy and a client.

  A message is a packed header of nine bytes (type, IPv4 address, size of the data, the numbers as
  they lie in memory) followed by its data.  \<open>frames\<close> is the byte stream of a list of messages;
  the lemmas show that such a stream has only one reading and that a reader which takes the
  header and then as many bytes as it announces recovers the messages.
\<close>

section \<open>Header and stream\<close>

datatype PROXY_MSG_TYPE =
    PROXY_MSG_TYPE_TCP_OPEN
  | PROXY_MSG_TYPE_TCP_DATA
  | PROXY_MSG_TYPE_TCP_CLOSE
  | PROXY_MSG_TYPE_TCP_STATUS
  | PROXY_MSG_TYPE_UDP_DATA
  | PROXY_MSG_TYPE_UDP_CONTROL

text \<open>The value of a type on the wire.\<close>

fun type_byte :: "PROXY_MSG_TYPE \<Rightarrow> u8" where
  "type_byte PROXY_MSG_TYPE_TCP_OPEN = 1"
| "type_byte PROXY_MSG_TYPE_TCP_DATA = 2"
| "type_byte PROXY_MSG_TYPE_TCP_CLOSE = 3"
| "type_byte PROXY_MSG_TYPE_TCP_STATUS = 4"
| "type_byte PROXY_MSG_TYPE_UDP_DATA = 5"
| "type_byte PROXY_MSG_TYPE_UDP_CONTROL = 6"

record proxy_msg =
  msg_type :: u8
  msg_address :: u32
  msg_size :: u32

text \<open>The bytes of a header in memory, and the header read from nine bytes: the casts between
  \<open>struct proxy_msg *\<close> and \<open>uint8_t *\<close>.\<close>

definition msg_bytes :: "proxy_msg \<Rightarrow> bytes" where
  "msg_bytes msg = msg_type msg # le32_bytes (msg_address msg) @ le32_bytes (msg_size msg)"

definition msg_of_bytes :: "bytes \<Rightarrow> proxy_msg" where
  "msg_of_bytes b = \<lparr>msg_type = b ! 0, msg_address = le32_at b 1, msg_size = le32_at b 5\<rparr>"

definition frames :: "(proxy_msg \<times> bytes) list \<Rightarrow> bytes" where
  "frames ms = concat (map (\<lambda>(msg, d). msg_bytes msg @ d) ms)"

definition sized :: "proxy_msg \<times> bytes \<Rightarrow> bool" where
  "sized m \<longleftrightarrow> length (snd m) = unat (msg_size (fst m))"

section \<open>Lemmas\<close>

lemma length_msg_bytes [simp, byte_len]: "length (msg_bytes msg) = 9"
  by (simp add: msg_bytes_def)

lemma msg_of_msg_bytes [simp, codec_simps]: "msg_of_bytes (msg_bytes msg) = msg"
proof -
  have "le32_at (msg_bytes msg) 1 = msg_address msg"
    using le32_at_append [of "[msg_type msg]" 1 "le32_bytes (msg_address msg) @ le32_bytes (msg_size msg)"]
    by (simp add: msg_bytes_def)
  moreover have "le32_at (msg_bytes msg) 5 = msg_size msg"
    using le32_at_append [of "msg_type msg # le32_bytes (msg_address msg)" 5 "le32_bytes (msg_size msg)"]
      le32_at_le32_bytes [of "msg_size msg" "[]"]
    by (simp add: msg_bytes_def)
  ultimately show ?thesis
    by (simp add: msg_of_bytes_def msg_bytes_def)
qed

interpretation msg: codec msg_bytes msg_of_bytes 9
  by unfold_locales simp_all

lemma frames_Cons [simp]: "frames ((msg, d) # ms) = msg_bytes msg @ d @ frames ms"
  by (simp add: frames_def)

lemma frames_Nil [simp]: "frames [] = []"
  by (simp add: frames_def)

lemma frames_append: "frames (ms @ ms') = frames ms @ frames ms'"
  by (simp add: frames_def)

lemma frames_inject:
  "\<forall>m \<in> set ms. sized m \<Longrightarrow> \<forall>m \<in> set ms'. sized m \<Longrightarrow> frames ms = frames ms' \<Longrightarrow> ms = ms'"
proof (induction ms arbitrary: ms')
  case Nil
  then show ?case
    by (cases ms') (auto simp: msg_bytes_def frames_def)
next
  case (Cons m ms)
  obtain msg d where m: "m = (msg, d)" by fastforce
  show ?case
  proof (cases ms')
    case Nil
    with Cons.prems m show ?thesis
      by (simp add: msg_bytes_def)
  next
    case (Cons m' ms'')
    obtain msg' d' where m': "m' = (msg', d')" by fastforce
    have "msg_bytes msg @ d @ frames ms = msg_bytes msg' @ d' @ frames ms''"
      using Cons.prems(3) m m' Cons by simp
    then have "msg = msg'" "d @ frames ms = d' @ frames ms''"
      using msg.encode_append_eq by blast+
    moreover from this have "length d = length d'"
      using Cons.prems(1,2) m m' Cons by (simp add: sized_def)
    ultimately show ?thesis
      using Cons.IH [of ms''] Cons.prems Cons m m' by simp
  qed
qed

text \<open>A reader that takes a header and then the data it announces.\<close>

context byte_reader
begin

lemma recv_message:
  assumes "up s" and "stream s = msg_bytes msg @ d @ rest" and "sized (msg, d)"
  shows "\<exists>s1 s2. recv s 9 = (9, msg_bytes msg, s1) \<and> up s1 \<and>
    recv s1 (unat (msg_size msg)) = (int (unat (msg_size msg)), d, s2) \<and> stream s2 = rest \<and> up s2"
proof -
  obtain s1 where 1: "recv s 9 = (9, msg_bytes msg, s1)" "stream s1 = d @ rest" "up s1"
    using recv_prefix [OF assms(1,2), of 9] by auto
  then show ?thesis
    using recv_prefix [OF 1(3,2), of "unat (msg_size msg)"] assms(3) by (auto simp: sized_def)
qed

end

section \<open>Properties\<close>



end
