(* ===== verification/Client.thy ===== *)
theory Client
  imports Auth Message
begin

text \<open>
  src/proxy_client.c: the client side of the protocol, as the end-to-end tests of the program use it.

  The handle is a record with the connection as its private data; the operations act on the
  handle and the environment.  The lemmas follow a connection attempt against a server that
  sends a nonce: what the client writes then is the login that theory Auth specifies, a failed
  attempt leaves no descriptor open, and messages survive the trip through \<open>proxy_client_send\<close> and
  \<open>proxy_client_recv\<close>.
\<close>

section \<open>The code\<close>

record proxy_client_handle =
  ch_priv :: "conn_handle option"
  ch_host_addr :: string
  ch_host_port :: string
  ch_callsign :: "string option"
  ch_password :: "string option"

definition client_password :: "proxy_client_handle \<Rightarrow> string" where
  "client_password ch = (case ch_password ch of None \<Rightarrow> ''PUBLIC'' | Some p \<Rightarrow> p)"

definition proxy_client_disconnect :: "os \<Rightarrow> proxy_client_handle \<Rightarrow> proxy_client_handle \<times> os" where
  "proxy_client_disconnect s ch =
     (case conn_close s (the (ch_priv ch)) of (conn, s) \<Rightarrow> (ch\<lparr>ch_priv := Some conn\<rparr>, s))"

text \<open>The end of a connection attempt that failed.\<close>

definition client_connect_exit ::
    "int \<Rightarrow> os \<Rightarrow> proxy_client_handle \<Rightarrow> conn_handle \<Rightarrow> int \<times> proxy_client_handle \<times> os" where
  "client_connect_exit ret s ch conn =
     (case conn_close s conn of (conn, s) \<Rightarrow> (ret, ch\<lparr>ch_priv := Some conn\<rparr>, s))"

text \<open>The attempt from the received nonce on; \<open>ctx\<close> is the uninitialised digest context.\<close>

definition client_answer ::
    "md5_ctx \<Rightarrow> os \<Rightarrow> proxy_client_handle \<Rightarrow> conn_handle \<Rightarrow> bytes \<Rightarrow> int \<times> proxy_client_handle \<times> os" where
  "client_answer ctx s ch conn nonce_str =
     (let nonce = hex32_to_digest (string_of_bytes nonce_str)
      in case get_password_response ctx nonce (client_password ch) of (ret, response) \<Rightarrow>
        if ret < 0 then client_connect_exit ret s ch conn
        else
          case (case ch_callsign ch of None \<Rightarrow> (ret, s)
                | Some callsign \<Rightarrow> conn_send s conn (bytes_of_string callsign)) of (ret, s) \<Rightarrow>
            if ret < 0 then client_connect_exit ret s ch conn
            else
              case conn_send s conn [byte_of_char LF] of (ret, s) \<Rightarrow>
                if ret < 0 then client_connect_exit ret s ch conn
                else
                  case conn_send s conn response of (ret, s) \<Rightarrow>
                    if ret < 0 then client_connect_exit ret s ch conn
                    else (0, ch\<lparr>ch_priv := Some conn\<rparr>, s))"

definition proxy_client_connect ::
    "md5_ctx \<Rightarrow> os \<Rightarrow> proxy_client_handle \<Rightarrow> int \<times> proxy_client_handle \<times> os" where
  "proxy_client_connect ctx s ch =
     (case conn_connect s (the (ch_priv ch)) (ch_host_addr ch) (ch_host_port ch) of (ret, conn, s) \<Rightarrow>
        if ret < 0 then client_connect_exit ret s ch conn
        else
          case conn_recv s conn 8 of (ret, nonce_str, s) \<Rightarrow>
            if ret < 0 then client_connect_exit ret s ch conn
            else client_answer ctx s ch conn nonce_str)"

definition proxy_client_free :: "os \<Rightarrow> proxy_client_handle \<Rightarrow> proxy_client_handle \<times> os" where
  "proxy_client_free s ch =
     (if ch_priv ch \<noteq> None
      then
        case proxy_client_disconnect s ch of (ch, s) \<Rightarrow>
          case conn_free s (the (ch_priv ch)) of (_, s) \<Rightarrow> (ch\<lparr>ch_priv := None\<rparr>, os_free s)
      else (ch, s))"

definition proxy_client_init :: "os \<Rightarrow> proxy_client_handle \<Rightarrow> int \<times> proxy_client_handle \<times> os" where
  "proxy_client_init s ch =
     (let (ok, conn, s) =
            (case ch_priv ch of
               None \<Rightarrow> (case os_alloc s of (ok, s) \<Rightarrow> (ok, new_conn, s))
             | Some conn \<Rightarrow> (True, conn, s))
      in if \<not> ok then (- ENOMEM, ch, s)
         else
           case conn_init s (conn\<lparr>c_type := CONN_TYPE_TCP\<rparr>) of (ret, conn, s) \<Rightarrow>
             if ret < 0
             then (case conn_free s conn of (_, s) \<Rightarrow> (ret, ch\<lparr>ch_priv := None\<rparr>, os_free s))
             else (0, ch\<lparr>ch_priv := Some conn\<rparr>, s))"

text \<open>\<open>proxy_client_recv\<close> returns its result, the header as it overwrites the caller's \<open>msg\<close>, and
  the bytes written to the start of \<open>buff\<close>.\<close>

definition proxy_client_recv ::
    "os \<Rightarrow> proxy_client_handle \<Rightarrow> proxy_msg \<Rightarrow> nat \<Rightarrow> int \<times> proxy_msg \<times> bytes \<times> os" where
  "proxy_client_recv s ch msg buff_len =
     (case conn_recv s (the (ch_priv ch)) 9 of (ret, d, s) \<Rightarrow>
        let msg = msg_of_bytes (memcpy_at (msg_bytes msg) 0 d)
        in if ret \<ge> 0 \<and> msg_size msg > 0
           then
             if unat (msg_size msg) > buff_len then (- ENOSPC, msg, [], s)
             else case conn_recv s (the (ch_priv ch)) (unat (msg_size msg)) of (ret, d, s) \<Rightarrow> (ret, msg, d, s)
           else (ret, msg, [], s))"

definition proxy_client_send :: "os \<Rightarrow> proxy_client_handle \<Rightarrow> proxy_msg \<Rightarrow> bytes \<Rightarrow> int \<times> os" where
  "proxy_client_send s ch msg buff =
     (case conn_send s (the (ch_priv ch)) (msg_bytes msg) of (ret, s) \<Rightarrow>
        if ret \<ge> 0 \<and> msg_size msg > 0
        then conn_send s (the (ch_priv ch)) (take (unat (msg_size msg)) buff)
        else (ret, s))"

section \<open>Specification\<close>

definition client_blocks :: "proxy_client_handle \<Rightarrow> int" where
  "client_blocks ch = (case ch_priv ch of None \<Rightarrow> 0 | Some conn \<Rightarrow> 1 + conn_blocks conn)"

definition client_callsign :: "proxy_client_handle \<Rightarrow> bytes" where
  "client_callsign ch = (case ch_callsign ch of None \<Rightarrow> [] | Some c \<Rightarrow> bytes_of_string c)"

text \<open>The server at the other end of the next connection: it is ready to send the nonce \<open>rnd\<close> and
  then \<open>rest\<close>, and takes what it is sent.\<close>

definition greets :: "sock \<Rightarrow> u32 \<Rightarrow> bytes \<Rightarrow> bool" where
  "greets k rnd rest \<longleftrightarrow>
     no_dgram (sk_rx k) \<and> \<not> sk_shut k \<and> sk_tx k = [] \<and>
     sk_stream k = bytes_of_string (digest_to_hex32 rnd) @ rest"

text \<open>A client and a digest context for the witnesses.\<close>

definition wit_client :: proxy_client_handle where
  "wit_client = \<lparr>ch_priv = Some (wit_conn\<lparr>c_priv := Some ((cpriv wit_conn)\<lparr>cp_sock_fd := - 1, cp_fd := - 1\<rparr>)\<rparr>),
     ch_host_addr = ''localhost'', ch_host_port = ''8100'', ch_callsign = Some ''KM0H'', ch_password = None\<rparr>"

section \<open>Lemmas\<close>

lemma client_answer_good:
  assumes "conn_good s conn k" and "length (ctx_buffer ctx) = 64"
    and "length (client_password ch) + 8 < 2 ^ 32"
  shows "\<exists>s'. client_answer ctx s ch conn (bytes_of_string (digest_to_hex32 rnd)) =
      (0, ch\<lparr>ch_priv := Some conn\<rparr>, s') \<and>
    conn_good s' conn (k\<lparr>sk_wire := sk_wire k @ login_bytes rnd (client_password ch) (client_callsign ch)\<rparr>)"
proof -
  note resp = get_password_response_digest [OF assms(2,3)]
  define k1 where "k1 = k\<lparr>sk_wire := sk_wire k @ client_callsign ch\<rparr>"
  have "\<exists>s1. (case ch_callsign ch of None \<Rightarrow> (0, s)
      | Some callsign \<Rightarrow> conn_send s conn (bytes_of_string callsign)) = (0, s1) \<and> conn_good s1 conn k1"
    using assms(1) conn_good_send [OF assms(1)] by (cases "ch_callsign ch") (auto simp: client_callsign_def k1_def)
  then obtain s1 where 1: "(case ch_callsign ch of None \<Rightarrow> (0, s)
      | Some callsign \<Rightarrow> conn_send s conn (bytes_of_string callsign)) = (0, s1)" "conn_good s1 conn k1"
    by blast
  obtain s2 where 2: "conn_send s1 conn [byte_of_char LF] = (0, s2)"
    "conn_good s2 conn (k1\<lparr>sk_wire := sk_wire k1 @ [byte_of_char LF]\<rparr>)"
    using conn_good_send [OF 1(2)] by blast
  obtain s3 where 3: "conn_send s2 conn (password_digest rnd (client_password ch)) = (0, s3)"
    "conn_good s3 conn (k\<lparr>sk_wire := sk_wire k @ login_bytes rnd (client_password ch) (client_callsign ch)\<rparr>)"
    using conn_good_send [OF 2(2), of "password_digest rnd (client_password ch)"]
    by (auto simp: k1_def login_bytes_def)
  then show ?thesis
    using 1(1) 2(1) by (simp add: client_answer_def resp comp_def)
qed

lemma client_connect_good:
  assumes "conn_connect s (the (ch_priv ch)) (ch_host_addr ch) (ch_host_port ch) = (0, conn, s1)"
    and "c_priv (the (ch_priv ch)) \<noteq> None" and "next_fd s \<noteq> - 1" and "greets (next_peer s) rnd rest"
    and "length (ctx_buffer ctx) = 64" and "length (client_password ch) + 8 < 2 ^ 32"
  shows "\<exists>s' k. proxy_client_connect ctx s ch = (0, ch\<lparr>ch_priv := Some conn\<rparr>, s') \<and>
    cp_fd (cpriv conn) = next_fd s \<and> conn_good s' conn k \<and> sk_stream k = rest \<and>
    sk_wire k = sk_wire (next_peer s) @ login_bytes rnd (client_password ch) (client_callsign ch)"
proof -
  note c = conn_connect_peer [OF assms(1,2)]
  then have g: "conn_good s1 conn (next_peer s)"
    using assms(3,4) by (simp add: conn_good_def conn_up_def greets_def)
  obtain s2 k2 where 2: "conn_recv s1 conn 8 = (8, bytes_of_string (digest_to_hex32 rnd), s2)"
    "conn_good s2 conn k2" "sk_stream k2 = rest" "sk_wire k2 = sk_wire (next_peer s)"
    using conn_good_recv [OF g, of "bytes_of_string (digest_to_hex32 rnd)" rest] assms(4)
    by (auto simp: greets_def)
  from client_answer_good [OF 2(2) assms(5,6), of rnd] obtain s' where
    "client_answer ctx s2 ch conn (bytes_of_string (digest_to_hex32 rnd)) = (0, ch\<lparr>ch_priv := Some conn\<rparr>, s')"
    "conn_good s' conn (k2\<lparr>sk_wire := sk_wire k2 @ login_bytes rnd (client_password ch) (client_callsign ch)\<rparr>)"
    by blast
  then show ?thesis
    using assms(1) c 2 by (auto simp: proxy_client_connect_def conn_good_wire)
qed

text \<open>A failed attempt closes what it opened.\<close>

lemma client_connect_exit_restores:
  assumes "holds_new s r conn s1" and "client_connect_exit ret s1 ch conn = (r', ch', s')"
  shows "r' = ret \<and> socks s' = socks s \<and> conn_closed (the (ch_priv ch'))"
proof -
  obtain conn' s2 where c: "conn_close s1 conn = (conn', s2)"
    by (metis surj_pair)
  show ?thesis
    using holds_new_close [OF assms(1) c] assms(2) c by (auto simp: client_connect_exit_def)
qed

lemma client_answer_failed:
  assumes h: "holds_new s r0 conn s1" and fd: "cp_fd (cpriv conn) \<in> conn_fds conn"
    and run: "client_answer ctx s1 ch conn nonce_str = (r, ch', s')" and "r < 0"
  shows "socks s' = socks s \<and> conn_closed (the (ch_priv ch'))"
proof -
  obtain r1 resp where 1: "get_password_response ctx (hex32_to_digest (string_of_bytes nonce_str)) (client_password ch) = (r1, resp)"
    by (metis surj_pair)
  then have r1: "r1 = 0"
    by (simp add: get_password_response_def Let_def)
  obtain r2 s2 where 2: "(case ch_callsign ch of None \<Rightarrow> (r1, s1)
      | Some callsign \<Rightarrow> conn_send s1 conn (bytes_of_string callsign)) = (r2, s2)"
    by (metis surj_pair)
  then have h2: "holds_new s 0 conn s2"
    using holds_new_transfer [OF h _ fd, of s2 0] conn_transfer_only(2) [of s1 conn]
    by (cases "ch_callsign ch") auto
  obtain r3 s3 where 3: "conn_send s2 conn [byte_of_char LF] = (r3, s3)"
    by (metis surj_pair)
  then have h3: "holds_new s 0 conn s3"
    using holds_new_transfer [OF h2 conn_transfer_only(2) [OF 3] fd] by simp
  obtain r4 s4 where 4: "conn_send s3 conn resp = (r4, s4)"
    by (metis surj_pair)
  then have h4: "holds_new s 0 conn s4"
    using holds_new_transfer [OF h3 conn_transfer_only(2) [OF 4] fd] by simp
  consider "client_connect_exit r2 s2 ch conn = (r, ch', s')" | "client_connect_exit r3 s3 ch conn = (r, ch', s')"
    | "client_connect_exit r4 s4 ch conn = (r, ch', s')"
    using run 1 2 3 4 r1 \<open>r < 0\<close> by (auto simp: client_answer_def Let_def split: if_splits)
  then show ?thesis
    by cases (use client_connect_exit_restores h2 h3 h4 in blast)+
qed

lemma client_connect_failed:
  assumes wf: "os_wf s" and closed: "conn_closed (the (ch_priv ch))"
    and run: "proxy_client_connect ctx s ch = (r, ch', s')" and "r < 0"
  shows "socks s' = socks s \<and> conn_closed (the (ch_priv ch'))"
proof -
  obtain r1 conn s1 where 1: "conn_connect s (the (ch_priv ch)) (ch_host_addr ch) (ch_host_port ch) = (r1, conn, s1)"
    by (metis prod_cases3)
  note h1 = connecting.opens [OF wf closed 1]
  show ?thesis
  proof (cases "r1 < 0")
    case True
    then show ?thesis
      using run 1 client_connect_exit_restores [OF h1, of r1 ch r ch' s'] by (simp add: proxy_client_connect_def)
  next
    case False
    then have "r1 = 0"
      using h1 by (simp add: holds_new_def)
    moreover have "c_priv (the (ch_priv ch)) \<noteq> None"
      using conn_closed_priv [OF closed] by auto
    ultimately have fd: "cp_fd (cpriv conn) \<in> conn_fds conn"
      using conn_connect_peer [OF 1 [unfolded \<open>r1 = 0\<close>]] wf by (auto simp: conn_fds_def os_wf_def)
    obtain r2 d s2 where 2: "conn_recv s1 conn 8 = (r2, d, s2)"
      by (metis prod_cases3)
    have h2: "holds_new s 0 conn s2"
      using holds_new_transfer [OF h1 conn_transfer_only(1) [OF 2] fd] by simp
    show ?thesis
    proof (cases "r2 < 0")
      case True
      then show ?thesis
        using run 1 2 \<open>r1 = 0\<close> client_connect_exit_restores [OF h2, of r2 ch r ch' s']
        by (simp add: proxy_client_connect_def)
    next
      case False
      then have "client_answer ctx s2 ch conn d = (r, ch', s')"
        using run 1 2 \<open>r1 = 0\<close> by (simp add: proxy_client_connect_def)
      then show ?thesis
        using client_answer_failed [OF h2 fd] \<open>r < 0\<close> by blast
    qed
  qed
qed

text \<open>Messages.\<close>

lemma client_send_good:
  assumes "conn_good s (the (ch_priv ch)) k" and "sized (msg, d)"
  shows "\<exists>s'. proxy_client_send s ch msg d = (0, s') \<and>
    conn_good s' (the (ch_priv ch)) (k\<lparr>sk_wire := sk_wire k @ frames [(msg, d)]\<rparr>)"
proof -
  obtain s1 where 1: "conn_send s (the (ch_priv ch)) (msg_bytes msg) = (0, s1)"
    "conn_good s1 (the (ch_priv ch)) (k\<lparr>sk_wire := sk_wire k @ msg_bytes msg\<rparr>)"
    using conn_good_send [OF assms(1)] by blast
  show ?thesis
  proof (cases "msg_size msg = 0")
    case True
    then show ?thesis
      using 1 assms(2) by (simp add: proxy_client_send_def sized_def)
  next
    case False
    then have "msg_size msg > 0"
      by (simp add: word_neq_0_conv)
    then show ?thesis
      using 1 conn_good_send [OF 1(2), of d] assms(2) by (auto simp: proxy_client_send_def sized_def)
  qed
qed

lemma client_recv_good:
  assumes "conn_good s (the (ch_priv ch)) k" and "sized (msg, d)"
    and "sk_stream k = frames [(msg, d)] @ rest"
  shows "\<exists>s' k'. proxy_client_recv s ch msg0 n =
      (if length d > n then (- ENOSPC, msg, [], s')
       else (if d = [] then 9 else int (length d), msg, d, s')) \<and>
    conn_good s' (the (ch_priv ch)) k' \<and> sk_stream k' = (if length d > n then d @ rest else rest)"
proof -
  have "sk_stream k = msg_bytes msg @ d @ rest"
    using assms(3) by simp
  from conn_good_recv [OF assms(1) this] obtain s1 k1 where 1:
    "conn_recv s (the (ch_priv ch)) 9 = (9, msg_bytes msg, s1)" "conn_good s1 (the (ch_priv ch)) k1"
    "sk_stream k1 = d @ rest"
    by auto
  have m: "memcpy_at (msg_bytes msg0) 0 (msg_bytes msg) = msg_bytes msg"
    by (simp add: memcpy_at_def)
  have z: "0 < msg_size msg \<longleftrightarrow> d \<noteq> []"
    using assms(2) by (auto simp: sized_def word_greater_zero_iff unat_eq_zero)
  show ?thesis
    using 1 assms(2) conn_good_recv [OF 1(2,3)]
    by (auto simp: proxy_client_recv_def m z Let_def sized_def)
qed

text \<open>Life cycle.\<close>

lemma client_init_managed:
  assumes "proxy_client_init s ch = (r, ch', s')"
  shows "live s' - client_blocks ch' = live s - client_blocks ch \<and> r \<le> 0 \<and> (r < 0 \<longrightarrow> client_blocks ch' = 0)"
proof -
  obtain ok conn s1 where a: "(case ch_priv ch of
      None \<Rightarrow> (case os_alloc s of (ok, s) \<Rightarrow> (ok, new_conn, s))
    | Some conn \<Rightarrow> (True, conn, s)) = (ok, conn, s1)"
    by (metis prod_cases3)
  then have b: "live s1 - (if ok then 1 + conn_blocks conn else 0) = live s - client_blocks ch"
    and n: "\<not> ok \<Longrightarrow> ch_priv ch = None"
    by (auto simp: client_blocks_def conn_blocks_def new_conn_def dest: os_alloc_live split: option.splits prod.splits)
  obtain ret conn2 s2 where i: "conn_init s1 (conn\<lparr>c_type := CONN_TYPE_TCP\<rparr>) = (ret, conn2, s2)"
    by (metis prod_cases3)
  obtain conn3 s3 where f: "conn_free s2 conn2 = (conn3, s3)"
    by (metis surj_pair)
  have "conn_blocks (conn\<lparr>c_type := CONN_TYPE_TCP\<rparr>) = conn_blocks conn"
    by (simp add: conn_blocks_def)
  then show ?thesis
    using assms a b n i f conn.init_blocks [OF i] conn.init_result [OF i] conn.init_failed [OF i]
      conn.free_blocks [OF f]
    by (auto simp: proxy_client_init_def client_blocks_def split: if_splits)
qed

lemma client_free_managed:
  assumes "proxy_client_free s ch = (ch', s')"
    and "\<And>conn. ch_priv ch = Some conn \<Longrightarrow> c_priv conn \<noteq> None"
  shows "live s' = live s - client_blocks ch \<and> client_blocks ch' = 0"
proof (cases "ch_priv ch")
  case None
  with assms show ?thesis
    by (simp add: proxy_client_free_def client_blocks_def)
next
  case (Some conn)
  then obtain priv where p: "c_priv conn = Some priv"
    using assms(2) by blast
  obtain conn1 s1 where c: "conn_close s conn = (conn1, s1)"
    by (metis surj_pair)
  obtain conn2 s2 where f: "conn_free s1 conn1 = (conn2, s2)"
    by (metis surj_pair)
  show ?thesis
    using assms(1) Some c f conn_close_frame(1,3) [OF p c] p conn.free_blocks [OF f]
    by (auto simp: proxy_client_free_def proxy_client_disconnect_def client_blocks_def conn_blocks_def)
qed

lemma client_init_usable:
  assumes "proxy_client_init s ch = (r, ch', s')" and "ch_priv ch = None"
  shows "\<forall>conn. ch_priv ch' = Some conn \<longrightarrow> c_priv conn \<noteq> None"
proof -
  obtain ok s1 where a: "os_alloc s = (ok, s1)"
    by (metis surj_pair)
  obtain ret conn s2 where i: "conn_init s1 (new_conn\<lparr>c_type := CONN_TYPE_TCP\<rparr>) = (ret, conn, s2)"
    by (metis prod_cases3)
  have "ret = 0 \<Longrightarrow> conn_closed conn" and "ret \<le> 0"
    using conn_init_managed [OF i] by auto
  then have "\<not> ret < 0 \<Longrightarrow> c_priv conn \<noteq> None"
    using conn_closed_priv by fastforce
  then show ?thesis
    using assms a i by (auto simp: proxy_client_init_def split: if_splits prod.splits)
qed

interpretation client: managed_fresh proxy_client_init proxy_client_free client_blocks
  "\<lambda>ch. ch_priv ch = None" "\<lambda>ch. \<forall>conn. ch_priv ch = Some conn \<longrightarrow> c_priv conn \<noteq> None"
proof
  fix h s r h' s'
  assume "ch_priv h = None" and i: "proxy_client_init s h = (r, h', s')"
  then show "live s' - client_blocks h' = live s - client_blocks h \<and> (r \<noteq> 0 \<longrightarrow> client_blocks h' = 0) \<and>
      (\<forall>conn. ch_priv h' = Some conn \<longrightarrow> c_priv conn \<noteq> None)"
    using client_init_managed [OF i] client_init_usable [OF i] by auto
next
  fix h s h' s'
  assume "\<forall>conn. ch_priv h = Some conn \<longrightarrow> c_priv conn \<noteq> None" and "proxy_client_free s h = (h', s')"
  then show "live s' = live s - client_blocks h \<and> client_blocks h' = 0"
    using client_free_managed by blast
qed

section \<open>Properties\<close>





end
