(* ===== verification/Pearson.thy ===== *)
theory Pearson
  imports Prelude
begin

text \<open>
  src/pearson.c: the 8-bit Pearson hash that selects the callsign bucket of the proxy.
\<close>

section \<open>The code\<close>

definition permutation_table :: "u8 list" where
  "permutation_table =
  [5, 42, 6, 37, 103, 84, 75, 83,
   219, 54, 116, 223, 192, 239, 163, 154,
   114, 189, 206, 105, 92, 76, 162, 225,
   158, 125, 74, 234, 160, 29, 153, 198,
   132, 34, 93, 86, 161, 159, 181, 66,
   197, 82, 204, 59, 237, 134, 36, 57,
   95, 39, 90, 32, 150, 217, 30, 202,
   174, 89, 38, 216, 117, 52, 169, 232,
   43, 254, 126, 222, 170, 129, 49, 207,
   73, 138, 120, 25, 27, 190, 100, 229,
   172, 67, 199, 210, 214, 218, 62, 18,
   97, 63, 101, 7, 20, 187, 131, 179,
   188, 247, 135, 68, 195, 71, 85, 144,
   107, 241, 182, 231, 98, 60, 245, 91,
   119, 87, 12, 51, 146, 96, 47, 45,
   22, 40, 1, 205, 88, 215, 141, 108,
   139, 23, 133, 78, 61, 21, 72, 226,
   183, 53, 106, 173, 224, 31, 44, 80,
   104, 167, 145, 81, 46, 10, 244, 193,
   246, 55, 112, 19, 58, 176, 221, 255,
   209, 196, 147, 14, 127, 79, 111, 157,
   249, 26, 177, 168, 212, 69, 13, 115,
   238, 227, 180, 33, 230, 109, 228, 121,
   142, 156, 28, 64, 110, 118, 165, 184,
   3, 149, 128, 203, 220, 186, 50, 213,
   171, 201, 164, 242, 191, 11, 152, 178,
   252, 194, 123, 48, 2, 130, 24, 124,
   113, 248, 251, 137, 253, 208, 99, 136,
   166, 0, 65, 4, 185, 15, 250, 235,
   16, 9, 200, 211, 35, 175, 70, 155,
   243, 240, 143, 122, 236, 233, 8, 148,
   102, 56, 77, 41, 94, 140, 17, 151]"

text \<open>The loop of \<open>pearson_get\<close> over the bytes that are left, and the function itself.\<close>

fun pearson_loop :: "u8 \<Rightarrow> bytes \<Rightarrow> u8" where
  "pearson_loop ret [] = ret"
| "pearson_loop ret (d # data) = pearson_loop (permutation_table ! unat (ret XOR d)) data"

definition pearson_get :: "bytes \<Rightarrow> u8" where
  "pearson_get data =
     (let ret = of_nat (length data mod 256)
      in if length data = 0 then 0 else pearson_loop ret data)"

section \<open>Lemmas\<close>

lemma length_permutation_table: "length permutation_table = 256"
  by (simp add: permutation_table_def)

lemma distinct_permutation_table: "distinct permutation_table"
proof -
  have "distinct (map uint permutation_table)"
    by (simp add: permutation_table_def)
  then show ?thesis
    by (simp add: distinct_map)
qed

lemma inj_table_step: "inj (\<lambda>b. permutation_table ! unat (ret XOR b))" for ret :: u8
proof (rule injI)
  fix a b :: u8
  have lt: "unat x < length permutation_table" for x :: u8
    using unsigned_less [of x, where ?'a = nat] by (simp add: length_permutation_table)
  assume "permutation_table ! unat (ret XOR a) = permutation_table ! unat (ret XOR b)"
  then have "ret XOR a = ret XOR b"
    using nth_eq_iff_index_eq [OF distinct_permutation_table lt lt] by (simp add: word_unat_eq_iff)
  then have "ret XOR (ret XOR a) = ret XOR (ret XOR b)"
    by simp
  then show "a = b"
    by (simp only: xor.assoc [symmetric]) simp
qed

lemma inj_table_state: "inj (\<lambda>ret. permutation_table ! unat (ret XOR b))" for b :: u8
  using inj_table_step [of b] by (simp add: xor.commute)

lemma pearson_loop_append: "pearson_loop ret (xs @ ys) = pearson_loop (pearson_loop ret xs) ys"
  by (induction xs arbitrary: ret) simp_all

lemma inj_pearson_loop: "inj (\<lambda>ret. pearson_loop ret data)"
proof (induction data)
  case (Cons d data)
  then show ?case
    using inj_compose [OF Cons inj_table_state [of d]] by (simp add: comp_def)
qed (simp add: inj_def)

section \<open>Properties\<close>

text \<open>C7: the hash spreads evenly.  With every other byte of a non-empty datum fixed, the byte
  at any one position determines the hash one to one: all 256 buckets are reached, each by
  exactly one value of that byte.\<close>

theorem pearson_get_bij: "bij (\<lambda>b. pearson_get (xs @ b # ys))"
proof -
  let ?r = "pearson_loop (of_nat (length (xs @ undefined # ys) mod 256)) xs"
  have "(\<lambda>b. pearson_get (xs @ b # ys)) =
      (\<lambda>ret. pearson_loop ret ys) \<circ> (\<lambda>b. permutation_table ! unat (?r XOR b))"
    by (auto simp: pearson_get_def pearson_loop_append Let_def)
  then have "inj (\<lambda>b. pearson_get (xs @ b # ys))"
    using inj_compose [OF inj_pearson_loop inj_table_step, of ys ?r] by simp
  then show ?thesis
    by (simp add: bij_def finite_UNIV_inj_surj)
qed

end
