(* ===== verification/Worker.thy ===== *)
theory Worker
  imports Thread
begin

text \<open>
  src/worker.c: a thread that waits for work signals and services them.

  The first part has the functions of the file as they act on the handle: creation and
  destruction with their error paths, and the sections under the worker's mutex that the callers
  run.  The second part is the interleaving: the worker's thread against any callers, as the step
  relation \<open>wstep\<close>.  Since every access to the state is made under the exclusive lock, one step is
  one such section; the thread is outside it only while it is starting, runs \<open>func_ptr\<close>, waits on
  the condition variable or has returned.  \<open>owed\<close> is a history variable: a call of
  \<open>worker_wake\<close> has returned 0 and \<open>func_ptr\<close> has not been called since.
\<close>

section \<open>State\<close>

datatype worker_state =
    WORKER_STOPPED
  | WORKER_STOPPING
  | WORKER_STOPPING_AFTER_WORK
  | WORKER_BUSY
  | WORKER_SIGNALED
  | WORKER_IDLE
  | WORKER_STARTING

fun worker_num :: "worker_state \<Rightarrow> nat" where
  "worker_num WORKER_STOPPED = 0"
| "worker_num WORKER_STOPPING = 1"
| "worker_num WORKER_STOPPING_AFTER_WORK = 2"
| "worker_num WORKER_BUSY = 3"
| "worker_num WORKER_SIGNALED = 4"
| "worker_num WORKER_IDLE = 5"
| "worker_num WORKER_STARTING = 6"

text \<open>The order of the enumeration, which the code compares with.\<close>

instantiation worker_state :: linorder
begin

definition less_eq_worker_state :: "worker_state \<Rightarrow> worker_state \<Rightarrow> bool" where
  "less_eq_worker_state a b \<longleftrightarrow> worker_num a \<le> worker_num b"

definition less_worker_state :: "worker_state \<Rightarrow> worker_state \<Rightarrow> bool" where
  "less_worker_state a b \<longleftrightarrow> worker_num a < worker_num b"

instance
proof
  fix a b c :: worker_state
  have inj: "worker_num a = worker_num b \<Longrightarrow> a = b"
    by (cases a; cases b) simp_all
  show "a < b \<longleftrightarrow> a \<le> b \<and> \<not> b \<le> a" and "a \<le> a" and "a \<le> b \<Longrightarrow> b \<le> c \<Longrightarrow> a \<le> c"
    and "a \<le> b \<or> b \<le> a"
    by (auto simp: less_eq_worker_state_def less_worker_state_def)
  show "a \<le> b \<Longrightarrow> b \<le> a \<Longrightarrow> a = b"
    unfolding less_eq_worker_state_def by (rule inj) (rule antisym)
qed

end

record worker_priv =
  wk_condvar :: condvar_handle
  wk_condvar_idle :: condvar_handle
  wk_mutex :: mutex_handle
  wk_thread :: thread_handle
  wk_state :: worker_state

record worker_handle =
  w_priv :: "worker_priv option"
  w_stack_size :: u32
  w_periodic_wake :: u32

section \<open>The functions on the handle\<close>

text \<open>The sections under the lock, on the state alone: what \<open>worker_wake\<close>, \<open>worker_join\<close>,
  \<open>worker_start\<close> and \<open>worker_is_idle\<close> do there.\<close>

definition wake_section :: "worker_state \<Rightarrow> int \<times> worker_state" where
  "wake_section st = (if st > WORKER_STOPPING_AFTER_WORK then (0, WORKER_SIGNALED) else (- EINVAL, st))"

definition join_section :: "worker_state \<Rightarrow> worker_state" where
  "join_section st =
     (if st > WORKER_STOPPING_AFTER_WORK
      then (if st = WORKER_SIGNALED then WORKER_STOPPING_AFTER_WORK else WORKER_STOPPING)
      else st)"

definition idle_section :: "worker_state \<Rightarrow> bool" where
  "idle_section st \<longleftrightarrow> st \<ge> WORKER_IDLE"

text \<open>\<open>worker_wait_idle\<close> at its loop condition: the result if it returns now, None if it waits.\<close>

definition wait_idle_section :: "worker_state \<Rightarrow> int option" where
  "wait_idle_section st =
     (if st < WORKER_IDLE then (if st < WORKER_BUSY then Some (- EINVAL) else None) else Some 0)"

definition worker_wake :: "worker_handle \<Rightarrow> int \<times> worker_handle" where
  "worker_wake wh =
     (let priv = the (w_priv wh); (ret, st) = wake_section (wk_state priv)
      in (ret, wh\<lparr>w_priv := Some (priv\<lparr>wk_state := st\<rparr>)\<rparr>))"

definition worker_is_idle :: "worker_handle \<Rightarrow> bool" where
  "worker_is_idle wh = idle_section (wk_state (the (w_priv wh)))"

text \<open>\<open>worker_wait_idle\<close> waits until the thread has finished its work and is idle again.\<close>

definition worker_wait_idle :: "worker_handle \<Rightarrow> int \<times> worker_handle" where
  "worker_wait_idle wh =
     (let priv = the (w_priv wh)
      in case wait_idle_section (wk_state priv) of
           Some ret \<Rightarrow> (ret, wh)
         | None \<Rightarrow> (0, wh\<lparr>w_priv := Some (priv\<lparr>wk_state := WORKER_IDLE\<rparr>)\<rparr>))"

text \<open>\<open>worker_join\<close> waits for the thread, which leaves the state stopped (shown below for the
  interleaving); a worker that was never started keeps its state.\<close>

definition worker_join :: "os \<Rightarrow> worker_handle \<Rightarrow> int \<times> worker_handle \<times> os" where
  "worker_join s wh =
     (let priv = the (w_priv wh);
          st = join_section (wk_state priv);
          st = (if th_dirty (the (th_priv (wk_thread priv))) then WORKER_STOPPED else st)
      in case thread_join s (wk_thread priv) of (ret, th, s) \<Rightarrow>
           (ret, wh\<lparr>w_priv := Some (priv\<lparr>wk_state := st, wk_thread := th\<rparr>)\<rparr>, s))"

definition worker_start :: "os \<Rightarrow> worker_handle \<Rightarrow> int \<times> worker_handle \<times> os" where
  "worker_start s wh =
     (let priv = the (w_priv wh)
      in if wk_state priv \<le> WORKER_STOPPED
         then
           case thread_start s (wk_thread priv) of (ret, th, s) \<Rightarrow>
             (ret, wh\<lparr>w_priv := Some (priv\<lparr>wk_state := WORKER_STARTING, wk_thread := th\<rparr>)\<rparr>, s)
         else (0, wh, s))"

definition worker_free :: "os \<Rightarrow> worker_handle \<Rightarrow> worker_handle \<times> os" where
  "worker_free s wh =
     (if w_priv wh \<noteq> None
      then
        case worker_join s wh of (_, wh, s) \<Rightarrow>
          let priv = the (w_priv wh)
          in case thread_free s (wk_thread priv) of (_, s) \<Rightarrow>
             case mutex_free s (wk_mutex priv) of (_, s) \<Rightarrow>
             case condvar_free s (wk_condvar_idle priv) of (_, s) \<Rightarrow>
             case condvar_free s (wk_condvar priv) of (_, s) \<Rightarrow>
               (wh\<lparr>w_priv := None\<rparr>, os_free s)
      else (wh, s))"

definition new_worker_priv :: worker_priv where
  "new_worker_priv =
     \<lparr>wk_condvar = None, wk_condvar_idle = None, wk_mutex = None,
      wk_thread = \<lparr>th_priv = None, th_stack_size = 0\<rparr>, wk_state = WORKER_STOPPED\<rparr>"

text \<open>The clean-up at the label of \<open>worker_init\<close>.\<close>

definition worker_init_exit :: "int \<Rightarrow> os \<Rightarrow> worker_handle \<Rightarrow> worker_priv \<Rightarrow> int \<times> worker_handle \<times> os" where
  "worker_init_exit ret s wh priv =
     (case mutex_free s (wk_mutex priv) of (_, s) \<Rightarrow>
      case condvar_free s (wk_condvar_idle priv) of (_, s) \<Rightarrow>
      case condvar_free s (wk_condvar priv) of (_, s) \<Rightarrow>
        (ret, wh\<lparr>w_priv := None\<rparr>, os_free s))"

definition worker_init :: "os \<Rightarrow> worker_handle \<Rightarrow> int \<times> worker_handle \<times> os" where
  "worker_init s wh =
     (let (ok, priv, s) =
            (case w_priv wh of
               None \<Rightarrow> (case os_alloc s of (ok, s) \<Rightarrow> (ok, new_worker_priv, s))
             | Some priv \<Rightarrow> (True, priv, s))
      in if \<not> ok then (- ENOMEM, wh, s)
         else
           case condvar_init s (wk_condvar priv) of (ret, c, s) \<Rightarrow>
             let priv = priv\<lparr>wk_condvar := c\<rparr>
             in if ret < 0 then worker_init_exit ret s wh priv
             else
               case condvar_init s (wk_condvar_idle priv) of (ret, c, s) \<Rightarrow>
                 let priv = priv\<lparr>wk_condvar_idle := c\<rparr>
                 in if ret < 0 then worker_init_exit ret s wh priv
                 else
                   case mutex_init s (wk_mutex priv) of (ret, m, s) \<Rightarrow>
                     let priv = priv\<lparr>wk_mutex := m\<rparr>
                     in if ret < 0 then worker_init_exit ret s wh priv
                     else
                       case thread_init s ((wk_thread priv)\<lparr>th_stack_size := w_stack_size wh\<rparr>) of (ret, th, s) \<Rightarrow>
                         let priv = priv\<lparr>wk_thread := th\<rparr>
                         in if ret < 0 then worker_init_exit ret s wh priv
                         else (0, wh\<lparr>w_priv := Some priv\<rparr>, s))"

definition worker_blocks :: "worker_handle \<Rightarrow> int" where
  "worker_blocks wh =
     (case w_priv wh of None \<Rightarrow> 0
      | Some priv \<Rightarrow> 1 + handle_blocks (wk_condvar priv) + handle_blocks (wk_condvar_idle priv) +
          handle_blocks (wk_mutex priv) + thread_blocks (wk_thread priv))"

definition worker_usable :: "worker_handle \<Rightarrow> bool" where
  "worker_usable wh \<longleftrightarrow> (\<forall>priv. w_priv wh = Some priv \<longrightarrow> th_priv (wk_thread priv) \<noteq> None)"

text \<open>A worker whose parts are all set up, and a zeroed handle.\<close>

definition worker_ready :: "worker_handle \<Rightarrow> bool" where
  "worker_ready wh \<longleftrightarrow> (\<exists>priv. w_priv wh = Some priv \<and> th_priv (wk_thread priv) \<noteq> None)"

definition new_worker :: worker_handle where
  "new_worker = \<lparr>w_priv = None, w_stack_size = 0, w_periodic_wake = 0\<rparr>"

section \<open>The interleaving\<close>

datatype wpc =
    NoThread       \<comment> \<open>not created\<close>
  | Starting       \<comment> \<open>created, before the first \<open>mutex_lock\<close>\<close>
  | Running        \<comment> \<open>inside \<open>func_ptr\<close>\<close>
  | Waiting        \<comment> \<open>inside \<open>condvar_wait\<close> or \<open>condvar_wait_time\<close>\<close>
  | Woken          \<comment> \<open>woken there, before it has the lock again\<close>
  | Exited         \<comment> \<open>returned\<close>

record wsys =
  ws_state :: worker_state
  ws_pc :: wpc
  ws_owed :: bool
  ws_runs :: nat

text \<open>From the head of the outer loop to the next place where the thread gives up the lock:
  \<open>func_ptr\<close>, the wait, or the end.  A return of \<open>func_ptr\<close> leads to the same tests.\<close>

definition worker_turn :: "worker_state \<Rightarrow> worker_state \<times> wpc" where
  "worker_turn st =
     (if st > WORKER_STOPPING
      then
        if st = WORKER_SIGNALED \<or> st = WORKER_STOPPING_AFTER_WORK
        then (if st = WORKER_STOPPING_AFTER_WORK then WORKER_STOPPING else WORKER_BUSY, Running)
        else (WORKER_IDLE, Waiting)
      else (WORKER_STOPPED, Exited))"

definition take_turn :: "worker_state \<Rightarrow> wsys \<Rightarrow> wsys" where
  "take_turn st w =
     (case worker_turn st of (st', pc) \<Rightarrow>
        w\<lparr>ws_state := st', ws_pc := pc, ws_owed := (ws_owed w \<and> pc \<noteq> Running),
          ws_runs := ws_runs w + (if pc = Running then 1 else 0)\<rparr>)"

text \<open>The thread wakes up from its wait, with or without a periodic wake.\<close>

definition after_wait :: "bool \<Rightarrow> worker_state \<Rightarrow> worker_state" where
  "after_wait periodic st = (if periodic \<and> st = WORKER_IDLE then WORKER_SIGNALED else st)"

text \<open>\<open>condvar_wake_all\<close> on the condition variable of the thread.\<close>

definition wake_thread :: "wpc \<Rightarrow> wpc" where
  "wake_thread pc = (if pc = Waiting then Woken else pc)"

text \<open>The steps of the thread, and those of the callers; \<open>mayfail\<close> allows \<open>thread_start\<close> to fail.\<close>

inductive thread_step :: "bool \<Rightarrow> wsys \<Rightarrow> wsys \<Rightarrow> bool" for periodic :: bool where
  enter: "ws_pc w = Starting \<Longrightarrow> thread_step periodic w (take_turn (ws_state w) w)"
| serviced: "ws_pc w = Running \<Longrightarrow> thread_step periodic w (take_turn (ws_state w) w)"
| resume: "ws_pc w = Woken \<Longrightarrow> thread_step periodic w (take_turn (after_wait periodic (ws_state w)) w)"

inductive call_step :: "bool \<Rightarrow> wsys \<Rightarrow> wsys \<Rightarrow> bool" for mayfail :: bool where
  wake: "wake_section (ws_state w) = (ret, st) \<Longrightarrow>
    call_step mayfail w (w\<lparr>ws_state := st, ws_owed := (ws_owed w \<or> ret = 0),
      ws_pc := (if ret = 0 \<and> ws_state w = WORKER_IDLE then wake_thread (ws_pc w) else ws_pc w)\<rparr>)"
| join: "call_step mayfail w (w\<lparr>ws_state := join_section (ws_state w),
      ws_pc := (if ws_state w = WORKER_IDLE then wake_thread (ws_pc w) else ws_pc w)\<rparr>)"
| start: "ws_state w \<le> WORKER_STOPPED \<Longrightarrow>
    call_step mayfail w (w\<lparr>ws_state := WORKER_STARTING, ws_pc := Starting\<rparr>)"
| start_failed: "mayfail \<Longrightarrow> ws_state w \<le> WORKER_STOPPED \<Longrightarrow>
    call_step mayfail w (w\<lparr>ws_state := WORKER_STARTING, ws_pc := NoThread\<rparr>)"
| start_running: "\<not> ws_state w \<le> WORKER_STOPPED \<Longrightarrow> call_step mayfail w w"

text \<open>A waiting thread may also wake by itself or by its timeout.\<close>

inductive wstep :: "bool \<Rightarrow> bool \<Rightarrow> wsys \<Rightarrow> wsys \<Rightarrow> bool" for mayfail periodic :: bool where
  thread: "thread_step periodic w w' \<Longrightarrow> wstep mayfail periodic w w'"
| caller: "call_step mayfail w w' \<Longrightarrow> wstep mayfail periodic w w'"
| timeout: "ws_pc w = Waiting \<Longrightarrow> wstep mayfail periodic w (w\<lparr>ws_pc := Woken\<rparr>)"

definition wsys_init :: wsys where
  "wsys_init = \<lparr>ws_state = WORKER_STOPPED, ws_pc = NoThread, ws_owed = False, ws_runs = 0\<rparr>"

inductive wreach :: "bool \<Rightarrow> bool \<Rightarrow> wsys \<Rightarrow> bool" for mayfail periodic :: bool where
  init: "wreach mayfail periodic wsys_init"
| step: "wreach mayfail periodic w \<Longrightarrow> wstep mayfail periodic w w' \<Longrightarrow> wreach mayfail periodic w'"

text \<open>What the state says about the thread.\<close>

fun state_agrees :: "worker_state \<Rightarrow> wpc \<Rightarrow> bool" where
  "state_agrees WORKER_STOPPED pc \<longleftrightarrow> pc = NoThread \<or> pc = Exited"
| "state_agrees WORKER_STARTING pc \<longleftrightarrow> pc = Starting"
| "state_agrees WORKER_IDLE pc \<longleftrightarrow> pc = Waiting \<or> pc = Woken"
| "state_agrees WORKER_BUSY pc \<longleftrightarrow> pc = Running"
| "state_agrees _ pc \<longleftrightarrow> pc = Starting \<or> pc = Running \<or> pc = Woken"

definition winv :: "wsys \<Rightarrow> bool" where
  "winv w \<longleftrightarrow> state_agrees (ws_state w) (ws_pc w) \<and>
     (ws_owed w \<longrightarrow> ws_state w = WORKER_SIGNALED \<or> ws_state w = WORKER_STOPPING_AFTER_WORK)"

section \<open>Lemmas on the interleaving\<close>

lemmas worker_order = less_eq_worker_state_def less_worker_state_def

lemma worker_turn_cases:
  "worker_turn WORKER_STOPPED = (WORKER_STOPPED, Exited)"
  "worker_turn WORKER_STOPPING = (WORKER_STOPPED, Exited)"
  "worker_turn WORKER_STOPPING_AFTER_WORK = (WORKER_STOPPING, Running)"
  "worker_turn WORKER_BUSY = (WORKER_IDLE, Waiting)"
  "worker_turn WORKER_SIGNALED = (WORKER_BUSY, Running)"
  "worker_turn WORKER_IDLE = (WORKER_IDLE, Waiting)"
  "worker_turn WORKER_STARTING = (WORKER_IDLE, Waiting)"
  by (simp_all add: worker_turn_def worker_order)

lemma winv_turn:
  assumes "ws_owed w \<longrightarrow> st = WORKER_SIGNALED \<or> st = WORKER_STOPPING_AFTER_WORK"
  shows "winv (take_turn st w)"
  using assms by (cases st) (auto simp: take_turn_def winv_def worker_turn_cases)

lemma winv_owed:
  "winv w \<Longrightarrow> ws_owed w \<Longrightarrow> ws_state w = WORKER_SIGNALED \<or> ws_state w = WORKER_STOPPING_AFTER_WORK"
  by (simp add: winv_def)

lemma winv_thread: "thread_step periodic w w' \<Longrightarrow> winv w \<Longrightarrow> winv w'"
  by (cases rule: thread_step.cases) (auto intro!: winv_turn simp: after_wait_def dest: winv_owed)

lemma state_agrees_Woken: "state_agrees st Waiting \<Longrightarrow> state_agrees st Woken"
  by (cases st) simp_all

lemma winv_call: "call_step False w w' \<Longrightarrow> winv w \<Longrightarrow> winv w'"
proof (induction rule: call_step.induct)
  case (wake w ret st)
  then show ?case
    by (cases "ws_state w") (auto simp: winv_def wake_section_def worker_order wake_thread_def)
next
  case (join w)
  then show ?case
    by (cases "ws_state w") (auto simp: winv_def join_section_def worker_order wake_thread_def)
next
  case (start w)
  then show ?case
    by (cases "ws_state w") (auto simp: winv_def worker_order)
qed simp_all

lemma winv_reach: "wreach False periodic w \<Longrightarrow> winv w"
proof (induction rule: wreach.induct)
  case init
  show ?case
    by (simp add: winv_def wsys_init_def)
next
  case (step w w')
  from step(2,3) show ?case
    by (cases rule: wstep.cases)
       (auto intro: winv_thread winv_call simp: winv_def [of "w\<lparr>ws_pc := Woken\<rparr>"] winv_def [of w]
         dest: state_agrees_Woken)
qed

lemma thread_step_Running:
  assumes "thread_step periodic w w'" and "winv w"
    and "ws_state w = WORKER_SIGNALED \<or> ws_state w = WORKER_STOPPING_AFTER_WORK"
  shows "ws_pc w' = Running \<and> ws_runs w' = Suc (ws_runs w) \<and> \<not> ws_owed w'"
  using assms by cases (auto simp: take_turn_def worker_turn_cases after_wait_def)

lemma thread_step_enabled:
  assumes "winv w" and "ws_state w \<noteq> WORKER_STOPPED" and "ws_state w \<noteq> WORKER_IDLE"
  shows "\<exists>w'. thread_step periodic w w'"
proof -
  have "ws_pc w = Starting \<or> ws_pc w = Running \<or> ws_pc w = Woken"
    using assms by (cases "ws_state w") (auto simp: winv_def)
  then show ?thesis
    using enter [of w periodic] serviced [of w periodic] resume [of w periodic] by blast
qed

section \<open>Lemmas on the life cycle\<close>

lemma thread_init_ok: "thread_init s pt = (r, pt', s') \<Longrightarrow> \<not> r < 0 \<Longrightarrow> th_priv pt' \<noteq> None"
  by (auto simp: thread_init_def Let_def split: option.splits prod.splits if_splits)

lemma worker_init_exit_live:
  assumes "worker_init_exit ret s wh priv = (r, wh', s')"
  shows "live s' = live s - (1 + handle_blocks (wk_condvar priv) + handle_blocks (wk_condvar_idle priv) +
      handle_blocks (wk_mutex priv)) \<and> w_priv wh' = None \<and> r = ret"
proof -
  obtain m s1 where 1: "mutex_free s (wk_mutex priv) = (m, s1)" by (metis surj_pair)
  obtain c s2 where 2: "condvar_free s1 (wk_condvar_idle priv) = (c, s2)" by (metis surj_pair)
  obtain d s3 where 3: "condvar_free s2 (wk_condvar priv) = (d, s3)" by (metis surj_pair)
  show ?thesis
    using assms 1 2 3 mutex.free_blocks [OF 1] condvar.free_blocks [OF 2] condvar.free_blocks [OF 3]
    by (auto simp: worker_init_exit_def)
qed

lemma worker_init_managed:
  assumes "w_priv wh = None" and "worker_init s wh = (r, wh', s')"
  shows "live s' - worker_blocks wh' = live s - worker_blocks wh \<and> r \<le> 0 \<and> (r \<noteq> 0 \<longrightarrow> worker_blocks wh' = 0) \<and>
    worker_usable wh'"
proof -
  obtain ok s0 where 0: "os_alloc s = (ok, s0)" by (metis surj_pair)
  obtain r1 c1 s1 where 1: "condvar_init s0 None = (r1, c1, s1)" by (metis prod_cases3)
  obtain r2 c2 s2 where 2: "condvar_init s1 None = (r2, c2, s2)" by (metis prod_cases3)
  obtain r3 m s3 where 3: "mutex_init s2 None = (r3, m, s3)" by (metis prod_cases3)
  define th0 where "th0 = \<lparr>th_priv = None, th_stack_size = w_stack_size wh\<rparr>"
  obtain r4 th s4 where 4: "thread_init s3 th0 = (r4, th, s4)" by (metis prod_cases3)
  note run = assms(2) [unfolded worker_init_def new_worker_priv_def, simplified assms(1) 0 1 2 3 Let_def
      option.case prod.case worker_priv.simps thread_handle.simps th0_def [symmetric] 4]
  have none: "thread_blocks th0 = 0" "worker_blocks wh = 0"
    by (simp_all add: thread_blocks_def th0_def worker_blocks_def assms(1))
  note f1 = condvar.init_blocks [OF 1] condvar.init_result [OF 1] condvar.init_failed [OF 1]
  note f2 = condvar.init_blocks [OF 2] condvar.init_result [OF 2] condvar.init_failed [OF 2]
  note f3 = mutex.init_blocks [OF 3] mutex.init_result [OF 3] mutex.init_failed [OF 3]
  note f4 = thread.init_blocks [OF 4] thread.init_result [OF 4] thread.init_failed [OF 4]
  show ?thesis
    using run none os_alloc_live [OF 0] f1 f2 f3 f4 thread_init_ok [OF 4] assms(1)
    by (auto simp: worker_blocks_def worker_usable_def split: if_splits dest!: worker_init_exit_live)
qed

lemma worker_join_live:
  assumes "w_priv wh = Some priv" and "th_priv (wk_thread priv) \<noteq> None" and "worker_join s wh = (r, wh', s')"
  obtains st th where "w_priv wh' = Some (priv\<lparr>wk_state := st, wk_thread := th\<rparr>)" "live s' = live s"
    "thread_blocks th = thread_blocks (wk_thread priv)" "th_priv th \<noteq> None"
proof -
  obtain r1 th s1 where j: "thread_join s (wk_thread priv) = (r1, th, s1)" by (metis prod_cases3)
  show ?thesis
    using that assms j thread_join_blocks [OF j assms(2)] by (auto simp: worker_join_def Let_def)
qed

lemma worker_free_managed:
  assumes "worker_usable wh" and "worker_free s wh = (wh', s')"
  shows "live s' = live s - worker_blocks wh \<and> worker_blocks wh' = 0"
proof (cases "w_priv wh")
  case None
  with assms(2) show ?thesis
    by (simp add: worker_free_def worker_blocks_def)
next
  case (Some priv)
  then have "th_priv (wk_thread priv) \<noteq> None"
    using assms(1) by (simp add: worker_usable_def)
  moreover obtain r wh1 s0 where 0: "worker_join s wh = (r, wh1, s0)" by (metis prod_cases3)
  ultimately obtain st th where j: "w_priv wh1 = Some (priv\<lparr>wk_state := st, wk_thread := th\<rparr>)"
    "live s0 = live s" "thread_blocks th = thread_blocks (wk_thread priv)"
    using worker_join_live [OF Some] by metis
  obtain x s1 where 1: "thread_free s0 th = (x, s1)" by (metis surj_pair)
  obtain m s2 where 2: "mutex_free s1 (wk_mutex priv) = (m, s2)" by (metis surj_pair)
  obtain c s3 where 3: "condvar_free s2 (wk_condvar_idle priv) = (c, s3)" by (metis surj_pair)
  obtain d s4 where 4: "condvar_free s3 (wk_condvar priv) = (d, s4)" by (metis surj_pair)
  show ?thesis
    using assms(2) Some 0 1 2 3 4 j thread.free_blocks [OF 1] mutex.free_blocks [OF 2]
      condvar.free_blocks [OF 3] condvar.free_blocks [OF 4]
    by (auto simp: worker_free_def worker_blocks_def Let_def)
qed

interpretation worker: managed_fresh worker_init worker_free worker_blocks "\<lambda>wh. w_priv wh = None"
  worker_usable
  by unfold_locales (use worker_init_managed worker_free_managed in blast)+

lemma worker_ready_usable: "worker_ready wh \<Longrightarrow> worker_usable wh"
  by (auto simp: worker_ready_def worker_usable_def)

lemma worker_wait_idle_parts [simp]:
  "worker_ready wh \<Longrightarrow> worker_ready (snd (worker_wait_idle wh))"
  "worker_ready wh \<Longrightarrow> worker_blocks (snd (worker_wait_idle wh)) = worker_blocks wh"
  by (auto simp: worker_wait_idle_def worker_ready_def worker_blocks_def Let_def split: option.splits)

lemma worker_wake_ready: "worker_wake wh = (r, w) \<Longrightarrow> worker_ready wh \<Longrightarrow> worker_ready w"
  by (auto simp: worker_wake_def worker_ready_def Let_def split: prod.splits)

lemma worker_join_parts:
  assumes "worker_ready wh" and "worker_join s wh = (r, wh', s')"
  shows "worker_ready wh' \<and> worker_blocks wh' = worker_blocks wh \<and> live s' = live s \<and> socks s' = socks s"
proof -
  obtain priv where p: "w_priv wh = Some priv" "th_priv (wk_thread priv) \<noteq> None"
    using assms(1) by (auto simp: worker_ready_def)
  obtain st th where "w_priv wh' = Some (priv\<lparr>wk_state := st, wk_thread := th\<rparr>)" "live s' = live s"
    "thread_blocks th = thread_blocks (wk_thread priv)" "th_priv th \<noteq> None"
    using worker_join_live [OF p assms(2)] by metis
  moreover have "socks s' = socks s"
    using assms(2) by (auto simp: worker_join_def thread_join_def pthread_join_def os_try_def Let_def
        split: prod.splits if_splits list.splits)
  ultimately show ?thesis
    using p by (simp add: worker_ready_def worker_blocks_def)
qed

lemma worker_start_parts:
  assumes "worker_ready wh" and "worker_start s wh = (r, wh', s')"
  shows "worker_ready wh' \<and> worker_blocks wh' = worker_blocks wh \<and> live s' = live s"
  using assms
  by (auto simp: worker_start_def worker_ready_def worker_blocks_def thread_start_def thread_join_def pthread_create_def
      pthread_join_def thread_blocks_def Let_def dest!: os_try_frame split: if_splits prod.splits)

lemma worker_wake_parts:
  assumes "worker_ready wh" and "worker_wake wh = (r, wh')"
  shows "worker_ready wh' \<and> worker_blocks wh' = worker_blocks wh"
  using assms by (auto simp: worker_wake_def worker_ready_def worker_blocks_def Let_def split: prod.splits)

lemma worker_init_ready: "worker_init s wh = (0, wh', s') \<Longrightarrow> w_priv wh = None \<Longrightarrow> worker_ready wh'"
  using worker_init_managed [of wh s 0 wh' s']
  by (auto simp: worker_ready_def worker_usable_def worker_init_def worker_init_exit_def Let_def
      split: prod.splits if_splits)

section \<open>Properties\<close>


lemma reach_signaled:
  "wreach False False \<lparr>ws_state = WORKER_SIGNALED, ws_pc = Starting, ws_owed = True, ws_runs = 0\<rparr>"
proof -
  have "wreach False False (wsys_init\<lparr>ws_state := WORKER_STARTING, ws_pc := Starting\<rparr>)"
    by (rule wreach.step [OF wreach.init wstep.caller [OF call_step.start]]) (simp add: wsys_init_def worker_order)
  from wreach.step [OF this wstep.caller [OF call_step.wake [OF surjective_pairing]]]
  show ?thesis
    by (simp add: wsys_init_def wake_section_def worker_order)
qed




text \<open>A failed start loses work.  If \<open>thread_start\<close> fails, \<open>worker_start\<close> leaves the worker in the
  state STARTING without a thread; a later \<open>worker_wake\<close> returns 0 although nothing will ever
  service it, a later \<open>worker_start\<close> does nothing, and \<open>worker_is_idle\<close> holds before the wake.\<close>

theorem worker_failed_start_loses_work:
  "\<exists>w w'. wreach True periodic w \<and> idle_section (ws_state w) \<and> wstep True periodic w w' \<and>
     ws_owed w' \<and> (\<nexists>w''. thread_step periodic w' w'') \<and> \<not> ws_state w' \<le> WORKER_STOPPED"
proof -
  let ?w = "wsys_init\<lparr>ws_state := WORKER_STARTING, ws_pc := NoThread\<rparr>"
  let ?w' = "wsys_init\<lparr>ws_state := WORKER_SIGNALED, ws_pc := NoThread, ws_owed := True\<rparr>"
  have "wreach True periodic ?w"
    by (rule wreach.step [OF wreach.init wstep.caller [OF call_step.start_failed]])
       (simp_all add: wsys_init_def worker_order)
  moreover have "call_step True ?w ?w'"
    using call_step.wake [where w = ?w and ret = 0 and st = WORKER_SIGNALED and mayfail = True]
    by (simp add: wsys_init_def wake_section_def worker_order)
  then have "wstep True periodic ?w ?w'"
    by (rule wstep.caller)
  moreover have "\<nexists>w''. thread_step periodic ?w' w''"
    by (auto simp: wsys_init_def elim: thread_step.cases)
  ultimately show ?thesis
    by (intro exI [of _ ?w] exI [of _ ?w']) (simp add: wsys_init_def idle_section_def worker_order)
qed

end
