(* ===== verification/ProxyConn.thy ===== *)
theory ProxyConn
  imports Worker Message
begin

text \<open>
  src/proxy_conn.c: the slot that serves one logged-in client.

  \<open>proxy_conn_priv\<close> is the private data of a slot: the connection to the client (None for the NULL
  pointer), the two UDP connections and the TCP connection to the network, and the three workers
  that forward from those to the client.  The handle of the client's connection belongs to a
  worker of theory Proxy and is only borrowed here, so the functions that give it up return it.
  \<open>proxy_conn_process\<close> reads one message of the client and carries it out; \<open>forward_turn\<close> is one turn
  of the loop of a forwarder, \<open>forward_loop\<close> the whole loop and \<open>forwarder_control\<close>,
  \<open>forwarder_data\<close> and \<open>forwarder_tcp\<close> the functions the workers run.  A receive hands its bytes
  over as a list, so the buffers of the code do not appear.
\<close>

section \<open>State\<close>

record proxy_conn_priv =
  pv_conn_client :: "conn_handle option"
  pv_conn_control :: conn_handle
  pv_conn_data :: conn_handle
  pv_conn_tcp :: conn_handle
  pv_mutex_client :: mutex_handle
  pv_mutex_client_send :: mutex_handle
  pv_worker_control :: worker_handle
  pv_worker_data :: worker_handle
  pv_worker_tcp :: worker_handle
  pv_callsign :: string

record proxy_conn_handle =
  pc_priv :: "proxy_conn_priv option"
  pc_source_addr :: "string option"
  pc_control_port :: "string option"
  pc_data_port :: "string option"

abbreviation pcpriv :: "proxy_conn_handle \<Rightarrow> proxy_conn_priv" where
  "pcpriv pc \<equiv> the (pc_priv pc)"

abbreviation with_pcpriv :: "proxy_conn_handle \<Rightarrow> proxy_conn_priv \<Rightarrow> proxy_conn_handle" where
  "with_pcpriv pc priv \<equiv> pc\<lparr>pc_priv := Some priv\<rparr>"

abbreviation (input) CONN_BUFF_LEN :: nat where "CONN_BUFF_LEN \<equiv> 4096"
abbreviation (input) CONN_BUFF_LEN_HEADERLESS :: nat where "CONN_BUFF_LEN_HEADERLESS \<equiv> 4087"

section \<open>From the client to the network\<close>

definition send_tcp_close :: "os \<Rightarrow> proxy_conn_priv \<Rightarrow> int \<times> os" where
  "send_tcp_close s priv =
     conn_send s (the (pv_conn_client priv))
       (msg_bytes \<lparr>msg_type = type_byte PROXY_MSG_TYPE_TCP_CLOSE, msg_address = 0, msg_size = 0\<rparr>)"

text \<open>The loop of the two functions that relay UDP messages: \<open>todo\<close> (\<open>msg_size\<close> in the code) more bytes come from the
  client and go out in datagrams to the port \<open>port\<close> of \<open>addr\<close>.  A failure to send is only logged.\<close>

function relay_udp ::
    "os \<Rightarrow> conn_handle \<Rightarrow> conn_handle \<Rightarrow> nat \<Rightarrow> u32 \<Rightarrow> u16 \<Rightarrow> int \<times> os" where
  "relay_udp s client out todo addr port =
     (if todo = 0 then (0, s)
      else
        let curr_msg_size = (if todo > CONN_BUFF_LEN then CONN_BUFF_LEN else todo)
        in case conn_recv s client curr_msg_size of (ret, d, s) \<Rightarrow>
          if ret < 0 then (ret, s)
          else if ret = 0 then (- EPIPE, s)
          else
            case conn_send_to s out d addr port of (_, s) \<Rightarrow>
              relay_udp s client out (todo - nat ret) addr port)"
  by pat_completeness auto

termination
  by (relation "measure (\<lambda>(s, client, out, n, addr, port). n)") auto

definition process_control_data_message :: "os \<Rightarrow> proxy_conn_priv \<Rightarrow> proxy_msg \<Rightarrow> int \<times> os" where
  "process_control_data_message s priv msg =
     relay_udp s (the (pv_conn_client priv)) (pv_conn_control priv) (unat (msg_size msg)) (msg_address msg) 5199"

definition process_data_message :: "os \<Rightarrow> proxy_conn_priv \<Rightarrow> proxy_msg \<Rightarrow> int \<times> os" where
  "process_data_message s priv msg =
     relay_udp s (the (pv_conn_client priv)) (pv_conn_data priv) (unat (msg_size msg)) (msg_address msg) 5198"

definition process_tcp_close_message :: "os \<Rightarrow> proxy_conn_priv \<Rightarrow> int \<times> proxy_conn_priv \<times> os" where
  "process_tcp_close_message s priv =
     (case conn_close s (pv_conn_tcp priv) of (tcp, s) \<Rightarrow> (0, priv\<lparr>pv_conn_tcp := tcp\<rparr>, s))"

text \<open>The loop of \<open>process_tcp_data_message\<close>: its result, \<open>tcp_ret\<close> and the connection at its end.\<close>

function relay_tcp ::
    "os \<Rightarrow> conn_handle \<Rightarrow> conn_handle \<Rightarrow> nat \<Rightarrow> int \<Rightarrow> int \<times> int \<times> conn_handle \<times> os" where
  "relay_tcp s client tcp todo tcp_ret =
     (if todo = 0 then (0, tcp_ret, tcp, s)
      else
        let curr_msg_size = (if todo > CONN_BUFF_LEN then CONN_BUFF_LEN else todo)
        in case conn_recv s client curr_msg_size of (ret, d, s) \<Rightarrow>
          if ret < 0 then (ret, tcp_ret, tcp, s)
          else if ret = 0 then (- EPIPE, tcp_ret, tcp, s)
          else
            case (if tcp_ret = 0
                  then case conn_send s tcp d of (tcp_ret, s) \<Rightarrow>
                    if tcp_ret < 0 then (case conn_close s tcp of (tcp, s) \<Rightarrow> (tcp_ret, tcp, s))
                    else (tcp_ret, tcp, s)
                  else (tcp_ret, tcp, s)) of (tcp_ret, tcp, s) \<Rightarrow>
              relay_tcp s client tcp (todo - nat ret) tcp_ret)"
  by pat_completeness auto

termination
  by (relation "measure (\<lambda>(s, client, tcp, n, r). n)") auto

definition process_tcp_data_message :: "os \<Rightarrow> proxy_conn_priv \<Rightarrow> proxy_msg \<Rightarrow> int \<times> proxy_conn_priv \<times> os" where
  "process_tcp_data_message s priv msg =
     (case relay_tcp s (the (pv_conn_client priv)) (pv_conn_tcp priv) (unat (msg_size msg)) 0 of
        (ret, tcp_ret, tcp, s) \<Rightarrow>
          let priv = priv\<lparr>pv_conn_tcp := tcp\<rparr>
          in if ret \<noteq> 0 then (ret, priv, s)
             else if tcp_ret \<noteq> 0 then (case send_tcp_close s priv of (_, s) \<Rightarrow> (0, priv, s))
             else (0, priv, s))"

text \<open>\<open>"%hu.%hu.%hu.%hu"\<close> of the bytes of the address is what \<open>inet_ntop4\<close> gives.\<close>

definition process_tcp_open_message :: "os \<Rightarrow> proxy_conn_priv \<Rightarrow> proxy_msg \<Rightarrow> int \<times> proxy_conn_priv \<times> os" where
  "process_tcp_open_message s priv msg =
     (let addr = inet_ntop4 (msg_address msg)
      in if length addr < 7 \<or> length addr > 15 then (- EINVAL, priv, s)
         else
           case conn_connect s (pv_conn_tcp priv) addr ''5200'' of (ret, tcp, s) \<Rightarrow>
             let (ret, priv, s) =
                   (if ret < 0 then (ret, priv\<lparr>pv_conn_tcp := tcp\<rparr>, s)
                    else
                      case worker_wake (pv_worker_tcp priv) of (ret, w) \<Rightarrow>
                        let (tcp, s) = (if ret < 0 then conn_close s tcp else (tcp, s))
                        in (ret, priv\<lparr>pv_conn_tcp := tcp, pv_worker_tcp := w\<rparr>, s));
                 status_msg = \<lparr>msg_type = type_byte PROXY_MSG_TYPE_TCP_STATUS, msg_address = 0, msg_size = 4\<rparr>
             in case conn_send s (the (pv_conn_client priv)) (msg_bytes status_msg @ le32_bytes (of_int ret)) of
                  (ret, s) \<Rightarrow> (ret, priv, s))"

definition process_message :: "os \<Rightarrow> proxy_conn_priv \<Rightarrow> proxy_msg \<Rightarrow> int \<times> proxy_conn_priv \<times> os" where
  "process_message s priv msg =
     (if msg_type msg = type_byte PROXY_MSG_TYPE_TCP_OPEN then process_tcp_open_message s priv msg
      else if msg_type msg = type_byte PROXY_MSG_TYPE_TCP_DATA then process_tcp_data_message s priv msg
      else if msg_type msg = type_byte PROXY_MSG_TYPE_TCP_CLOSE then process_tcp_close_message s priv
      else if msg_type msg = type_byte PROXY_MSG_TYPE_UDP_DATA
      then (case process_data_message s priv msg of (ret, s) \<Rightarrow> (ret, priv, s))
      else if msg_type msg = type_byte PROXY_MSG_TYPE_UDP_CONTROL
      then (case process_control_data_message s priv msg of (ret, s) \<Rightarrow> (ret, priv, s))
      else (- EINVAL, priv, s))"

definition proxy_conn_process :: "os \<Rightarrow> proxy_conn_priv \<Rightarrow> int \<times> proxy_conn_priv \<times> os" where
  "proxy_conn_process s priv =
     (case conn_recv s (the (pv_conn_client priv)) 9 of (ret, d, s) \<Rightarrow>
        if ret < 0 then (ret, priv, s) else process_message s priv (msg_of_bytes d))"

section \<open>From the network to the client\<close>

definition proxy_conn_drop :: "os \<Rightarrow> proxy_conn_priv \<Rightarrow> proxy_conn_priv \<times> os" where
  "proxy_conn_drop s priv =
     (case pv_conn_client priv of
        None \<Rightarrow> (priv, s)
      | Some client \<Rightarrow> (case conn_drop s client of (client, s) \<Rightarrow> (priv\<lparr>pv_conn_client := Some client\<rparr>, s)))"

text \<open>The results that mean an orderly end of a connection.\<close>

definition benign :: "int \<Rightarrow> bool" where
  "benign ret \<longleftrightarrow> ret = - ECONNRESET \<or> ret = - EINTR \<or> ret = - ENOTCONN \<or> ret = - EPIPE"

text \<open>Why a forwarder leaves its loop: sending to the client failed, or receiving did.\<close>

datatype fwd_end = ClientError int | RecvError int

text \<open>One turn of the loop: \<open>ty\<close> is the type of the messages, \<open>udp\<close> says whether the source address
  of the data goes into the header (the header is zeroed before the loop).\<close>

definition forward_turn ::
    "PROXY_MSG_TYPE \<Rightarrow> bool \<Rightarrow> os \<Rightarrow> conn_handle \<Rightarrow> conn_handle \<Rightarrow> fwd_end option \<times> conn_handle \<times> os" where
  "forward_turn ty udp s conn client =
     (case conn_recv_any s conn CONN_BUFF_LEN_HEADERLESS of (ret, d, src, conn, s) \<Rightarrow>
        if ret > 0
        then
          let msg = \<lparr>msg_type = type_byte ty, msg_address = (if udp then fst (the src) else 0),
                     msg_size = of_int ret\<rparr>
          in case conn_send s client (msg_bytes msg @ d) of (ret, s) \<Rightarrow>
               if ret < 0 then (Some (ClientError ret), conn, s) else (None, conn, s)
        else if ret = 0 then (Some (RecvError (- EPIPE)), conn, s)
        else (Some (RecvError ret), conn, s))"

text \<open>What the socket of a connection still has to deliver, as a bound for the turns.\<close>

fun rx_weight :: "rx_event list \<Rightarrow> nat" where
  "rx_weight [] = 0"
| "rx_weight (RxData d # rx) = 1 + length d + rx_weight rx"
| "rx_weight (e # rx) = 1 + rx_weight rx"

definition fd_weight :: "os \<Rightarrow> int \<Rightarrow> nat" where
  "fd_weight s fd = (case socks s fd of None \<Rightarrow> 0 | Some k \<Rightarrow> rx_weight (sk_rx k))"

lemma sk_recv_weight:
  assumes "sk_recv k n = (Inr (d, a), k')" and "d \<noteq> []" and "0 < n"
  shows "rx_weight (sk_rx k') < rx_weight (sk_rx k)"
proof (cases "sk_rx k")
  case Nil
  with assms show ?thesis
    by (simp add: sk_recv_def split: if_splits)
next
  case (Cons e rx)
  with assms show ?thesis
    by (cases e) (auto simp: sk_recv_def split: if_splits)
qed

lemma conn_recv_any_weight:
  assumes "conn_recv_any s conn n = (r, d, src, conn', s')" and "0 < r" and "0 < n"
  shows "cp_fd (cpriv conn') = cp_fd (cpriv conn) \<and>
    fd_weight s' (cp_fd (cpriv conn)) < fd_weight s (cp_fd (cpriv conn))"
proof -
  let ?fd = "cp_fd (cpriv conn)"
  obtain x s1 where x: "os_recvfrom s ?fd n = (x, s1)"
    by (metis surj_pair)
  show ?thesis
  proof (cases x)
    case (Inl e)
    then have "r = - e" "0 \<le> e"
      using assms(1,2) x
      by (auto simp: conn_recv_any_def os_recvfrom_def sk_recv_def errno_of_def
          split: if_splits option.splits prod.splits list.splits rx_event.splits)
    with assms(2) show ?thesis
      by simp
  next
    case (Inr y)
    obtain d' a where y: "y = (d', a)"
      by (metis surj_pair)
    have r: "s' = s1" "d' \<noteq> []" "cp_fd (cpriv conn') = ?fd"
      using assms(1,2) x Inr y
      by (auto simp: conn_recv_any_def Let_def split: if_splits prod.splits option.splits)
    obtain k k' where k: "socks s ?fd = Some k" "sk_recv k n = (Inr (d', a), k')" "s1 = set_sock s ?fd k'"
      using x Inr y by (auto simp: os_recvfrom_def split: option.splits prod.splits)
    show ?thesis
      using sk_recv_weight [OF k(2) r(2) assms(3)] r k by (simp add: fd_weight_def)
  qed
qed

lemma os_send_weight: "os_send s fd d = (r, s') \<Longrightarrow> fd_weight s' x = fd_weight s x"
  by (auto simp: os_send_def sk_send_def fd_weight_def split: option.splits prod.splits sum.splits if_splits)

lemma conn_send_loop_weight: "conn_send_loop s fd buff n = (r, s') \<Longrightarrow> fd_weight s' x = fd_weight s x"
proof (induction s fd buff n arbitrary: r s' rule: conn_send_loop.induct)
  case (1 s fd buff n)
  obtain y s1 where y: "os_send s fd (take n buff) = (y, s1)"
    by (metis surj_pair)
  note w = os_send_weight [OF y, of x]
  show ?case
  proof (cases "\<exists>m. n \<noteq> 0 \<and> y = Inr m \<and> m \<noteq> 0")
    case True
    then obtain m where m: "n \<noteq> 0" "y = Inr m" "m \<noteq> 0"
      by blast
    then have "conn_send_loop s1 fd buff (n - m) = (r, s')"
      using 1(2) y by (subst (asm) conn_send_loop.simps) simp
    then show ?thesis
      using 1(1) [OF m(1) y [symmetric] m(2,3)] w by simp
  next
    case False
    with 1(2) y w show ?thesis
      by (subst (asm) conn_send_loop.simps) (auto split: if_splits sum.splits prod.splits)
  qed
qed

lemma conn_send_weight: "conn_send s conn buff = (r, s') \<Longrightarrow> fd_weight s' x = fd_weight s x"
  by (auto simp: conn_send_def dest: conn_send_loop_weight split: if_splits)

text \<open>A turn that continues has taken something off the socket.\<close>

lemma forward_turn_weight:
  assumes "forward_turn ty udp s conn client = (None, conn', s')"
  shows "fd_weight s' (cp_fd (cpriv conn')) < fd_weight s (cp_fd (cpriv conn))"
proof -
  obtain r d src conn1 s1 where r: "conn_recv_any s conn 4087 = (r, d, src, conn1, s1)"
    by (metis prod_cases5)
  then have "0 < r" "conn1 = conn'"
    using assms by (auto simp: forward_turn_def Let_def split: if_splits prod.splits)
  then show ?thesis
    using conn_recv_any_weight [OF r] assms r
    by (auto simp: forward_turn_def Let_def dest!: conn_send_weight [where x = "cp_fd (cpriv conn)"]
        split: if_splits prod.splits)
qed

function forward_loop ::
    "PROXY_MSG_TYPE \<Rightarrow> bool \<Rightarrow> os \<Rightarrow> conn_handle \<Rightarrow> conn_handle \<Rightarrow> fwd_end \<times> conn_handle \<times> os" where
  "forward_loop ty udp s conn client =
     (case forward_turn ty udp s conn client of
        (None, conn, s) \<Rightarrow> forward_loop ty udp s conn client
      | (Some e, conn, s) \<Rightarrow> (e, conn, s))"
  by pat_completeness auto

termination
  by (relation "measure (\<lambda>(ty, udp, s, conn, client). fd_weight s (cp_fd (cpriv conn)))")
     (auto dest: forward_turn_weight [OF sym])

text \<open>The ends of the three functions, after their loops.\<close>

definition forwarder_control :: "os \<Rightarrow> proxy_conn_priv \<Rightarrow> proxy_conn_priv \<times> os" where
  "forwarder_control s priv =
     (case forward_loop PROXY_MSG_TYPE_UDP_CONTROL True s (pv_conn_control priv) (the (pv_conn_client priv)) of
        (ClientError ret, conn, s) \<Rightarrow>
          (case conn_close s conn of (conn, s) \<Rightarrow>
             let priv = priv\<lparr>pv_conn_control := conn\<rparr>
             in if benign ret then (priv, s) else proxy_conn_drop s priv)
      | (RecvError ret, conn, s) \<Rightarrow>
          (case (if benign ret then (priv, s) else proxy_conn_drop s priv) of (priv, s) \<Rightarrow>
             case conn_close s conn of (conn, s) \<Rightarrow> (priv\<lparr>pv_conn_control := conn\<rparr>, s)))"

definition forwarder_data :: "os \<Rightarrow> proxy_conn_priv \<Rightarrow> proxy_conn_priv \<times> os" where
  "forwarder_data s priv =
     (case forward_loop PROXY_MSG_TYPE_UDP_DATA True s (pv_conn_data priv) (the (pv_conn_client priv)) of
        (ClientError ret, conn, s) \<Rightarrow>
          (case conn_close s conn of (conn, s) \<Rightarrow>
             let priv = priv\<lparr>pv_conn_data := conn\<rparr>
             in if benign ret then (priv, s) else proxy_conn_drop s priv)
      | (RecvError ret, conn, s) \<Rightarrow>
          (case (if benign ret then (priv, s) else proxy_conn_drop s priv) of (priv, s) \<Rightarrow>
             case conn_close s conn of (conn, s) \<Rightarrow> (priv\<lparr>pv_conn_data := conn\<rparr>, s)))"

definition forwarder_tcp :: "os \<Rightarrow> proxy_conn_priv \<Rightarrow> proxy_conn_priv \<times> os" where
  "forwarder_tcp s priv =
     (case forward_loop PROXY_MSG_TYPE_TCP_DATA False s (pv_conn_tcp priv) (the (pv_conn_client priv)) of
        (ClientError ret, conn, s) \<Rightarrow>
          (case conn_close s conn of (conn, s) \<Rightarrow>
             let priv = priv\<lparr>pv_conn_tcp := conn\<rparr>
             in if benign ret then (priv, s) else proxy_conn_drop s priv)
      | (RecvError ret, conn, s) \<Rightarrow>
          (case conn_close s conn of (conn, s) \<Rightarrow>
             let priv = priv\<lparr>pv_conn_tcp := conn\<rparr>
             in case send_tcp_close s priv of (_, s) \<Rightarrow> (priv, s)))"

section \<open>Life cycle\<close>

text \<open>\<open>proxy_conn_finish\<close> gives the handle of the client back.  While it waits for the workers, all
  connections are closed, so that what is left of a running forwarder changes nothing (see
  \<open>forwarder_after_finish\<close> in theory ProxyRelay).\<close>

definition proxy_conn_finish :: "os \<Rightarrow> proxy_conn_priv \<Rightarrow> conn_handle option \<times> proxy_conn_priv \<times> os" where
  "proxy_conn_finish s priv =
     (case proxy_conn_drop s priv of (priv, s) \<Rightarrow>
      case conn_close s (pv_conn_control priv) of (control, s) \<Rightarrow>
      case conn_close s (pv_conn_data priv) of (data, s) \<Rightarrow>
      case conn_close s (pv_conn_tcp priv) of (tcp, s) \<Rightarrow>
        (pv_conn_client priv,
         priv\<lparr>pv_conn_control := control, pv_conn_data := data, pv_conn_tcp := tcp,
           pv_worker_tcp := snd (worker_wait_idle (pv_worker_tcp priv)),
           pv_worker_data := snd (worker_wait_idle (pv_worker_data priv)),
           pv_worker_control := snd (worker_wait_idle (pv_worker_control priv)),
           pv_conn_client := None\<rparr>, s))"

text \<open>\<open>proxy_conn_accept\<close> keeps the client's handle when it succeeds and gives it back when it fails.\<close>

definition proxy_conn_accept ::
    "os \<Rightarrow> proxy_conn_priv \<Rightarrow> conn_handle \<Rightarrow> string \<Rightarrow> bool \<Rightarrow> int \<times> conn_handle option \<times> proxy_conn_priv \<times> os" where
  "proxy_conn_accept s priv conn_client callsign reconnect_only =
     (if pv_conn_client priv \<noteq> None \<or> (reconnect_only \<and> pv_callsign priv \<noteq> callsign)
      then (- EBUSY, Some conn_client, priv, s)
      else
        let priv = priv\<lparr>pv_callsign := take 11 callsign, pv_conn_client := Some conn_client\<rparr>
        in case conn_listen s (pv_conn_control priv) of (ret, control, s) \<Rightarrow>
          let priv = priv\<lparr>pv_conn_control := control\<rparr>
          in if ret < 0 then (ret, proxy_conn_finish s priv)
          else
            case conn_listen s (pv_conn_data priv) of (ret, data, s) \<Rightarrow>
              let priv = priv\<lparr>pv_conn_data := data\<rparr>
              in if ret < 0 then (ret, proxy_conn_finish s priv)
              else
                case worker_wake (pv_worker_control priv) of (ret, w) \<Rightarrow>
                  let priv = priv\<lparr>pv_worker_control := w\<rparr>
                  in if ret < 0 then (ret, proxy_conn_finish s priv)
                  else
                    case worker_wake (pv_worker_data priv) of (ret, w) \<Rightarrow>
                      let priv = priv\<lparr>pv_worker_data := w\<rparr>
                      in if ret < 0 then (ret, proxy_conn_finish s priv)
                      else (0, None, priv, s))"

definition proxy_conn_in_use :: "proxy_conn_priv \<Rightarrow> bool" where
  "proxy_conn_in_use priv \<longleftrightarrow> pv_conn_client priv \<noteq> None"

definition proxy_conn_start :: "os \<Rightarrow> proxy_conn_priv \<Rightarrow> int \<times> proxy_conn_priv \<times> os" where
  "proxy_conn_start s priv =
     (case worker_start s (pv_worker_control priv) of (ret, w, s) \<Rightarrow>
        let priv = priv\<lparr>pv_worker_control := w\<rparr>
        in if ret < 0 then (ret, priv, s)
        else
          case worker_start s (pv_worker_data priv) of (ret, w, s) \<Rightarrow>
            let priv = priv\<lparr>pv_worker_data := w\<rparr>
            in if ret < 0 then (ret, priv, s)
            else
              case worker_start s (pv_worker_tcp priv) of (ret, w, s) \<Rightarrow>
                (ret, priv\<lparr>pv_worker_tcp := w\<rparr>, s))"

definition proxy_conn_stop :: "os \<Rightarrow> proxy_conn_priv \<Rightarrow> int \<times> conn_handle option \<times> proxy_conn_priv \<times> os" where
  "proxy_conn_stop s priv =
     (case proxy_conn_finish s priv of (client, priv, s) \<Rightarrow>
      case worker_join s (pv_worker_tcp priv) of (ret1, wt, s) \<Rightarrow>
      case worker_join s (pv_worker_data priv) of (ret2, wd, s) \<Rightarrow>
      case worker_join s (pv_worker_control priv) of (ret3, wc, s) \<Rightarrow>
        (if ret3 < 0 then ret3 else if ret2 < 0 then ret2 else if ret1 < 0 then ret1 else 0,
         client, priv\<lparr>pv_worker_tcp := wt, pv_worker_data := wd, pv_worker_control := wc\<rparr>, s))"

text \<open>What \<open>proxy_conn_free\<close> and the error exit of \<open>proxy_conn_init\<close> do to the parts, in this order.\<close>

definition release_parts :: "os \<Rightarrow> proxy_conn_priv \<Rightarrow> os" where
  "release_parts s priv =
     (let s = snd (worker_free s (pv_worker_tcp priv));
          s = snd (worker_free s (pv_worker_data priv));
          s = snd (worker_free s (pv_worker_control priv));
          s = snd (mutex_free s (pv_mutex_client priv));
          s = snd (mutex_free s (pv_mutex_client_send priv));
          s = snd (conn_free s (pv_conn_tcp priv));
          s = snd (conn_free s (pv_conn_data priv));
          s = snd (conn_free s (pv_conn_control priv))
      in os_free s)"

definition proxy_conn_free :: "os \<Rightarrow> proxy_conn_handle \<Rightarrow> proxy_conn_handle \<times> os" where
  "proxy_conn_free s pc =
     (if pc_priv pc \<noteq> None
      then (case proxy_conn_stop s (pcpriv pc) of (_, _, priv, s) \<Rightarrow> (pc\<lparr>pc_priv := None\<rparr>, release_parts s priv))
      else (pc, s))"

definition new_pc_priv :: proxy_conn_priv where
  "new_pc_priv =
     \<lparr>pv_conn_client = None, pv_conn_control = new_conn, pv_conn_data = new_conn, pv_conn_tcp = new_conn,
      pv_mutex_client = None, pv_mutex_client_send = None, pv_worker_control = new_worker,
      pv_worker_data = new_worker, pv_worker_tcp = new_worker, pv_callsign = []\<rparr>"

text \<open>The three connections and the two mutexes; then the three workers.\<close>

definition init_conns :: "os \<Rightarrow> proxy_conn_handle \<Rightarrow> proxy_conn_priv \<Rightarrow> int \<times> proxy_conn_priv \<times> os" where
  "init_conns s pc priv =
     (case conn_init s ((pv_conn_control priv)\<lparr>c_source_addr := pc_source_addr pc,
             c_source_port := pc_control_port pc, c_type := CONN_TYPE_UDP\<rparr>) of (ret, c, s) \<Rightarrow>
        let priv = priv\<lparr>pv_conn_control := c\<rparr>
        in if ret \<noteq> 0 then (ret, priv, s)
        else
          case conn_init s ((pv_conn_data priv)\<lparr>c_source_addr := pc_source_addr pc,
                 c_source_port := pc_data_port pc, c_type := CONN_TYPE_UDP\<rparr>) of (ret, c, s) \<Rightarrow>
            let priv = priv\<lparr>pv_conn_data := c\<rparr>
            in if ret \<noteq> 0 then (ret, priv, s)
            else
              case conn_init s ((pv_conn_tcp priv)\<lparr>c_source_addr := pc_source_addr pc,
                     c_source_port := None, c_type := CONN_TYPE_TCP\<rparr>) of (ret, c, s) \<Rightarrow>
                let priv = priv\<lparr>pv_conn_tcp := c\<rparr>
                in if ret \<noteq> 0 then (ret, priv, s)
                else
                  case mutex_init s (pv_mutex_client_send priv) of (ret, m, s) \<Rightarrow>
                    let priv = priv\<lparr>pv_mutex_client_send := m\<rparr>
                    in if ret \<noteq> 0 then (ret, priv, s)
                    else
                      case mutex_init s (pv_mutex_client priv) of (ret, m, s) \<Rightarrow>
                        (ret, priv\<lparr>pv_mutex_client := m\<rparr>, s))"

definition init_workers :: "os \<Rightarrow> proxy_conn_priv \<Rightarrow> int \<times> proxy_conn_priv \<times> os" where
  "init_workers s priv =
     (case worker_init s ((pv_worker_control priv)\<lparr>w_stack_size := 1024 * 1024\<rparr>) of (ret, w, s) \<Rightarrow>
        let priv = priv\<lparr>pv_worker_control := w\<rparr>
        in if ret \<noteq> 0 then (ret, priv, s)
        else
          case worker_init s ((pv_worker_data priv)\<lparr>w_stack_size := 1024 * 1024\<rparr>) of (ret, w, s) \<Rightarrow>
            let priv = priv\<lparr>pv_worker_data := w\<rparr>
            in if ret \<noteq> 0 then (ret, priv, s)
            else
              case worker_init s ((pv_worker_tcp priv)\<lparr>w_stack_size := 1024 * 1024\<rparr>) of (ret, w, s) \<Rightarrow>
                (ret, priv\<lparr>pv_worker_tcp := w\<rparr>, s))"

text \<open>The error exit of \<open>proxy_conn_init\<close> returns 0 as well.\<close>

definition proxy_conn_init :: "os \<Rightarrow> proxy_conn_handle \<Rightarrow> int \<times> proxy_conn_handle \<times> os" where
  "proxy_conn_init s pc =
     (let (ok, priv, s) =
            (case pc_priv pc of
               None \<Rightarrow> (case os_alloc s of (ok, s) \<Rightarrow> (ok, new_pc_priv, s))
             | Some priv \<Rightarrow> (True, priv, s))
      in if \<not> ok then (- ENOMEM, pc, s)
         else
           case init_conns s pc priv of (ret, priv, s) \<Rightarrow>
             if ret \<noteq> 0 then (0, pc\<lparr>pc_priv := None\<rparr>, release_parts s priv)
             else
               case init_workers s priv of (ret, priv, s) \<Rightarrow>
                 if ret \<noteq> 0 then (0, pc\<lparr>pc_priv := None\<rparr>, release_parts s priv)
                 else (0, with_pcpriv pc priv, s))"

section \<open>Specification\<close>

definition pc_blocks :: "proxy_conn_handle \<Rightarrow> int" where
  "pc_blocks pc =
     (case pc_priv pc of None \<Rightarrow> 0
      | Some priv \<Rightarrow> 1 + conn_blocks (pv_conn_control priv) + conn_blocks (pv_conn_data priv) +
          conn_blocks (pv_conn_tcp priv) + handle_blocks (pv_mutex_client priv) +
          handle_blocks (pv_mutex_client_send priv) + worker_blocks (pv_worker_control priv) +
          worker_blocks (pv_worker_data priv) + worker_blocks (pv_worker_tcp priv))"

text \<open>A slot whose parts are all set up, and a slot that serves nobody.\<close>

definition slot_ready :: "proxy_conn_priv \<Rightarrow> bool" where
  "slot_ready priv \<longleftrightarrow>
     c_priv (pv_conn_control priv) \<noteq> None \<and> c_priv (pv_conn_data priv) \<noteq> None \<and> c_priv (pv_conn_tcp priv) \<noteq> None \<and>
     worker_ready (pv_worker_control priv) \<and> worker_ready (pv_worker_data priv) \<and> worker_ready (pv_worker_tcp priv) \<and>
     (\<forall>client. pv_conn_client priv = Some client \<longrightarrow> c_priv client \<noteq> None)"

definition slot_idle :: "proxy_conn_priv \<Rightarrow> bool" where
  "slot_idle priv \<longleftrightarrow>
     pv_conn_client priv = None \<and> conn_closed (pv_conn_control priv) \<and> conn_closed (pv_conn_data priv) \<and>
     conn_closed (pv_conn_tcp priv)"

text \<open>The descriptors that belong to a slot, and the one that \<open>conn_drop\<close> takes from the client.\<close>

definition slot_fds :: "proxy_conn_priv \<Rightarrow> int set" where
  "slot_fds priv = conn_fds (pv_conn_control priv) \<union> conn_fds (pv_conn_data priv) \<union> conn_fds (pv_conn_tcp priv)"

definition client_fds :: "proxy_conn_priv \<Rightarrow> int set" where
  "client_fds priv =
     (case pv_conn_client priv of None \<Rightarrow> {} | Some client \<Rightarrow> {cp_conn_fd (cpriv client)} - {- 1})"

text \<open>\<open>listened s priv s'\<close>: the state \<open>s'\<close> differs from \<open>s\<close> only by new descriptors that the slot holds.\<close>

definition listened :: "os \<Rightarrow> proxy_conn_priv \<Rightarrow> os \<Rightarrow> bool" where
  "listened s priv s' \<longleftrightarrow>
     os_wf s' \<and> live s' = live s \<and> slot_ready priv \<and>
     (\<forall>fd. fd \<notin> slot_fds priv \<longrightarrow> socks s' fd = socks s fd) \<and> (\<forall>fd \<in> slot_fds priv. socks s fd = None)"

text \<open>An idle slot with running workers, and a client, for the witnesses.\<close>

definition wit_worker :: worker_handle where
  "wit_worker = \<lparr>w_priv = Some \<lparr>wk_condvar = Some (), wk_condvar_idle = Some (), wk_mutex = Some \<lparr>readers = 0\<rparr>,
     wk_thread = \<lparr>th_priv = Some \<lparr>th_mutex = Some \<lparr>readers = 0\<rparr>, th_dirty = True\<rparr>, th_stack_size = 0\<rparr>,
     wk_state = WORKER_IDLE\<rparr>, w_stack_size = 0, w_periodic_wake = 0\<rparr>"

definition wit_closed :: "CONN_TYPE \<Rightarrow> conn_handle" where
  "wit_closed t = \<lparr>c_priv = Some \<lparr>cp_sock_fd = - 1, cp_conn_fd = - 1, cp_fd = - 1, cp_remote_addr = AF_ZERO,
     cp_mutex = Some \<lparr>readers = 0\<rparr>\<rparr>, c_source_addr = None, c_source_port = None, c_type = t\<rparr>"

definition wit_slot :: proxy_conn_priv where
  "wit_slot = \<lparr>pv_conn_client = None, pv_conn_control = wit_closed CONN_TYPE_UDP, pv_conn_data = wit_closed CONN_TYPE_UDP,
     pv_conn_tcp = wit_closed CONN_TYPE_TCP, pv_mutex_client = Some \<lparr>readers = 0\<rparr>,
     pv_mutex_client_send = Some \<lparr>readers = 0\<rparr>, pv_worker_control = wit_worker, pv_worker_data = wit_worker,
     pv_worker_tcp = wit_worker, pv_callsign = []\<rparr>"

definition wit_client_conn :: conn_handle where
  "wit_client_conn = wit_conn\<lparr>c_priv := Some ((cpriv wit_conn)\<lparr>cp_sock_fd := - 1, cp_conn_fd := 3\<rparr>)\<rparr>"

section \<open>Lemmas on the life cycle\<close>

lemma conn_drop_frame:
  assumes "conn_drop s conn = (conn', s')" and "c_priv conn \<noteq> None"
  shows "live s' = live s" and "next_fd s' = next_fd s" and "c_priv conn' \<noteq> None"
    and "cp_fd (cpriv conn') = - 1" and "cp_conn_fd (cpriv conn') = - 1" and "conn_blocks conn' = conn_blocks conn"
    and "socks s' = (\<lambda>x. if x \<in> {cp_conn_fd (cpriv conn)} - {- 1} then None else socks s x)"
  using assms by (auto simp: conn_drop_def Let_def conn_blocks_def split: if_splits)

lemma proxy_conn_drop_frame:
  assumes "proxy_conn_drop s priv = (priv', s')" and "\<forall>client. pv_conn_client priv = Some client \<longrightarrow> c_priv client \<noteq> None"
  shows "live s' = live s" and "next_fd s' = next_fd s"
    and "socks s' = (\<lambda>x. if x \<in> client_fds priv then None else socks s x)"
    and "\<exists>client. priv' = priv\<lparr>pv_conn_client := client\<rparr>"
proof -
  show "live s' = live s" "next_fd s' = next_fd s"
    "socks s' = (\<lambda>x. if x \<in> client_fds priv then None else socks s x)"
    using assms by (auto simp: proxy_conn_drop_def client_fds_def dest: conn_drop_frame(1,2,7)
        split: option.splits prod.splits)
  show "\<exists>client. priv' = priv\<lparr>pv_conn_client := client\<rparr>"
  proof (cases "pv_conn_client priv")
    case None
    then have "priv\<lparr>pv_conn_client := None\<rparr> = priv"
      by (cases priv) simp
    moreover have "priv' = priv"
      using assms(1) None by (simp add: proxy_conn_drop_def)
    ultimately show ?thesis
      by metis
  next
    case (Some client)
    then show ?thesis
      using assms(1) by (auto simp: proxy_conn_drop_def split: prod.splits)
  qed
qed

text \<open>After \<open>proxy_conn_finish\<close> the slot serves nobody and holds no descriptor.\<close>

lemma proxy_conn_finish_frame:
  assumes "slot_ready priv" and "proxy_conn_finish s priv = (client, priv', s')"
  shows "slot_ready priv'" and "slot_idle priv'" and "live s' = live s" and "next_fd s' = next_fd s"
    and "socks s' = (\<lambda>x. if x \<in> slot_fds priv \<union> client_fds priv then None else socks s x)"
    and "pc_blocks (with_pcpriv pc priv') = pc_blocks (with_pcpriv pc priv)"
    and "pv_callsign priv' = pv_callsign priv"
proof -
  note ready = assms(1) [unfolded slot_ready_def]
  obtain priv1 s1 where d: "proxy_conn_drop s priv = (priv1, s1)"
    by (metis surj_pair)
  have "\<forall>client. pv_conn_client priv = Some client \<longrightarrow> c_priv client \<noteq> None"
    using ready by blast
  note f0 = proxy_conn_drop_frame [OF d this]
  then obtain cl where p1: "priv1 = priv\<lparr>pv_conn_client := cl\<rparr>"
    by blast
  obtain c2 s2 where 2: "conn_close s1 (pv_conn_control priv) = (c2, s2)" by (metis surj_pair)
  obtain c3 s3 where 3: "conn_close s2 (pv_conn_data priv) = (c3, s3)" by (metis surj_pair)
  obtain c4 s4 where 4: "conn_close s3 (pv_conn_tcp priv) = (c4, s4)" by (metis surj_pair)
  obtain k2 k3 k4 where k: "c_priv (pv_conn_control priv) = Some k2" "c_priv (pv_conn_data priv) = Some k3"
    "c_priv (pv_conn_tcp priv) = Some k4"
    using ready by auto
  note f2 = conn_close_frame [OF k(1) 2] conn_closed_close [OF _ 2]
  note f3 = conn_close_frame [OF k(2) 3] conn_closed_close [OF _ 3]
  note f4 = conn_close_frame [OF k(3) 4] conn_closed_close [OF _ 4]
  have run: "s' = s4" "priv' = priv1\<lparr>pv_conn_control := c2, pv_conn_data := c3, pv_conn_tcp := c4,
      pv_worker_tcp := snd (worker_wait_idle (pv_worker_tcp priv)),
      pv_worker_data := snd (worker_wait_idle (pv_worker_data priv)),
      pv_worker_control := snd (worker_wait_idle (pv_worker_control priv)), pv_conn_client := None\<rparr>"
    using assms(2) d 2 3 4 p1 by (simp_all add: proxy_conn_finish_def)
  have closed: "conn_closed c2" "conn_closed c3" "conn_closed c4"
    using f2(6) f3(6) f4(6) k by simp_all
  then show "slot_idle priv'"
    by (simp add: slot_idle_def run)
  show "slot_ready priv'"
    using ready f2(1) f3(1) f4(1) by (simp add: slot_ready_def run)
  show "live s' = live s" "next_fd s' = next_fd s"
    using f0(1,2) f2(3,5) f3(3,5) f4(3,5) by (simp_all add: run)
  show "socks s' = (\<lambda>x. if x \<in> slot_fds priv \<union> client_fds priv then None else socks s x)"
    using f0(3) f2(2) f3(2) f4(2) by (auto simp: run slot_fds_def)
  show "pc_blocks (with_pcpriv pc priv') = pc_blocks (with_pcpriv pc priv)"
    using f2(1) f3(1) f4(1) k ready by (simp add: pc_blocks_def run p1 conn_blocks_def)
  show "pv_callsign priv' = pv_callsign priv"
    by (simp add: run p1)
qed

lemma listened_finish:
  assumes "listened s priv s1" and "proxy_conn_finish s1 priv = (client, priv', s')"
  shows "slot_ready priv' \<and> slot_idle priv' \<and> live s' = live s \<and> os_wf s' \<and>
    socks s' = (\<lambda>x. if x \<in> client_fds priv then None else socks s x)"
proof -
  note l = assms(1) [unfolded listened_def]
  then have r: "slot_ready priv"
    by blast
  note f = proxy_conn_finish_frame [OF r assms(2)]
  have "socks s' x = (if x \<in> client_fds priv then None else socks s x)" for x
    using l f(5) by auto
  moreover have "os_wf s'"
    using l f(4,5) by (simp add: os_wf_def)
  ultimately show ?thesis
    using l f(1-3) by auto
qed

lemma conn_listen_priv: "conn_listen s conn = (r, conn', s') \<Longrightarrow> c_priv conn \<noteq> None \<Longrightarrow> c_priv conn' \<noteq> None"
  by (auto simp: conn_listen_def Let_def split: prod.splits sum.splits if_splits)

lemma conn_closed_fds: "conn_closed conn \<Longrightarrow> conn_fds conn = {} \<and> c_priv conn \<noteq> None"
  by (auto simp: conn_closed_def conn_fds_def split: option.splits)

text \<open>Listening on a closed connection of the slot keeps \<open>listened\<close>.\<close>

lemma listened_listen:
  assumes "listened s p s1"
  shows "conn_closed (pv_conn_control p) \<Longrightarrow> conn_listen s1 (pv_conn_control p) = (r, c, s2) \<Longrightarrow>
      listened s (p\<lparr>pv_conn_control := c\<rparr>) s2 \<and> r \<le> 0"
    and "conn_closed (pv_conn_data p) \<Longrightarrow> conn_listen s1 (pv_conn_data p) = (r, c, s2) \<Longrightarrow>
      listened s (p\<lparr>pv_conn_data := c\<rparr>) s2 \<and> r \<le> 0"
proof -
  note l = assms [unfolded listened_def]
  have gen: "os_wf s2 \<and> c_priv c \<noteq> None \<and> live s2 = live s \<and> r \<le> 0 \<and>
      (\<forall>fd. fd \<notin> slot_fds p \<union> conn_fds c \<longrightarrow> socks s2 fd = socks s fd) \<and> (\<forall>fd \<in> conn_fds c. socks s fd = None) \<and>
      (\<forall>fd \<in> slot_fds p. socks s fd = None)"
    if "conn_closed conn" "conn_listen s1 conn = (r, c, s2)" for conn
  proof -
    have "holds_new s1 r c s2"
      using listening.opens that l by blast
    then show ?thesis
      unfolding holds_new_def using l by (metis Un_iff)
  qed
  show "listened s (p\<lparr>pv_conn_control := c\<rparr>) s2 \<and> r \<le> 0"
    if "conn_closed (pv_conn_control p)" "conn_listen s1 (pv_conn_control p) = (r, c, s2)"
    using gen [OF that] l conn_closed_fds [OF that(1)] by (auto simp: listened_def slot_fds_def slot_ready_def)
  show "listened s (p\<lparr>pv_conn_data := c\<rparr>) s2 \<and> r \<le> 0"
    if "conn_closed (pv_conn_data p)" "conn_listen s1 (pv_conn_data p) = (r, c, s2)"
    using gen [OF that] l conn_closed_fds [OF that(1)] by (auto simp: listened_def slot_fds_def slot_ready_def)
qed

lemma proxy_conn_accept_cases:
  assumes ready: "slot_ready priv" "slot_idle priv" and wf: "os_wf s" and client: "c_priv cl \<noteq> None"
    and run: "proxy_conn_accept s priv cl callsign ro = (r, back, priv', s')"
    and free: "\<not> (ro \<and> pv_callsign priv \<noteq> callsign)"
  shows "r = 0 \<and> back = None \<and> pv_conn_client priv' = Some cl \<and> listened s priv' s' \<and>
      worker_wake (pv_worker_control priv) = (0, pv_worker_control priv') \<and>
      worker_wake (pv_worker_data priv) = (0, pv_worker_data priv') \<or>
    r < 0 \<and> slot_ready priv' \<and> slot_idle priv' \<and> live s' = live s \<and> os_wf s' \<and>
      socks s' = (\<lambda>x. if x \<in> {cp_conn_fd (cpriv cl)} - {- 1} then None else socks s x)"
proof -
  note idle = ready(2) [unfolded slot_idle_def]
  define p0 where "p0 = priv\<lparr>pv_callsign := take 11 callsign, pv_conn_client := Some cl\<rparr>"
  have p0: "slot_ready p0" "pv_conn_client p0 = Some cl"
    "pv_worker_control p0 = pv_worker_control priv" "pv_worker_data p0 = pv_worker_data priv"
    using ready client by (simp_all add: p0_def slot_ready_def)
  have fin: ?thesis if l: "listened s p s1" and "pv_conn_client p = Some cl" and "r < 0"
    and "proxy_conn_finish s1 p = (back, priv', s')" for p s1
    using listened_finish [OF l that(4)] that(2,3) by (simp add: client_fds_def)
  have l0: "listened s p0 s"
    using idle p0(1) wf conn_closed_fds by (auto simp: listened_def slot_fds_def p0_def)
  obtain r1 c1 s1 where 1: "conn_listen s (pv_conn_control p0) = (r1, c1, s1)"
    by (metis prod_cases3)
  define p1 where "p1 = p0\<lparr>pv_conn_control := c1\<rparr>"
  have l1: "listened s p1 s1" and "r1 \<le> 0"
    using listened_listen(1) [OF l0 _ 1] idle by (simp_all add: p0_def p1_def)
  obtain r2 c2 s2 where 2: "conn_listen s1 (pv_conn_data p1) = (r2, c2, s2)"
    by (metis prod_cases3)
  define p2 where "p2 = p1\<lparr>pv_conn_data := c2\<rparr>"
  have l2: "listened s p2 s2" and "r2 \<le> 0"
    using listened_listen(2) [OF l1 _ 2] idle by (simp_all add: p0_def p1_def p2_def)
  obtain r3 w3 where 3: "worker_wake (pv_worker_control priv) = (r3, w3)" by (metis surj_pair)
  obtain r4 w4 where 4: "worker_wake (pv_worker_data priv) = (r4, w4)" by (metis surj_pair)
  define p3 where "p3 = p2\<lparr>pv_worker_control := w3\<rparr>"
  define p4 where "p4 = p3\<lparr>pv_worker_data := w4\<rparr>"
  have l3: "listened s p3 s2" and l4: "listened s p4 s2"
    using l2 worker_wake_ready [OF 3] worker_wake_ready [OF 4] ready(1)
    by (auto simp: listened_def slot_fds_def p4_def p3_def slot_ready_def)
  have cl: "pv_conn_client p1 = Some cl" "pv_conn_client p2 = Some cl" "pv_conn_client p3 = Some cl"
    "pv_conn_client p4 = Some cl"
    by (simp_all add: p1_def p2_def p3_def p4_def p0_def)
  have w: "r3 \<le> 0" "r4 \<le> 0"
    using 3 4 by (auto simp: worker_wake_def wake_section_def Let_def split: if_splits)
  have run': "(r, back, priv', s') =
      (if r1 < 0 then (r1, proxy_conn_finish s1 p1) else if r2 < 0 then (r2, proxy_conn_finish s2 p2)
       else if r3 < 0 then (r3, proxy_conn_finish s2 p3) else if r4 < 0 then (r4, proxy_conn_finish s2 p4)
       else (0, None, p4, s2))"
    using run free idle 1 2 3 4
    by (simp add: proxy_conn_accept_def Let_def p0_def p1_def p2_def p3_def p4_def cong: if_cong)
  consider "r1 < 0" | "r1 = 0" "r2 < 0" | "r1 = 0" "r2 = 0" "r3 < 0" | "r1 = 0" "r2 = 0" "r3 = 0" "r4 < 0"
    | "r1 = 0" "r2 = 0" "r3 = 0" "r4 = 0"
    using \<open>r1 \<le> 0\<close> \<open>r2 \<le> 0\<close> w by linarith
  then show ?thesis
  proof cases
    case 1
    with run' show ?thesis by (intro fin [OF l1 cl(1)]) simp_all
  next
    case 2
    with run' show ?thesis by (intro fin [OF l2 cl(2)]) simp_all
  next
    case 3
    with run' show ?thesis by (intro fin [OF l3 cl(3)]) simp_all
  next
    case 4
    with run' show ?thesis by (intro fin [OF l4 cl(4)]) simp_all
  next
    case 5
    with run' l4 cl(4) 3 4 show ?thesis by (simp add: p4_def p3_def)
  qed
qed

text \<open>Blocks.\<close>

lemma proxy_conn_stop_frame:
  assumes "slot_ready priv" and "proxy_conn_stop s priv = (r, client, priv', s')"
  shows "slot_ready priv' \<and> slot_idle priv' \<and> live s' = live s \<and>
    pc_blocks (with_pcpriv pc priv') = pc_blocks (with_pcpriv pc priv) \<and>
    socks s' = (\<lambda>x. if x \<in> slot_fds priv \<union> client_fds priv then None else socks s x)"
proof -
  obtain cl p1 s1 where 1: "proxy_conn_finish s priv = (cl, p1, s1)" by (metis prod_cases3)
  note f1 = proxy_conn_finish_frame [OF assms(1) 1]
  note ready = f1(1) [unfolded slot_ready_def]
  obtain r2 w2 s2 where 2: "worker_join s1 (pv_worker_tcp p1) = (r2, w2, s2)" by (metis prod_cases3)
  obtain r3 w3 s3 where 3: "worker_join s2 (pv_worker_data p1) = (r3, w3, s3)" by (metis prod_cases3)
  obtain r4 w4 s4 where 4: "worker_join s3 (pv_worker_control p1) = (r4, w4, s4)" by (metis prod_cases3)
  note j = worker_join_parts [OF _ 2] worker_join_parts [OF _ 3] worker_join_parts [OF _ 4]
  have run: "priv' = p1\<lparr>pv_worker_tcp := w2, pv_worker_data := w3, pv_worker_control := w4\<rparr>" "s' = s4"
    using assms(2) 1 2 3 4 by (auto simp: proxy_conn_stop_def)
  show ?thesis
    using f1 j ready by (auto simp: run slot_ready_def slot_idle_def pc_blocks_def)
qed

lemma release_parts_live:
  assumes "worker_usable (pv_worker_control priv)" "worker_usable (pv_worker_data priv)" "worker_usable (pv_worker_tcp priv)"
  shows "live (release_parts s priv) = live s - pc_blocks (with_pcpriv pc priv)"
proof -
  have w: "live (snd (worker_free s wh)) = live s - worker_blocks wh" if "worker_usable wh" for s wh
    using worker_free_managed [OF that, of s] by (metis surj_pair snd_conv)
  have m: "live (snd (mutex_free s mu)) = live s - handle_blocks mu" for s mu
    using mutex.free_blocks [of s mu] by (metis surj_pair snd_conv)
  have c: "live (snd (conn_free s conn)) = live s - conn_blocks conn" for s conn
    using conn.free_blocks [of s conn] by (metis surj_pair snd_conv)
  show ?thesis
    using assms by (simp add: release_parts_def Let_def w m c pc_blocks_def)
qed

lemma conn_init_part:
  assumes "conn_init s (conn\<lparr>c_source_addr := a, c_source_port := p, c_type := t\<rparr>) = (r, conn', s')"
  shows "live s' - conn_blocks conn' = live s - conn_blocks conn" and "r \<le> 0" and "r = 0 \<Longrightarrow> conn_closed conn'"
  using conn_init_managed [OF assms] by (simp_all add: conn_blocks_def)

lemma init_conns_live:
  assumes "init_conns s pc priv = (r, priv', s')"
  shows "live s' - pc_blocks (with_pcpriv pc priv') = live s - pc_blocks (with_pcpriv pc priv) \<and>
    pv_worker_control priv' = pv_worker_control priv \<and> pv_worker_data priv' = pv_worker_data priv \<and>
    pv_worker_tcp priv' = pv_worker_tcp priv \<and> pv_conn_client priv' = pv_conn_client priv \<and>
    (r = 0 \<longrightarrow> conn_closed (pv_conn_control priv') \<and> conn_closed (pv_conn_data priv') \<and> conn_closed (pv_conn_tcp priv'))"
proof -
  obtain r1 c1 s1 where 1: "conn_init s ((pv_conn_control priv)\<lparr>c_source_addr := pc_source_addr pc,
      c_source_port := pc_control_port pc, c_type := CONN_TYPE_UDP\<rparr>) = (r1, c1, s1)" by (metis prod_cases3)
  obtain r2 c2 s2 where 2: "conn_init s1 ((pv_conn_data priv)\<lparr>c_source_addr := pc_source_addr pc,
      c_source_port := pc_data_port pc, c_type := CONN_TYPE_UDP\<rparr>) = (r2, c2, s2)" by (metis prod_cases3)
  obtain r3 c3 s3 where 3: "conn_init s2 ((pv_conn_tcp priv)\<lparr>c_source_addr := pc_source_addr pc,
      c_source_port := None, c_type := CONN_TYPE_TCP\<rparr>) = (r3, c3, s3)" by (metis prod_cases3)
  obtain r4 m4 s4 where 4: "mutex_init s3 (pv_mutex_client_send priv) = (r4, m4, s4)" by (metis prod_cases3)
  obtain r5 m5 s5 where 5: "mutex_init s4 (pv_mutex_client priv) = (r5, m5, s5)" by (metis prod_cases3)
  note f = conn_init_part(1,3) [OF 1] conn_init_part(1,3) [OF 2] conn_init_part(1,3) [OF 3]
    mutex.init_blocks [OF 4] mutex.init_blocks [OF 5]
  show ?thesis
    using assms 1 2 3 4 5 f by (auto simp: init_conns_def Let_def pc_blocks_def split: if_splits)
qed

lemma init_workers_live:
  assumes "init_workers s priv = (r, priv', s')" and "w_priv (pv_worker_control priv) = None"
    and "w_priv (pv_worker_data priv) = None" and "w_priv (pv_worker_tcp priv) = None"
  shows "live s' - pc_blocks (with_pcpriv pc priv') = live s - pc_blocks (with_pcpriv pc priv) \<and>
    worker_usable (pv_worker_control priv') \<and> worker_usable (pv_worker_data priv') \<and> worker_usable (pv_worker_tcp priv') \<and>
    pv_conn_control priv' = pv_conn_control priv \<and> pv_conn_data priv' = pv_conn_data priv \<and>
    pv_conn_tcp priv' = pv_conn_tcp priv \<and> pv_conn_client priv' = pv_conn_client priv"
proof -
  obtain r1 w1 s1 where 1: "worker_init s ((pv_worker_control priv)\<lparr>w_stack_size := 1048576\<rparr>) = (r1, w1, s1)" by (metis prod_cases3)
  obtain r2 w2 s2 where 2: "worker_init s1 ((pv_worker_data priv)\<lparr>w_stack_size := 1048576\<rparr>) = (r2, w2, s2)" by (metis prod_cases3)
  obtain r3 w3 s3 where 3: "worker_init s2 ((pv_worker_tcp priv)\<lparr>w_stack_size := 1048576\<rparr>) = (r3, w3, s3)" by (metis prod_cases3)
  have i: "live t' - worker_blocks w' = live t - worker_blocks w \<and> worker_usable w'"
    if "worker_init t (w\<lparr>w_stack_size := n\<rparr>) = (r', w', t')" "w_priv w = None" for t w n r' w' t'
    using worker_init_managed [OF _ that(1)] that(2) by (simp add: worker_blocks_def)
  have u: "worker_usable w" if "w_priv w = None" for w
    using that by (simp add: worker_usable_def)
  show ?thesis
    using assms 1 2 3 i [OF 1] i [OF 2] i [OF 3] u
    by (auto simp: init_workers_def Let_def pc_blocks_def split: if_splits)
qed

lemma init_workers_ready:
  assumes "init_workers s priv = (0, priv', s')" and "w_priv (pv_worker_control priv) = None"
    and "w_priv (pv_worker_data priv) = None" and "w_priv (pv_worker_tcp priv) = None"
  shows "worker_ready (pv_worker_control priv') \<and> worker_ready (pv_worker_data priv') \<and> worker_ready (pv_worker_tcp priv')"
  using assms by (auto simp: init_workers_def Let_def split: prod.splits if_splits intro!: worker_init_ready)

text \<open>A new slot: it is either complete and idle, or it has been given back.\<close>

lemma proxy_conn_init_managed:
  assumes "pc_priv pc = None" and "proxy_conn_init s pc = (r, pc', s')"
  shows "live s' - pc_blocks pc' = live s - pc_blocks pc \<and>
    (\<forall>priv. pc_priv pc' = Some priv \<longrightarrow> r = 0 \<and> slot_ready priv \<and> slot_idle priv) \<and> (r \<noteq> 0 \<longrightarrow> pc_priv pc' = None)"
proof -
  obtain ok s0 where 0: "os_alloc s = (ok, s0)" by (metis surj_pair)
  obtain r1 p1 s1 where 1: "init_conns s0 pc new_pc_priv = (r1, p1, s1)" by (metis prod_cases3)
  obtain r2 p2 s2 where 2: "init_workers s1 p1 = (r2, p2, s2)" by (metis prod_cases3)
  have new: "pc_blocks (with_pcpriv pc new_pc_priv) = 1" "w_priv (pv_worker_control new_pc_priv) = None"
    "w_priv (pv_worker_data new_pc_priv) = None" "w_priv (pv_worker_tcp new_pc_priv) = None"
    "pv_conn_client new_pc_priv = None"
    by (simp_all add: pc_blocks_def new_pc_priv_def new_conn_def new_worker_def conn_blocks_def worker_blocks_def
        handle_blocks_def)
  note f1 = init_conns_live [OF 1]
  have w1: "w_priv (pv_worker_control p1) = None" "w_priv (pv_worker_data p1) = None" "w_priv (pv_worker_tcp p1) = None"
    using f1 new by simp_all
  note f2 = init_workers_live [OF 2 w1]
  have rel1: "live (release_parts s1 p1) = live s1 - pc_blocks (with_pcpriv pc p1)"
    using w1 by (intro release_parts_live) (simp_all add: worker_usable_def)
  have rel2: "live (release_parts s2 p2) = live s2 - pc_blocks (with_pcpriv pc p2)"
    using f2 by (intro release_parts_live) blast+
  have none: "pc_blocks (pc\<lparr>pc_priv := None\<rparr>) = 0" "pc_blocks pc = 0"
    using assms(1) by (simp_all add: pc_blocks_def)
  have ready: "slot_ready p2 \<and> slot_idle p2" if "r1 = 0" "r2 = 0"
    using init_workers_ready [OF _ w1, of s1 p2 s2] 2 that f1 f2 new conn_closed_fds
    by (auto simp: slot_ready_def slot_idle_def)
  show ?thesis
    using assms 0 1 2 os_alloc_live [OF 0] f1 f2 rel1 rel2 new none ready
    by (auto simp: proxy_conn_init_def split: if_splits)
qed

lemma proxy_conn_free_managed:
  assumes "\<And>priv. pc_priv pc = Some priv \<Longrightarrow> slot_ready priv" and "proxy_conn_free s pc = (pc', s')"
  shows "live s' = live s - pc_blocks pc \<and> pc_blocks pc' = 0"
proof (cases "pc_priv pc")
  case None
  with assms(2) show ?thesis
    by (simp add: proxy_conn_free_def pc_blocks_def)
next
  case (Some priv)
  then have pc: "with_pcpriv pc priv = pc"
    by (cases pc) simp
  obtain r cl p1 s1 where 1: "proxy_conn_stop s priv = (r, cl, p1, s1)" by (metis prod_cases4)
  note f = proxy_conn_stop_frame [OF assms(1) [OF Some] 1, of pc]
  have "live (release_parts s1 p1) = live s1 - pc_blocks (with_pcpriv pc p1)"
    using f by (intro release_parts_live) (auto simp: slot_ready_def intro: worker_ready_usable)
  then show ?thesis
    using assms(2) Some 1 f pc by (auto simp: proxy_conn_free_def pc_blocks_def)
qed

interpretation slot: managed_fresh proxy_conn_init proxy_conn_free pc_blocks "\<lambda>pc. pc_priv pc = None"
  "\<lambda>pc. \<forall>priv. pc_priv pc = Some priv \<longrightarrow> slot_ready priv"
proof
  fix h s r h' s'
  assume "pc_priv h = None" and "proxy_conn_init s h = (r, h', s')"
  then show "live s' - pc_blocks h' = live s - pc_blocks h \<and> (r \<noteq> 0 \<longrightarrow> pc_blocks h' = 0) \<and>
      (\<forall>priv. pc_priv h' = Some priv \<longrightarrow> slot_ready priv)"
    using proxy_conn_init_managed [of h s r h' s'] by (auto simp: pc_blocks_def)
next
  fix h s h' s'
  assume "\<forall>priv. pc_priv h = Some priv \<longrightarrow> slot_ready priv" and "proxy_conn_free s h = (h', s')"
  then show "live s' = live s - pc_blocks h \<and> pc_blocks h' = 0"
    using proxy_conn_free_managed by blast
qed

section \<open>Properties\<close>





text \<open>A slot that could not be set up is reported as a success.  When an allocation after the
  first fails, \<open>proxy_conn_init\<close> releases everything and returns 0 with a NULL \<open>priv\<close>, although the
  header promises a negative value on failure.\<close>

theorem proxy_conn_init_hides_failure:
  "let (r, pc', s') = proxy_conn_init ((wit_os no_peer)\<lparr>script := [0, 12]\<rparr>)
        \<lparr>pc_priv = None, pc_source_addr = None, pc_control_port = None, pc_data_port = None\<rparr>
   in r = 0 \<and> pc_priv pc' = None \<and> live s' = live (wit_os no_peer)"
  by (simp add: proxy_conn_init_def wit_os_def os_alloc_def os_try_def init_conns_def conn_init_def new_pc_priv_def
      new_conn_def new_worker_def release_parts_def worker_free_def mutex_free_def conn_free_def os_free_def Let_def)

end
