(* ===== verification/Conf.thy ===== *)
theory Conf
  imports Os
begin

text \<open>
  The configuration file parser, conf.c.

  A \<open>proxy_conf\<close> is the struct of openelp.h: a pointer to a string is an option, the array of
  additional addresses is an optional list of such pointers.  A line is read into a buffer of
  characters in which \<open>None\<close> is a character that nothing has been written to.  Every allocation
  takes its outcome from the environment, and \<open>conf_blocks\<close> counts the blocks a configuration
  owns, so that what the parser allocates, frees and forgets can be compared.

  The theorems: parsing the text of a configuration gives the configuration back; a setting
  takes and releases exactly the blocks of the configuration, but for the strings of an array
  that is set again; what the parser does when it runs out of memory between two lines.
\<close>

section \<open>Data\<close>

record proxy_conf =
  cf_bind_addr :: "string option"
  cf_bind_addr_ext :: "string option"
  cf_bind_addr_ext_add :: "string option list option"
  cf_calls_allowed :: "string option"
  cf_calls_denied :: "string option"
  cf_password :: "string option"
  cf_reg_name :: "string option"
  cf_reg_comment :: "string option"
  cf_public_addr :: "string option"
  cf_connection_timeout :: u32
  cf_bind_addr_ext_add_len :: u16
  cf_port :: u16

text \<open>A block of characters from \<open>malloc\<close>, and the C string at its beginning.\<close>

type_synonym buffer = "char option list"

definition buf_str :: "buffer \<Rightarrow> string" where
  "buf_str buf = map the (takeWhile (\<lambda>c. c \<noteq> None \<and> c \<noteq> Some NUL) buf)"

section \<open>The library functions the parser uses\<close>

definition c_space :: "char \<Rightarrow> bool" where
  "c_space c \<longleftrightarrow> c \<in> set [CHR '' '', TAB, LF, CHR 0x0B, CHR 0x0C, CR]"

definition c_digit :: "char \<Rightarrow> bool" where
  "c_digit c \<longleftrightarrow> 48 \<le> (of_char c :: nat) \<and> (of_char c :: nat) < 58"

definition dec_number :: "string \<Rightarrow> nat" where
  "dec_number ds = foldl (\<lambda>n c. 10 * n + (of_char c - 48)) 0 ds"

text \<open>\<open>strtoul\<close> in base 10: saturation at \<open>ULONG_MAX\<close>, negation modulo 2 to the 64.\<close>

definition strtoul_value :: "bool \<Rightarrow> string \<Rightarrow> u64" where
  "strtoul_value neg ds =
     (let n = dec_number ds in
      if n \<ge> 2 ^ 64 then - 1 else if neg then - of_nat n else of_nat n)"

text \<open>\<open>sscanf(val, "%u%1s", ...)\<close>: the number of conversions and the converted number, which
  \<open>sscanf\<close> then stores truncated to the width of its target.\<close>

definition scan_unsigned :: "string \<Rightarrow> (u64 \<times> string) option" where
  "scan_unsigned val =
     (let val = dropWhile c_space val;
          (neg, val) =
            (case val of
               c # cs \<Rightarrow> if c = CHR ''-'' then (True, cs) else if c = CHR ''+'' then (False, cs) else (False, val)
             | [] \<Rightarrow> (False, []));
          ds = takeWhile c_digit val
      in if ds = [] then None else Some (strtoul_value neg ds, dropWhile c_digit val))"

definition sscanf_u1s :: "string \<Rightarrow> int \<times> u64 option" where
  "sscanf_u1s val =
     (case scan_unsigned val of
        None \<Rightarrow> (if dropWhile c_space val = [] then - 1 else 0, None)
      | Some (v, rest) \<Rightarrow> (if dropWhile c_space rest = [] then 1 else 2, Some v))"

text \<open>\<open>strncmp(a, b, n) == 0\<close>, and \<open>free\<close> of a pointer that may be NULL.\<close>

definition strncmp_eq :: "string \<Rightarrow> string \<Rightarrow> nat \<Rightarrow> bool" where
  "strncmp_eq a b n \<longleftrightarrow> take n a = take n b"

definition free_opt :: "os \<Rightarrow> 'a option \<Rightarrow> os" where
  "free_opt s p = (if p \<noteq> None then os_free s else s)"

section \<open>Reading a line\<close>

text \<open>\<open>conf_readline\<close>: the first block, then one character per turn.  A turn may enlarge the
  block, and a character whose turn fails to do so is lost.\<close>

definition readline_block :: "os \<Rightarrow> buffer option \<Rightarrow> nat \<Rightarrow> bool \<times> buffer option \<times> nat \<times> os" where
  "readline_block s lineptr n =
     (case lineptr of
        None \<Rightarrow>
          (case os_alloc s of (ok, s) \<Rightarrow>
             if ok then (True, Some (replicate 128 None), 128, s) else (False, None, n, s))
      | Some buf \<Rightarrow>
          if n = 0
          then (case os_try s of (r, s) \<Rightarrow>
                  if r = 0 then (True, Some (take 128 (buf @ replicate 128 None)), 128, s)
                  else (False, Some buf, n, s))
          else (True, Some buf, n, s))"

fun readline_loop :: "os \<Rightarrow> buffer \<Rightarrow> nat \<Rightarrow> nat \<Rightarrow> string \<Rightarrow> bool \<times> buffer \<times> nat \<times> nat \<times> string \<times> os" where
  "readline_loop s buf n so_far [] = (True, buf, n, so_far, [], s)"
| "readline_loop s buf n so_far (temp # stream) =
     (case (if so_far + 1 \<ge> n
            then (case os_try s of (r, s) \<Rightarrow>
                    if r = 0 then (True, buf @ replicate 128 None, n + 128, s) else (False, buf, n, s))
            else (True, buf, n, s)) of
        (ok, buf, n, s) \<Rightarrow>
          if \<not> ok then (False, buf, n, so_far, stream, s)
          else
            let buf = buf[so_far := Some temp]; so_far = so_far + 1
            in if temp = LF then (True, buf, n, so_far, stream, s)
               else readline_loop s buf n so_far stream)"

definition conf_readline ::
    "os \<Rightarrow> buffer option \<Rightarrow> nat \<Rightarrow> string \<Rightarrow> int \<times> buffer option \<times> nat \<times> string \<times> os" where
  "conf_readline s lineptr n stream =
     (case readline_block s lineptr n of
        (ok, lineptr, n, s) \<Rightarrow>
          if \<not> ok then (- ENOMEM, lineptr, n, stream, s)
          else
            case readline_loop s (the lineptr) n 0 stream of
              (ok, buf, n, so_far, stream, s) \<Rightarrow>
                if \<not> ok then (- ENOMEM, Some buf, n, stream, s)
                else (sint (of_nat so_far :: u32), Some (buf[so_far := Some NUL]), n, stream, s))"

section \<open>Settings\<close>

text \<open>The body that seven of the settings share (shown in the code for \<open>BindAddress\<close>): release
  the old string, store NULL for an empty value, otherwise a copy of the value.\<close>

definition set_string :: "os \<Rightarrow> string option \<Rightarrow> string \<Rightarrow> nat \<Rightarrow> int \<times> string option \<times> os" where
  "set_string s old val val_len =
     (let s = free_opt s old in
      if val_len = 0 then (0, None, s)
      else
        case os_alloc s of (ok, s) \<Rightarrow>
          if ok then (0, Some (take val_len val), s) else (- ENOMEM, None, s))"

definition set_password :: "os \<Rightarrow> string \<Rightarrow> nat \<Rightarrow> proxy_conf \<Rightarrow> int \<times> proxy_conf \<times> os" where
  "set_password s val val_len conf =
     (case os_alloc (free_opt s (cf_password conf)) of (ok, s) \<Rightarrow>
        if \<not> ok then (- ENOMEM, conf\<lparr>cf_password := None\<rparr>, s)
        else if take val_len val = ''notset''
        then (- EINVAL, conf\<lparr>cf_password := None\<rparr>, os_free s)
        else (0, conf\<lparr>cf_password := Some (take val_len val)\<rparr>, s))"

text \<open>\<open>sscanf\<close> stores the number even if a character after it makes the setting invalid.\<close>

definition set_port :: "string \<Rightarrow> proxy_conf \<Rightarrow> int \<times> proxy_conf" where
  "set_port val conf =
     (case sscanf_u1s val of (n, v) \<Rightarrow>
        let conf = (case v of None \<Rightarrow> conf | Some v \<Rightarrow> conf\<lparr>cf_port := ucast v\<rparr>)
        in if n \<noteq> 1 then (- EINVAL, conf) else (0, conf))"

definition set_timeout :: "string \<Rightarrow> proxy_conf \<Rightarrow> int \<times> proxy_conf" where
  "set_timeout val conf =
     (case sscanf_u1s val of (n, v) \<Rightarrow>
        let conf = (case v of None \<Rightarrow> conf | Some v \<Rightarrow> conf\<lparr>cf_connection_timeout := ucast v\<rparr>)
        in if n \<noteq> 1 then (- EINVAL, conf) else (0, conf))"

text \<open>The additional addresses: the end of the address that starts at \<open>j\<close>, the copies of
  \<open>n\<close> addresses (with those made so far), and the setting.\<close>

function addr_end :: "string \<Rightarrow> nat \<Rightarrow> nat \<Rightarrow> nat" where
  "addr_end val val_len j =
     (if j < val_len \<and> val ! j \<noteq> CHR '','' then addr_end val val_len (j + 1) else j)"
  by pat_completeness auto

termination
  by (relation "measure (\<lambda>(val, val_len, j). val_len - j)") auto

declare addr_end.simps [simp del]

fun fill_addrs ::
    "os \<Rightarrow> string \<Rightarrow> nat \<Rightarrow> nat \<Rightarrow> nat \<Rightarrow> string option list \<Rightarrow> bool \<times> string option list \<times> os" where
  "fill_addrs s val val_len 0 k acc = (True, acc, s)"
| "fill_addrs s val val_len (Suc n) k acc =
     (let j = addr_end val val_len k in
      case os_alloc s of (ok, s) \<Rightarrow>
        if \<not> ok then (False, acc, s)
        else fill_addrs s val val_len n (j + 1) (acc @ [Some (take (j - k) (drop k val))]))"

definition count_addrs :: "string \<Rightarrow> nat \<Rightarrow> u16 \<Rightarrow> u16" where
  "count_addrs val val_len len =
     fold (\<lambda>i len. if val ! i = CHR '','' then len + 1 else len) [1..<val_len] len + 1"

definition set_addrs :: "os \<Rightarrow> string \<Rightarrow> nat \<Rightarrow> proxy_conf \<Rightarrow> int \<times> proxy_conf \<times> os" where
  "set_addrs s val val_len conf =
     (let s = free_opt s (cf_bind_addr_ext_add conf) in
      if val_len = 0
      then (0, conf\<lparr>cf_bind_addr_ext_add := None, cf_bind_addr_ext_add_len := 0\<rparr>, s)
      else
        let len = count_addrs val val_len (cf_bind_addr_ext_add_len conf) in
        case os_alloc s of (ok, s) \<Rightarrow>
          if \<not> ok
          then (- ENOMEM, conf\<lparr>cf_bind_addr_ext_add := None, cf_bind_addr_ext_add_len := len\<rparr>, s)
          else
            case fill_addrs s val val_len (unat len) 0 [] of (ok, addrs, s) \<Rightarrow>
              if ok
              then (0, conf\<lparr>cf_bind_addr_ext_add := Some addrs, cf_bind_addr_ext_add_len := len\<rparr>, s)
              else (- ENOMEM, conf\<lparr>cf_bind_addr_ext_add := None, cf_bind_addr_ext_add_len := 0\<rparr>,
                    os_free (fold (\<lambda>a s. free_opt s a) addrs s)))"

definition conf_parse_pair :: "os \<Rightarrow> string \<Rightarrow> nat \<Rightarrow> string \<Rightarrow> nat \<Rightarrow> proxy_conf \<Rightarrow> int \<times> proxy_conf \<times> os" where
  "conf_parse_pair s key key_len val val_len conf =
     (if key_len = 4 then
        if strncmp_eq key ''Port'' key_len
        then (case set_port val conf of (r, conf) \<Rightarrow> (r, conf, s))
        else (0, conf, s)
      else if key_len = 8 then
        if strncmp_eq key ''Password'' key_len then set_password s val val_len conf
        else (0, conf, s)
      else if key_len = 11 then
        if strncmp_eq key ''BindAddress'' key_len
        then (case set_string s (cf_bind_addr conf) val val_len of (r, p, s) \<Rightarrow> (r, conf\<lparr>cf_bind_addr := p\<rparr>, s))
        else (0, conf, s)
      else if key_len = 13 then
        if strncmp_eq key ''PublicAddress'' key_len
        then (case set_string s (cf_public_addr conf) val val_len of (r, p, s) \<Rightarrow> (r, conf\<lparr>cf_public_addr := p\<rparr>, s))
        else (0, conf, s)
      else if key_len = 15 then
        if strncmp_eq key ''CallsignsDenied'' key_len
        then (case set_string s (cf_calls_denied conf) val val_len of (r, p, s) \<Rightarrow> (r, conf\<lparr>cf_calls_denied := p\<rparr>, s))
        else (0, conf, s)
      else if key_len = 16 then
        if strncmp_eq key ''CallsignsAllowed'' key_len
        then (case set_string s (cf_calls_allowed conf) val val_len of (r, p, s) \<Rightarrow> (r, conf\<lparr>cf_calls_allowed := p\<rparr>, s))
        else if strncmp_eq key ''RegistrationName'' key_len
        then (case set_string s (cf_reg_name conf) val val_len of (r, p, s) \<Rightarrow> (r, conf\<lparr>cf_reg_name := p\<rparr>, s))
        else (0, conf, s)
      else if key_len = 17 then
        if strncmp_eq key ''ConnectionTimeout'' key_len
        then (case set_timeout val conf of (r, conf) \<Rightarrow> (r, conf, s))
        else (0, conf, s)
      else if key_len = 19 then
        if strncmp_eq key ''ExternalBindAddress'' key_len
        then (case set_string s (cf_bind_addr_ext conf) val val_len of (r, p, s) \<Rightarrow> (r, conf\<lparr>cf_bind_addr_ext := p\<rparr>, s))
        else if strncmp_eq key ''RegistrationComment'' key_len
        then (case set_string s (cf_reg_comment conf) val val_len of (r, p, s) \<Rightarrow> (r, conf\<lparr>cf_reg_comment := p\<rparr>, s))
        else (0, conf, s)
      else if key_len = 31 then
        if strncmp_eq key ''AdditionalExternalBindAddresses'' key_len then set_addrs s val val_len conf
        else (0, conf, s)
      else (0, conf, s))"

section \<open>Lines, streams and files\<close>

text \<open>\<open>conf_parse_line\<close>: \<open>find_eq\<close> is the loop that looks for the equals sign, \<open>backtrack\<close> the
  loops that shorten a text whose last characters are blank.\<close>

fun find_eq :: "string \<Rightarrow> nat option" where
  "find_eq [] = None"
| "find_eq (c # cs) = (if c = CHR ''='' then Some 0 else map_option Suc (find_eq cs))"

fun backtrack :: "(char \<Rightarrow> bool) \<Rightarrow> string \<Rightarrow> nat \<Rightarrow> nat" where
  "backtrack blank text 0 = 0"
| "backtrack blank text (Suc n) = (if blank (text ! n) then backtrack blank text n else Suc n)"

abbreviation blank2 :: "char \<Rightarrow> bool" where
  "blank2 c \<equiv> c = CHR '' '' \<or> c = TAB"

abbreviation blank4 :: "char \<Rightarrow> bool" where
  "blank4 c \<equiv> c = CHR '' '' \<or> c = TAB \<or> c = LF \<or> c = CR"

definition conf_parse_line :: "os \<Rightarrow> string \<Rightarrow> proxy_conf \<Rightarrow> int \<times> proxy_conf \<times> os" where
  "conf_parse_line s line conf =
     (let key = dropWhile blank4 line in
      if key = [] \<or> hd key = CHR ''#'' \<or> hd key = CHR ''='' then (0, conf, s)
      else
        case find_eq key of
          None \<Rightarrow> (0, conf, s)
        | Some key_len \<Rightarrow>
            let val = dropWhile blank2 (drop (key_len + 1) key);
                key_len = backtrack blank2 key key_len;
                val_len = backtrack blank4 val (length val)
            in conf_parse_pair s key key_len val val_len conf)"

text \<open>Every line that is read takes characters off the stream, so the loop over the lines ends.\<close>

lemma readline_loop_takes:
  "readline_loop s buf n so_far stream = (True, buf', n', so_far', stream', s') \<Longrightarrow>
   so_far' + length stream' = so_far + length stream"
proof (induction stream arbitrary: s buf n so_far)
  case (Cons temp stream)
  then show ?case
    by (fastforce simp: Let_def split: prod.splits if_splits)
qed simp

lemma conf_readline_takes:
  assumes "conf_readline s lineptr n stream = (r, lineptr', n', stream', s')" and "0 < r"
  shows "length stream' < length stream"
proof -
  have "sint (of_nat 0 :: u32) = 0"
    by simp
  moreover obtain ok l m s1 where "readline_block s lineptr n = (ok, l, m, s1)"
    by (rule prod_cases4)
  moreover obtain ok' buf m' so_far rest s2
    where "readline_loop s1 (the l) m 0 stream = (ok', buf, m', so_far, rest, s2)"
    by (rule prod_cases6)
  ultimately show ?thesis
    using assms readline_loop_takes [of s1 "the l" m 0 stream buf m' so_far rest s2]
    by (cases "so_far = 0") (auto simp: conf_readline_def split: if_splits)
qed

function parse_stream_loop :: "os \<Rightarrow> nat \<Rightarrow> string \<Rightarrow> proxy_conf \<Rightarrow> int \<times> proxy_conf \<times> os" where
  "parse_stream_loop s line_len stream conf =
     (case conf_readline s None line_len stream of
        (r, line, line_len, stream', s) \<Rightarrow>
          if r > 0
          then
            case conf_parse_line s (buf_str (the line)) conf of
              (ret, conf, s) \<Rightarrow>
                let s = free_opt s line in
                if ret < 0 then (ret, conf, s) else parse_stream_loop s line_len stream' conf
          else (0, conf, free_opt s line))"
  by pat_completeness auto

termination
  by (relation "measure (\<lambda>(s, line_len, stream, conf). length stream)")
     (auto dest: conf_readline_takes [OF sym])

declare parse_stream_loop.simps [simp del]

definition conf_parse_stream :: "os \<Rightarrow> string \<Rightarrow> proxy_conf \<Rightarrow> int \<times> proxy_conf \<times> os" where
  "conf_parse_stream s stream conf = parse_stream_loop s 0 stream conf"

text \<open>\<open>conf_parse_file\<close>: \<open>content\<close> is the text of the file, which \<open>fopen\<close> may fail to open.\<close>

definition conf_parse_file :: "(string \<Rightarrow> string) \<Rightarrow> os \<Rightarrow> string \<Rightarrow> proxy_conf \<Rightarrow> int \<times> proxy_conf \<times> os" where
  "conf_parse_file content s file conf =
     (case os_try s of (e, s) \<Rightarrow>
        if e \<noteq> 0 then (- e, conf, s) else conf_parse_stream s (content file) conf)"

section \<open>Life cycle\<close>

definition conf_init :: "proxy_conf \<Rightarrow> int \<times> proxy_conf" where
  "conf_init conf = (0, conf\<lparr>cf_password := None, cf_port := 8100\<rparr>)"

text \<open>\<open>conf_free\<close>: the array is walked up to the length the configuration records.\<close>

definition free_addrs :: "os \<Rightarrow> proxy_conf \<Rightarrow> proxy_conf \<times> os" where
  "free_addrs s conf =
     (case cf_bind_addr_ext_add conf of
        None \<Rightarrow> (conf, s)
      | Some addrs \<Rightarrow>
          (conf\<lparr>cf_bind_addr_ext_add := None, cf_bind_addr_ext_add_len := 0\<rparr>,
           os_free (fold (\<lambda>i s. free_opt s (addrs ! i)) [0..<unat (cf_bind_addr_ext_add_len conf)] s)))"

definition conf_free :: "os \<Rightarrow> proxy_conf \<Rightarrow> proxy_conf \<times> os" where
  "conf_free s conf =
     (case free_addrs s conf of (conf, s) \<Rightarrow>
        let s = free_opt s (cf_bind_addr conf);
            s = free_opt s (cf_bind_addr_ext conf);
            s = free_opt s (cf_calls_allowed conf);
            s = free_opt s (cf_calls_denied conf);
            s = free_opt s (cf_password conf);
            s = free_opt s (cf_reg_name conf);
            s = free_opt s (cf_reg_comment conf);
            s = free_opt s (cf_public_addr conf)
        in (conf\<lparr>cf_bind_addr := None, cf_bind_addr_ext := None, cf_calls_allowed := None,
                 cf_calls_denied := None, cf_password := None, cf_reg_name := None,
                 cf_reg_comment := None, cf_public_addr := None\<rparr>, s))"

section \<open>Specification\<close>

text \<open>The blocks a configuration owns; \<open>addr_strings\<close> are those the array points to.  In a
  well-formed configuration the recorded length is that of the array, and no entry is NULL.\<close>

definition opt_block :: "'a option \<Rightarrow> int" where
  "opt_block p = (if p = None then 0 else 1)"

definition addr_strings :: "proxy_conf \<Rightarrow> int" where
  "addr_strings conf =
     (case cf_bind_addr_ext_add conf of None \<Rightarrow> 0 | Some addrs \<Rightarrow> sum_list (map opt_block addrs))"

definition conf_blocks :: "proxy_conf \<Rightarrow> int" where
  "conf_blocks conf =
     opt_block (cf_bind_addr conf) + opt_block (cf_bind_addr_ext conf) + opt_block (cf_calls_allowed conf) +
     opt_block (cf_calls_denied conf) + opt_block (cf_password conf) + opt_block (cf_reg_name conf) +
     opt_block (cf_reg_comment conf) + opt_block (cf_public_addr conf) +
     opt_block (cf_bind_addr_ext_add conf) + addr_strings conf"

definition conf_wf :: "proxy_conf \<Rightarrow> bool" where
  "conf_wf conf \<longleftrightarrow>
     (case cf_bind_addr_ext_add conf of
        None \<Rightarrow> True
      | Some addrs \<Rightarrow> length addrs = unat (cf_bind_addr_ext_add_len conf) \<and> None \<notin> set addrs)"

text \<open>Whether a setting is that of the additional addresses.\<close>

definition addrs_key :: "string \<Rightarrow> nat \<Rightarrow> bool" where
  "addrs_key key key_len \<longleftrightarrow> key_len = 31 \<and> strncmp_eq key ''AdditionalExternalBindAddresses'' key_len"

text \<open>The text of a configuration: one line per setting, an empty value for NULL; a password
  that is NULL has no line, since an empty password is a password.\<close>

definition setting :: "string \<Rightarrow> string \<Rightarrow> string" where
  "setting key val = key @ CHR ''='' # val @ [LF]"

definition opt_text :: "string option \<Rightarrow> string" where
  "opt_text p = (case p of None \<Rightarrow> [] | Some v \<Rightarrow> v)"

fun commas :: "string list \<Rightarrow> string" where
  "commas [] = []"
| "commas [x] = x"
| "commas (x # y # xs) = x @ CHR '','' # commas (y # xs)"

definition conf_text :: "proxy_conf \<Rightarrow> string" where
  "conf_text conf =
     setting ''Port'' (dec (unat (cf_port conf))) @
     (case cf_password conf of None \<Rightarrow> [] | Some v \<Rightarrow> setting ''Password'' v) @
     setting ''BindAddress'' (opt_text (cf_bind_addr conf)) @
     setting ''PublicAddress'' (opt_text (cf_public_addr conf)) @
     setting ''CallsignsDenied'' (opt_text (cf_calls_denied conf)) @
     setting ''CallsignsAllowed'' (opt_text (cf_calls_allowed conf)) @
     setting ''RegistrationName'' (opt_text (cf_reg_name conf)) @
     setting ''ConnectionTimeout'' (dec (unat (cf_connection_timeout conf))) @
     setting ''ExternalBindAddress'' (opt_text (cf_bind_addr_ext conf)) @
     setting ''RegistrationComment'' (opt_text (cf_reg_comment conf)) @
     setting ''AdditionalExternalBindAddresses''
       (case cf_bind_addr_ext_add conf of None \<Rightarrow> [] | Some addrs \<Rightarrow> commas (map opt_text addrs))"

text \<open>What the format can express: values on one line that neither start nor end with a blank,
  addresses without commas, no empty value but the password, and not the password that stands
  for a missing one.\<close>

definition value_ok :: "string \<Rightarrow> bool" where
  "value_ok v \<longleftrightarrow> NUL \<notin> set v \<and> LF \<notin> set v \<and> length v < 2 ^ 30 \<and>
     (v \<noteq> [] \<longrightarrow> \<not> blank4 (hd v) \<and> \<not> blank4 (last v))"

definition opt_ok :: "string option \<Rightarrow> bool" where
  "opt_ok p \<longleftrightarrow> (case p of None \<Rightarrow> True | Some v \<Rightarrow> v \<noteq> [] \<and> value_ok v)"

definition addrs_ok :: "string option list \<Rightarrow> bool" where
  "addrs_ok addrs \<longleftrightarrow> addrs \<noteq> [] \<and> (\<forall>a \<in> set addrs. a \<noteq> None \<and> opt_ok a \<and> CHR '','' \<notin> set (opt_text a)) \<and>
     length (commas (map opt_text addrs)) < 2 ^ 30"

definition conf_ok :: "proxy_conf \<Rightarrow> bool" where
  "conf_ok conf \<longleftrightarrow>
     opt_ok (cf_bind_addr conf) \<and> opt_ok (cf_bind_addr_ext conf) \<and> opt_ok (cf_calls_allowed conf) \<and>
     opt_ok (cf_calls_denied conf) \<and> opt_ok (cf_reg_name conf) \<and> opt_ok (cf_reg_comment conf) \<and>
     opt_ok (cf_public_addr conf) \<and>
     (case cf_password conf of None \<Rightarrow> True | Some v \<Rightarrow> value_ok v \<and> v \<noteq> ''notset'') \<and>
     (case cf_bind_addr_ext_add conf of
        None \<Rightarrow> cf_bind_addr_ext_add_len conf = 0
      | Some addrs \<Rightarrow> addrs_ok addrs \<and> length addrs = unat (cf_bind_addr_ext_add_len conf))"

text \<open>A zeroed configuration.\<close>

definition zero_conf :: proxy_conf where
  "zero_conf = \<lparr>cf_bind_addr = None, cf_bind_addr_ext = None, cf_bind_addr_ext_add = None, cf_calls_allowed = None,
     cf_calls_denied = None, cf_password = None, cf_reg_name = None, cf_reg_comment = None, cf_public_addr = None,
     cf_connection_timeout = 0, cf_bind_addr_ext_add_len = 0, cf_port = 0\<rparr>"

text \<open>A text that, with all allocations successful, takes one configuration to another.\<close>

definition text_gives :: "string \<Rightarrow> proxy_conf \<Rightarrow> proxy_conf \<Rightarrow> bool" where
  "text_gives t conf conf' \<longleftrightarrow>
     (\<forall>s n rest. script s = [] \<longrightarrow>
        (\<exists>s' n'. script s' = [] \<and> parse_stream_loop s n (t @ rest) conf = parse_stream_loop s' n' rest conf'))"

text \<open>A key that the line parser takes as it is, and the configuration and environment of the witnesses.\<close>

definition key_ok :: "string \<Rightarrow> bool" where
  "key_ok key \<longleftrightarrow> key \<noteq> [] \<and> set key \<inter> {CHR ''='', NUL, LF} = {} \<and> \<not> blank4 (hd key) \<and> hd key \<noteq> CHR ''#'' \<and>
     \<not> blank2 (last key) \<and> length key < 2 ^ 20"

definition wit_conf :: proxy_conf where
  "wit_conf = zero_conf\<lparr>cf_port := 8101, cf_password := Some ''secret'', cf_reg_name := Some ''A Proxy'',
     cf_bind_addr_ext_add := Some [Some ''10.0.0.1'', Some ''10.0.0.2''], cf_bind_addr_ext_add_len := 2\<rparr>"

definition wit_conf_os :: os where
  "wit_conf_os = \<lparr>script = [], live = 0, threads = 0, next_fd = 3, socks = (\<lambda>_. None), peers = []\<rparr>"

section \<open>Blocks\<close>

lemma free_opt_live [simp]: "live (free_opt s p) = live s - opt_block p"
  by (simp add: free_opt_def opt_block_def)

lemma opt_block_simps [simp]: "opt_block None = 0" "opt_block (Some x) = 1"
  by (simp_all add: opt_block_def)

lemma conf_wf_upd [simp]:
  "conf_wf (conf\<lparr>cf_password := x0\<rparr>) = conf_wf conf"
  "conf_wf (conf\<lparr>cf_bind_addr := x1\<rparr>) = conf_wf conf"
  "conf_wf (conf\<lparr>cf_public_addr := x2\<rparr>) = conf_wf conf"
  "conf_wf (conf\<lparr>cf_calls_denied := x3\<rparr>) = conf_wf conf"
  "conf_wf (conf\<lparr>cf_calls_allowed := x4\<rparr>) = conf_wf conf"
  "conf_wf (conf\<lparr>cf_reg_name := x5\<rparr>) = conf_wf conf"
  "conf_wf (conf\<lparr>cf_bind_addr_ext := x6\<rparr>) = conf_wf conf"
  "conf_wf (conf\<lparr>cf_reg_comment := x7\<rparr>) = conf_wf conf"
  "conf_wf (conf\<lparr>cf_port := x8\<rparr>) = conf_wf conf"
  "conf_wf (conf\<lparr>cf_connection_timeout := x9\<rparr>) = conf_wf conf"
  by (simp_all add: conf_wf_def cong: option.case_cong)

lemma addr_strings_upd [simp]:
  "addr_strings (conf\<lparr>cf_password := x0\<rparr>) = addr_strings conf"
  "addr_strings (conf\<lparr>cf_bind_addr := x1\<rparr>) = addr_strings conf"
  "addr_strings (conf\<lparr>cf_public_addr := x2\<rparr>) = addr_strings conf"
  "addr_strings (conf\<lparr>cf_calls_denied := x3\<rparr>) = addr_strings conf"
  "addr_strings (conf\<lparr>cf_calls_allowed := x4\<rparr>) = addr_strings conf"
  "addr_strings (conf\<lparr>cf_reg_name := x5\<rparr>) = addr_strings conf"
  "addr_strings (conf\<lparr>cf_bind_addr_ext := x6\<rparr>) = addr_strings conf"
  "addr_strings (conf\<lparr>cf_reg_comment := x7\<rparr>) = addr_strings conf"
  "addr_strings (conf\<lparr>cf_port := x8\<rparr>) = addr_strings conf"
  "addr_strings (conf\<lparr>cf_connection_timeout := x9\<rparr>) = addr_strings conf"
  by (simp_all add: addr_strings_def)

lemma fold_free_live: "live (fold (\<lambda>a s. free_opt s a) addrs s) = live s - sum_list (map opt_block addrs)"
  by (induction addrs arbitrary: s) simp_all

lemma set_string_live:
  "set_string s old val val_len = (r, p, s') \<Longrightarrow> live s' - opt_block p = live s - opt_block old"
  by (auto simp: set_string_def Let_def dest!: os_alloc_live split: if_splits prod.splits)

lemma set_password_live:
  "set_password s val val_len conf = (r, conf', s') \<Longrightarrow>
   live s' - conf_blocks conf' = live s - conf_blocks conf \<and> conf_wf conf' = conf_wf conf"
  by (auto simp: set_password_def conf_blocks_def dest!: os_alloc_live
      split: if_splits prod.splits)

lemma fill_addrs_live:
  "fill_addrs s val val_len n k acc = (ok, addrs, s') \<Longrightarrow>
   \<exists>new. addrs = acc @ map Some new \<and> live s' = live s + int (length new) \<and> (ok \<longrightarrow> length new = n)"
proof (induction n arbitrary: s k acc)
  case (Suc n)
  obtain got s1 where a: "os_alloc s = (got, s1)"
    by (rule prod.exhaust)
  show ?case
  proof (cases got)
    case True
    define d where "d = take (addr_end val val_len k - k) (drop k val)"
    from Suc.prems a True obtain new where "addrs = (acc @ [Some d]) @ map Some new"
      "live s' = live s1 + int (length new)" "ok \<longrightarrow> length new = n"
      using Suc.IH [of s1 "Suc (addr_end val val_len k)" "acc @ [Some d]"] by (auto simp: Let_def d_def)
    with os_alloc_live [OF a] True show ?thesis
      by (intro exI [of _ "d # new"]) simp
  qed (use Suc.prems a os_alloc_live [OF a] in simp)
qed simp

lemma sum_opt_block_Some [simp]: "sum_list (map (opt_block \<circ> Some) xs) = int (length xs)"
  by (induction xs) simp_all

lemma set_addrs_live:
  assumes "set_addrs s val val_len conf = (r, conf', s')"
  shows "live s' - conf_blocks conf' = live s - conf_blocks conf + addr_strings conf \<and> conf_wf conf'"
proof -
  define len where "len = count_addrs val val_len (cf_bind_addr_ext_add_len conf)"
  obtain got s1 where a: "os_alloc (free_opt s (cf_bind_addr_ext_add conf)) = (got, s1)"
    by (rule prod.exhaust)
  obtain ok addrs s2 where f: "fill_addrs s1 val val_len (unat len) 0 [] = (ok, addrs, s2)"
    by (rule prod_cases3)
  obtain new where "addrs = map Some new" "live s2 = live s1 + int (length new)" "ok \<longrightarrow> length new = unat len"
    using fill_addrs_live [OF f] by auto
  with assms a f os_alloc_live [OF a] show ?thesis
    by (auto simp: set_addrs_def Let_def conf_blocks_def conf_wf_def addr_strings_def fold_free_live
        simp flip: len_def split: if_splits)
qed

lemma set_number_live:
  "set_port val conf = (r, conf') \<Longrightarrow> conf_blocks conf' = conf_blocks conf \<and> conf_wf conf' = conf_wf conf"
  "set_timeout val conf = (r, conf') \<Longrightarrow> conf_blocks conf' = conf_blocks conf \<and> conf_wf conf' = conf_wf conf"
  by (auto simp: set_port_def set_timeout_def Let_def conf_blocks_def split: prod.splits option.splits if_splits)

lemma conf_parse_pair_live:
  assumes "conf_parse_pair s key key_len val val_len conf = (r, conf', s')" and "conf_wf conf"
  shows "conf_wf conf' \<and> live s' - conf_blocks conf' =
    live s - conf_blocks conf + (if addrs_key key key_len then addr_strings conf else 0)"
  using assms unfolding conf_parse_pair_def addrs_key_def
  by (auto dest: set_number_live set_password_live set_addrs_live dest!: set_string_live
      simp: conf_blocks_def split: if_splits prod.splits)

lemma fold_free_nth:
  "length addrs = n \<Longrightarrow>
   live (fold (\<lambda>i s. free_opt s (addrs ! i)) [0..<n] s) = live s - sum_list (map opt_block addrs)"
proof -
  have "fold (\<lambda>a s. free_opt s a) (map ((!) addrs) [0..<length addrs]) s = fold (\<lambda>a s. free_opt s a) addrs s"
    by (simp only: map_nth)
  then show "length addrs = n \<Longrightarrow> ?thesis"
    using fold_free_live [of addrs s] by (auto simp: fold_map comp_def)
qed

lemma conf_free_live:
  assumes "conf_free s conf = (conf', s')" and "conf_wf conf"
  shows "live s' = live s - conf_blocks conf \<and> conf_blocks conf' = 0"
proof -
  have "live (snd (free_addrs s conf)) = live s - opt_block (cf_bind_addr_ext_add conf) - addr_strings conf"
    using assms(2)
    by (auto simp: free_addrs_def conf_wf_def addr_strings_def fold_free_nth split: option.splits)
  moreover have "cf_bind_addr_ext_add (fst (free_addrs s conf)) = None"
    by (simp add: free_addrs_def split: option.splits)
  ultimately show ?thesis
    using assms(1) by (auto simp: conf_free_def free_addrs_def conf_blocks_def addr_strings_def Let_def split: option.splits)
qed

section \<open>Reading lines\<close>

lemma os_try_empty [simp]: "script s = [] \<Longrightarrow> os_try s = (0, s)"
  by (simp add: os_try_def)

lemma os_alloc_empty [simp]: "script s = [] \<Longrightarrow> os_alloc s = (True, s\<lparr>live := live s + 1\<rparr>)"
  by (simp add: os_alloc_def)

lemma free_opt_script [simp]: "script (free_opt s p) = script s"
  by (simp add: free_opt_def os_free_def)

text \<open>Whatever the length of the line, it ends up in the buffer, and there is room for the NUL.\<close>

lemma readline_loop_line:
  assumes "script s = []" and "LF \<notin> set l" and "length buf = n" and "length pre < n"
    and "take (length pre) buf = map Some pre"
  shows "\<exists>buf' n'. readline_loop s buf n (length pre) (l @ LF # rest) =
      (True, buf', n', length pre + length l + 1, rest, s) \<and>
    length buf' = n' \<and> length pre + length l + 1 < n' \<and>
    take (length pre + length l + 1) buf' = map Some (pre @ l @ [LF])"
  using assms
proof (induction l arbitrary: buf n pre)
  case Nil
  define buf1 n1 where "buf1 = (if length pre + 1 \<ge> n then buf @ replicate 128 None else buf)"
    and "n1 = (if length pre + 1 \<ge> n then n + 128 else n)"
  have "length buf1 = n1" "length pre + 1 < n1" "take (length pre) buf1 = map Some pre"
    using Nil by (auto simp: buf1_def n1_def)
  then have "take (Suc (length pre)) (buf1[length pre := Some LF]) = map Some (pre @ [LF])"
    by (simp add: take_Suc_conv_app_nth)
  moreover have "readline_loop s buf n (length pre) (LF # rest) =
      (True, buf1[length pre := Some LF], n1, Suc (length pre), rest, s)"
    using Nil by (simp add: buf1_def n1_def)
  ultimately show ?case
    using \<open>length buf1 = n1\<close> \<open>length pre + 1 < n1\<close> by simp
next
  case (Cons c l)
  define buf1 n1 where "buf1 = (if length pre + 1 \<ge> n then buf @ replicate 128 None else buf)"
    and "n1 = (if length pre + 1 \<ge> n then n + 128 else n)"
  have b: "length buf1 = n1" "length pre + 1 < n1" "take (length pre) buf1 = map Some pre"
    using Cons.prems by (auto simp: buf1_def n1_def)
  then have t: "take (length (pre @ [c])) (buf1[length pre := Some c]) = map Some (pre @ [c])"
    by (simp add: take_Suc_conv_app_nth)
  have "readline_loop s buf n (length pre) ((c # l) @ LF # rest) =
      readline_loop s (buf1[length pre := Some c]) n1 (length (pre @ [c])) (l @ LF # rest)"
    using Cons.prems by (auto simp: buf1_def n1_def Let_def)
  then show ?case
    using Cons.IH [OF Cons.prems(1) _ _ _ t, of n1] Cons.prems(2) b by simp
qed

lemma buf_str_take:
  assumes "take n buf = map Some l" and "length l = n" and "n < length buf"
  shows "buf_str (buf[n := Some NUL]) = cstr l"
proof -
  have "buf[n := Some NUL] = map Some l @ Some NUL # drop (Suc n) buf"
    using assms by (simp add: upd_conv_take_nth_drop)
  moreover have "map the (takeWhile (\<lambda>c. c \<noteq> None \<and> c \<noteq> Some NUL) (map Some l @ Some NUL # r)) = cstr l" for r
    unfolding cstr_def by (induction l) auto
  ultimately show ?thesis
    by (simp only: buf_str_def)
qed

lemma sint_of_nat_small: "n < 2 ^ 31 \<Longrightarrow> sint (of_nat n :: u32) = int n"
  by (simp add: signed_of_nat signed_take_bit_int_eq_self)

lemma conf_readline_line:
  assumes "script s = []" and "LF \<notin> set l" and "length l + 1 < 2 ^ 31"
  shows "\<exists>buf n'. conf_readline s None n (l @ LF # rest) =
      (int (length l) + 1, Some buf, n', rest, s\<lparr>live := live s + 1\<rparr>) \<and>
    buf_str buf = cstr (l @ [LF])"
proof -
  obtain buf n' where "readline_loop (s\<lparr>live := live s + 1\<rparr>) (replicate 128 None) 128 0 (l @ LF # rest) =
      (True, buf, n', length l + 1, rest, s\<lparr>live := live s + 1\<rparr>)"
    and "length buf = n'" "length l + 1 < n'" "take (length l + 1) buf = map Some (l @ [LF])"
    using readline_loop_line [of "s\<lparr>live := live s + 1\<rparr>" l "replicate 128 None" 128 "[]" rest] assms by auto
  then show ?thesis
    using assms buf_str_take [of "length l + 1" buf "l @ [LF]"] sint_of_nat_small [of "length l + 1"]
    by (simp add: conf_readline_def readline_block_def del: of_nat_Suc of_nat_add)
qed

lemma text_gives_line:
  assumes "\<And>s. script s = [] \<Longrightarrow> \<exists>s'. conf_parse_line s (l @ [LF]) conf = (0, conf', s') \<and> script s' = []"
    and "LF \<notin> set l" and "NUL \<notin> set l" and "length l + 1 < 2 ^ 31"
  shows "text_gives (l @ [LF]) conf conf'"
  unfolding text_gives_def
proof (intro allI impI)
  fix s n rest
  assume s: "script (s :: os) = []"
  obtain buf n' where r: "conf_readline s None n (l @ LF # rest) =
      (int (length l) + 1, Some buf, n', rest, s\<lparr>live := live s + 1\<rparr>)" "buf_str buf = l @ [LF]"
    using conf_readline_line [OF s assms(2,4), of n rest] assms(3) by auto
  obtain s' where "conf_parse_line (s\<lparr>live := live s + 1\<rparr>) (l @ [LF]) conf = (0, conf', s')" "script s' = []"
    using assms(1) [of "s\<lparr>live := live s + 1\<rparr>"] s by auto
  then show "\<exists>s' n'. script s' = [] \<and>
      parse_stream_loop s n ((l @ [LF]) @ rest) conf = parse_stream_loop s' n' rest conf'"
    using r by (intro exI [of _ "free_opt s' (Some buf)"] exI [of _ n'])
      (simp add: parse_stream_loop.simps [of s n "l @ LF # rest"])
qed

lemma text_gives_append: "text_gives t c c1 \<Longrightarrow> text_gives t' c1 c2 \<Longrightarrow> text_gives (t @ t') c c2"
  unfolding text_gives_def by (metis append_assoc)

lemma text_gives_Nil: "text_gives [] c c"
  unfolding text_gives_def by auto

lemma text_gives_stream:
  assumes "text_gives t c c'" and "script s = []"
  shows "\<exists>s'. conf_parse_stream s t c = (0, c', s')"
proof -
  obtain s' n' where "script s' = []" and p: "conf_parse_stream s t c = parse_stream_loop s' n' [] c'"
    using assms unfolding text_gives_def conf_parse_stream_def by (metis append_Nil2)
  then show ?thesis
    by (simp add: p parse_stream_loop.simps [of s' n' "[]"] conf_readline_def readline_block_def)
qed

section \<open>Parsing a setting\<close>

lemma find_eq_key: "CHR ''='' \<notin> set key \<Longrightarrow> find_eq (key @ CHR ''='' # r) = Some (length key)"
  by (induction key) auto

lemma backtrack_blank: "\<forall>c \<in> set y. p c \<Longrightarrow> backtrack p (x @ y) (length x + length y) = backtrack p (x @ y) (length x)"
proof (induction y rule: rev_induct)
  case (snoc c y)
  have "backtrack p (x @ y @ [c]) n = backtrack p (x @ y) n" if "n \<le> length x + length y" for n
    using that by (induction n) (auto simp: nth_append)
  with snoc show ?case
    by simp
qed simp

lemma backtrack_stop: "x = [] \<or> \<not> p (last x) \<Longrightarrow> backtrack p (x @ y) (length x) = length x"
  by (cases x rule: rev_cases) (auto simp: nth_append)

lemma conf_parse_line_setting:
  assumes "key_ok key" and "value_ok v"
  shows "conf_parse_line s (setting key v) conf =
    conf_parse_pair s (setting key v) (length key) (v @ [LF]) (length v) conf"
proof -
  have k: "dropWhile blank4 (setting key v) = setting key v" "hd (setting key v) = hd key" "setting key v \<noteq> []"
    using assms(1) by (cases key; simp add: setting_def key_ok_def)+
  have "dropWhile blank2 (v @ [LF]) = v @ [LF]"
    using assms(2) by (cases v) (auto simp: value_ok_def)
  moreover have "backtrack blank4 (v @ [LF]) (Suc (length v)) = length v"
    using assms(2) backtrack_blank [of "[LF]" blank4 v] backtrack_stop [of v blank4 "[LF]"]
    by (auto simp: value_ok_def)
  moreover have "backtrack blank2 (setting key v) (length key) = length key"
    using assms(1) backtrack_stop [of key blank2] by (auto simp: setting_def key_ok_def)
  moreover have "find_eq (setting key v) = Some (length key)"
    using assms(1) find_eq_key by (auto simp: setting_def key_ok_def)
  moreover have "drop (Suc (length key)) (setting key v) = v @ [LF]"
    by (simp add: setting_def)
  moreover have "hd key \<noteq> CHR ''=''" "hd key \<noteq> CHR ''#''"
    using assms(1) by (cases key; auto simp: key_ok_def)+
  ultimately show ?thesis
    unfolding conf_parse_line_def Let_def k by (simp add: k)
qed

lemma text_gives_setting:
  assumes "key_ok key" and "value_ok v"
    and "\<And>s. script s = [] \<Longrightarrow>
      \<exists>s'. conf_parse_pair s (setting key v) (length key) (v @ [LF]) (length v) conf = (0, conf', s') \<and> script s' = []"
  shows "text_gives (setting key v) conf conf'"
proof -
  have "setting key v = (key @ CHR ''='' # v) @ [LF]"
    by (simp add: setting_def)
  then show ?thesis
    using assms text_gives_line [of "key @ CHR ''='' # v" conf conf'] conf_parse_line_setting [OF assms(1,2)]
    by (simp add: key_ok_def value_ok_def)
qed

lemma setting_key: "strncmp_eq (setting key v) k (length key) \<longleftrightarrow> key = take (length key) k"
  by (auto simp: strncmp_eq_def setting_def)

section \<open>Values\<close>

lemma set_string_value:
  assumes "script s = []" and "opt_ok p"
  shows "\<exists>s'. set_string s old (opt_text p @ [LF]) (length (opt_text p)) = (0, p, s') \<and> script s' = []"
  using assms by (auto simp: set_string_def opt_ok_def opt_text_def Let_def split: option.splits)

lemma opt_text_ok: "opt_ok p \<Longrightarrow> value_ok (opt_text p)"
  by (auto simp: opt_ok_def opt_text_def value_ok_def split: option.splits)

lemma dec_is_digits: "\<forall>c \<in> set (dec n). c_digit c"
proof (induction n rule: dec.induct)
  case (1 n)
  have d: "c_digit (char_of (48 + k))" if "k < 10" for k :: nat
    using that by (simp add: c_digit_def)
  from 1 show ?case
    using d [of n] d [of "n mod 10"] by (subst dec.simps) simp
qed

lemma dec_number_dec: "dec_number (dec n) = n"
proof (induction n rule: dec.induct)
  case (1 n)
  then show ?case
    by (subst dec.simps) (auto simp: dec_number_def)
qed

lemma c_digit_other: "c_digit c \<Longrightarrow> \<not> c_space c \<and> \<not> blank4 c \<and> c \<noteq> CHR ''-'' \<and> c \<noteq> CHR ''+'' \<and> c \<noteq> NUL \<and> c \<noteq> LF"
  by (auto simp: c_digit_def c_space_def)

lemma scan_unsigned_dec: "n < 2 ^ 64 \<Longrightarrow> scan_unsigned (dec n @ [LF]) = Some (of_nat n, [LF])"
proof -
  assume n: "n < 2 ^ 64"
  have "\<not> c_digit LF"
    by (simp add: c_digit_def)
  then have t: "takeWhile c_digit (dec n @ [LF]) = dec n" "dropWhile c_digit (dec n @ [LF]) = [LF]"
    using dec_is_digits [of n] by (simp_all add: takeWhile_append dropWhile_append)
  obtain c cs where d: "dec n = c # cs"
    using dec_nonempty [of n] by (cases "dec n") auto
  then have "c_digit c"
    using dec_is_digits [of n] by auto
  then show ?thesis
    using c_digit_other [of c] t n dec_number_dec [of n]
    by (simp add: scan_unsigned_def d strtoul_value_def)
qed

lemma sscanf_dec: "n < 2 ^ 64 \<Longrightarrow> sscanf_u1s (dec n @ [LF]) = (1, Some (of_nat n))"
  by (simp add: sscanf_u1s_def scan_unsigned_dec c_space_def)

lemma ucast_back: "ucast (ucast p :: u64) = (p :: u16)" "ucast (ucast q :: u64) = (q :: u32)"
  by (rule bit_word_eqI; auto simp: bit_simps dest: bit_imp_le_length)+

lemma set_port_dec: "set_port (dec (unat p) @ [LF]) conf = (0, conf\<lparr>cf_port := p\<rparr>)"
proof -
  have "unat p < 2 ^ 64"
    using unsigned_less [of p, where ?'a = nat] by simp
  then show ?thesis
    by (simp add: set_port_def sscanf_dec ucast_back)
qed

lemma set_timeout_dec: "set_timeout (dec (unat p) @ [LF]) conf = (0, conf\<lparr>cf_connection_timeout := p\<rparr>)"
proof -
  have "unat p < 2 ^ 64"
    using unsigned_less [of p, where ?'a = nat] by simp
  then show ?thesis
    by (simp add: set_timeout_def sscanf_dec ucast_back)
qed

lemma dec_ok: "n < 2 ^ 64 \<Longrightarrow> value_ok (dec n)"
proof -
  assume "n < 2 ^ 64"
  then have "length (dec n) \<le> 20"
    using length_dec [of n 19] by simp
  moreover have "c_digit (hd (dec n))" "c_digit (last (dec n))"
    using dec_is_digits [of n] dec_nonempty [of n] by auto
  ultimately show ?thesis
    using dec_is_digits [of n] c_digit_other [of "hd (dec n)"] c_digit_other [of "last (dec n)"] c_digit_other
    unfolding value_ok_def by auto
qed

section \<open>The additional addresses\<close>

lemma addr_end_at:
  assumes "drop k val = x @ r" and "CHR '','' \<notin> set x" and "k + length x \<le> val_len"
    and "k + length x = val_len \<or> (\<exists>r'. r = CHR '','' # r')" and "k \<le> length val"
  shows "addr_end val val_len k = k + length x"
  using assms
proof (induction x arbitrary: k)
  case Nil
  then show ?case
    by (subst addr_end.simps) (auto dest: nth_via_drop)
next
  case (Cons c x)
  then have "k < length val"
    by (metis append_Cons drop_all linorder_not_le list.distinct(1))
  then have "val ! k = c" "drop (Suc k) val = x @ r" "Suc k \<le> length val"
    using Cons_nth_drop_Suc [of k val] Cons.prems(1) by simp_all
  with Cons show ?case
    by (subst addr_end.simps) auto
qed

lemma fill_addrs_commas:
  assumes "script s = []" and "drop k val = commas xs @ [LF]" and "k + length (commas xs) = val_len"
    and "k \<le> length val" and "\<forall>x \<in> set xs. CHR '','' \<notin> set x"
  shows "\<exists>s'. fill_addrs s val val_len (length xs) k acc = (True, acc @ map Some xs, s') \<and> script s' = []"
  using assms
proof (induction xs arbitrary: s k acc rule: commas.induct)
  case (2 x)
  then have "addr_end val val_len k = k + length x"
    by (intro addr_end_at [of _ _ _ "[LF]"]) auto
  with 2 show ?case
    by (simp add: Let_def)
next
  case (3 x y xs)
  then have e: "addr_end val val_len k = k + length x"
    by (intro addr_end_at [of _ _ _ "CHR '','' # commas (y # xs) @ [LF]"]) auto
  have "drop (Suc (length x)) (drop k val) = commas (y # xs) @ [LF]"
    using "3.prems"(2) by simp
  then have d: "drop (Suc (k + length x)) val = commas (y # xs) @ [LF]"
    by (simp add: add.commute)
  moreover have "Suc (k + length x) \<le> length val"
    using arg_cong [OF d, of length] by auto
  moreover have "fill_addrs s val val_len (Suc n) k acc =
      fill_addrs (s\<lparr>live := live s + 1\<rparr>) val val_len n (Suc (k + length x)) (acc @ [Some x])" for n
    using "3.prems" e by (simp add: Let_def)
  ultimately show ?case
    using "3.IH" [of "s\<lparr>live := live s + 1\<rparr>" "Suc (k + length x)" "acc @ [Some x]"] "3.prems"
    by (simp del: fill_addrs.simps)
qed auto

lemma count_addrs_filter:
  "count_addrs val val_len len = len + of_nat (length (filter (\<lambda>i. val ! i = CHR '','') [1..<val_len])) + 1"
proof -
  have "fold (\<lambda>i len. if val ! i = CHR '','' then len + 1 else len) is len =
      len + of_nat (length (filter (\<lambda>i. val ! i = CHR '','') is))" for "is" and len :: u16
    by (induction "is" arbitrary: len) (auto simp: algebra_simps)
  then show ?thesis
    by (simp add: count_addrs_def)
qed

lemma filter_commas:
  "xs \<noteq> [] \<Longrightarrow> \<forall>x \<in> set xs. CHR '','' \<notin> set x \<Longrightarrow>
   length (filter (\<lambda>c. c = CHR '','') (commas xs)) = length xs - 1"
proof (induction xs rule: commas.induct)
  case (3 x y xs)
  moreover have "filter (\<lambda>c. c = CHR '','') x = []"
    using "3.prems" by (auto simp: filter_empty_conv)
  ultimately show ?case
    by simp
qed (auto simp: filter_empty_conv)

lemma length_filter_nth: "length (filter (\<lambda>i. P (xs ! i)) [0..<length xs]) = length (filter P xs)"
proof -
  have "filter P (map ((!) xs) [0..<length xs]) = map ((!) xs) (filter (P \<circ> (!) xs) [0..<length xs])"
    by (rule filter_map)
  then show ?thesis
    by (simp add: map_nth comp_def)
qed

lemma commas_first: "xs \<noteq> [] \<Longrightarrow> hd xs \<noteq> [] \<Longrightarrow> commas xs \<noteq> [] \<and> hd (commas xs) = hd (hd xs)"
  by (induction xs rule: commas.induct) auto

lemma commas_last: "xs \<noteq> [] \<Longrightarrow> last xs \<noteq> [] \<Longrightarrow> last (commas xs) = last (last xs)"
proof (induction xs rule: commas.induct)
  case (3 x y xs)
  then have "commas (y # xs) \<noteq> []"
    by (cases xs) auto
  with 3 show ?case
    by simp
qed auto

lemma set_commas: "set (commas xs) \<subseteq> insert (CHR '','') (\<Union> (set ` set xs))"
  by (induction xs rule: commas.induct) auto

lemma count_addrs_commas:
  assumes "xs \<noteq> []" and "hd xs \<noteq> []" and "\<forall>x \<in> set xs. CHR '','' \<notin> set x"
  shows "count_addrs (commas xs @ r) (length (commas xs)) 0 = of_nat (length xs)"
proof -
  let ?c = "commas xs" and ?p = "\<lambda>c. c = CHR '',''"
  have c: "?c \<noteq> []" "?c ! 0 \<noteq> CHR '',''"
    using commas_first [OF assms(1,2)] assms by (auto simp: hd_conv_nth [symmetric] dest: hd_in_set) 
  have "filter (\<lambda>i. (?c @ r) ! i = CHR '','') [1..<length ?c] = filter (\<lambda>i. ?c ! i = CHR '','') [1..<length ?c]"
    by (rule filter_cong) (auto simp: nth_append)
  also have "\<dots> = filter (\<lambda>i. ?c ! i = CHR '','') [0..<length ?c]"
    using c by (simp add: upt_rec [of 0])
  finally have "length (filter (\<lambda>i. (?c @ r) ! i = CHR '','') [1..<length ?c]) = length xs - 1"
    using length_filter_nth [of ?p ?c] filter_commas [OF assms(1,3)] by simp
  then show ?thesis
    using assms(1) by (cases xs) (simp_all add: count_addrs_filter)
qed

lemma addrs_text:
  assumes "addrs_ok addrs"
  shows "map opt_text addrs \<noteq> []" and "hd (map opt_text addrs) \<noteq> []"
    and "\<forall>x \<in> set (map opt_text addrs). CHR '','' \<notin> set x" and "map Some (map opt_text addrs) = addrs"
    and "value_ok (commas (map opt_text addrs))" and "commas (map opt_text addrs) \<noteq> []"
proof -
  have each: "opt_text a \<noteq> [] \<and> value_ok (opt_text a) \<and> Some (opt_text a) = a \<and> CHR '','' \<notin> set (opt_text a)"
    if "a \<in> set addrs" for a
    using assms that by (auto simp: addrs_ok_def opt_ok_def opt_text_def split: option.splits)
  show ne: "map opt_text addrs \<noteq> []" and h: "hd (map opt_text addrs) \<noteq> []"
    using assms each by (auto simp: addrs_ok_def hd_map)
  show "\<forall>x \<in> set (map opt_text addrs). CHR '','' \<notin> set x" and "map Some (map opt_text addrs) = addrs"
    using each by (auto intro: map_idI)
  show "commas (map opt_text addrs) \<noteq> []"
    using commas_first [OF ne h] by simp
  have l: "last (map opt_text addrs) \<noteq> []" "last addrs \<in> set addrs" "hd addrs \<in> set addrs"
    using ne each by (auto simp: last_map)
  have "NUL \<notin> set x \<and> LF \<notin> set x" if "x \<in> set (map opt_text addrs)" for x
    using that each by (auto simp: value_ok_def)
  then have "NUL \<notin> set (commas (map opt_text addrs))" "LF \<notin> set (commas (map opt_text addrs))"
    using set_commas [of "map opt_text addrs"] by auto
  moreover have "hd (commas (map opt_text addrs)) = hd (opt_text (hd addrs))"
    "last (commas (map opt_text addrs)) = last (opt_text (last addrs))"
    using commas_first [OF ne h] commas_last [OF ne l(1)] ne by (simp_all add: hd_map last_map)
  moreover have "length (commas (map opt_text addrs)) < 2 ^ 30"
    using assms by (simp add: addrs_ok_def)
  ultimately show "value_ok (commas (map opt_text addrs))"
    using each [OF l(2)] each [OF l(3)] unfolding value_ok_def by metis
qed

lemma set_addrs_value:
  assumes "script s = []" and "addrs_ok addrs" and "length addrs = unat len"
    and "cf_bind_addr_ext_add conf = None" and "cf_bind_addr_ext_add_len conf = 0"
  shows "\<exists>s'. set_addrs s (commas (map opt_text addrs) @ [LF]) (length (commas (map opt_text addrs))) conf =
    (0, conf\<lparr>cf_bind_addr_ext_add := Some addrs, cf_bind_addr_ext_add_len := len\<rparr>, s') \<and> script s' = []"
proof -
  note t = addrs_text [OF assms(2)]
  let ?t = "commas (map opt_text addrs)"
  obtain s' where "fill_addrs (s\<lparr>live := live s + 1\<rparr>) (?t @ [LF]) (length ?t) (length addrs) 0 [] = (True, addrs, s')"
    "script s' = []"
    using fill_addrs_commas [of "s\<lparr>live := live s + 1\<rparr>" 0 "?t @ [LF]" "map opt_text addrs" "length ?t" "[]"]
      assms(1) t(3,4) by auto
  moreover have "count_addrs (?t @ [LF]) (length ?t) 0 = len"
    using count_addrs_commas [OF t(1,2,3)] assms(3) by simp
  ultimately show ?thesis
    using assms t(6) by (simp add: set_addrs_def Let_def free_opt_def)
qed

section \<open>The settings of a text\<close>

lemma keys_ok:
  "key_ok ''Port''"
  "key_ok ''Password''"
  "key_ok ''BindAddress''"
  "key_ok ''PublicAddress''"
  "key_ok ''CallsignsDenied''"
  "key_ok ''CallsignsAllowed''"
  "key_ok ''RegistrationName''"
  "key_ok ''ConnectionTimeout''"
  "key_ok ''ExternalBindAddress''"
  "key_ok ''RegistrationComment''"
  "key_ok ''AdditionalExternalBindAddresses''"
  by (simp_all add: key_ok_def)

lemma pair_settings:
  "conf_parse_pair s (setting ''BindAddress'' v) (length ''BindAddress'') val n conf =
   (case set_string s (cf_bind_addr conf) val n of (r, p, s) \<Rightarrow> (r, conf\<lparr>cf_bind_addr := p\<rparr>, s))"
  "conf_parse_pair s (setting ''PublicAddress'' v) (length ''PublicAddress'') val n conf =
   (case set_string s (cf_public_addr conf) val n of (r, p, s) \<Rightarrow> (r, conf\<lparr>cf_public_addr := p\<rparr>, s))"
  "conf_parse_pair s (setting ''CallsignsDenied'' v) (length ''CallsignsDenied'') val n conf =
   (case set_string s (cf_calls_denied conf) val n of (r, p, s) \<Rightarrow> (r, conf\<lparr>cf_calls_denied := p\<rparr>, s))"
  "conf_parse_pair s (setting ''CallsignsAllowed'' v) (length ''CallsignsAllowed'') val n conf =
   (case set_string s (cf_calls_allowed conf) val n of (r, p, s) \<Rightarrow> (r, conf\<lparr>cf_calls_allowed := p\<rparr>, s))"
  "conf_parse_pair s (setting ''RegistrationName'' v) (length ''RegistrationName'') val n conf =
   (case set_string s (cf_reg_name conf) val n of (r, p, s) \<Rightarrow> (r, conf\<lparr>cf_reg_name := p\<rparr>, s))"
  "conf_parse_pair s (setting ''ExternalBindAddress'' v) (length ''ExternalBindAddress'') val n conf =
   (case set_string s (cf_bind_addr_ext conf) val n of (r, p, s) \<Rightarrow> (r, conf\<lparr>cf_bind_addr_ext := p\<rparr>, s))"
  "conf_parse_pair s (setting ''RegistrationComment'' v) (length ''RegistrationComment'') val n conf =
   (case set_string s (cf_reg_comment conf) val n of (r, p, s) \<Rightarrow> (r, conf\<lparr>cf_reg_comment := p\<rparr>, s))"
  "conf_parse_pair s (setting ''Port'' v) (length ''Port'') val n conf =
   (case set_port val conf of (r, conf) \<Rightarrow> (r, conf, s))"
  "conf_parse_pair s (setting ''ConnectionTimeout'' v) (length ''ConnectionTimeout'') val n conf =
   (case set_timeout val conf of (r, conf) \<Rightarrow> (r, conf, s))"
  "conf_parse_pair s (setting ''Password'' v) (length ''Password'') val n conf = set_password s val n conf"
  "conf_parse_pair s (setting ''AdditionalExternalBindAddresses'' v) (length ''AdditionalExternalBindAddresses'') val n conf =
   set_addrs s val n conf"
  by (simp_all add: conf_parse_pair_def strncmp_eq_def setting_def)

lemma text_gives_string:
  assumes "key_ok key" and "opt_ok p"
    and "\<And>s val n. conf_parse_pair s (setting key (opt_text p)) (length key) val n conf =
      (case set_string s old val n of (r, p, s) \<Rightarrow> (r, upd p, s))"
  shows "text_gives (setting key (opt_text p)) conf (upd p)"
proof (rule text_gives_setting [OF assms(1) opt_text_ok [OF assms(2)]])
  fix s
  assume "script (s :: os) = []"
  from set_string_value [OF this assms(2), of old]
  show "\<exists>s'. conf_parse_pair s (setting key (opt_text p)) (length key) (opt_text p @ [LF]) (length (opt_text p)) conf =
      (0, upd p, s') \<and> script s' = []"
    by (auto simp: assms(3))
qed

lemma setting_strings:
  assumes "opt_ok p"
  shows "text_gives (setting ''BindAddress'' (opt_text p)) conf (conf\<lparr>cf_bind_addr := p\<rparr>)"
    and "text_gives (setting ''PublicAddress'' (opt_text p)) conf (conf\<lparr>cf_public_addr := p\<rparr>)"
    and "text_gives (setting ''CallsignsDenied'' (opt_text p)) conf (conf\<lparr>cf_calls_denied := p\<rparr>)"
    and "text_gives (setting ''CallsignsAllowed'' (opt_text p)) conf (conf\<lparr>cf_calls_allowed := p\<rparr>)"
    and "text_gives (setting ''RegistrationName'' (opt_text p)) conf (conf\<lparr>cf_reg_name := p\<rparr>)"
    and "text_gives (setting ''ExternalBindAddress'' (opt_text p)) conf (conf\<lparr>cf_bind_addr_ext := p\<rparr>)"
    and "text_gives (setting ''RegistrationComment'' (opt_text p)) conf (conf\<lparr>cf_reg_comment := p\<rparr>)"
proof -
  note str = text_gives_string [OF _ assms]
  show "text_gives (setting ''BindAddress'' (opt_text p)) conf (conf\<lparr>cf_bind_addr := p\<rparr>)"
    by (rule str [where upd = "\<lambda>p. conf\<lparr>cf_bind_addr := p\<rparr>"]) (rule keys_ok pair_settings)+
  show "text_gives (setting ''PublicAddress'' (opt_text p)) conf (conf\<lparr>cf_public_addr := p\<rparr>)"
    by (rule str [where upd = "\<lambda>p. conf\<lparr>cf_public_addr := p\<rparr>"]) (rule keys_ok pair_settings)+
  show "text_gives (setting ''CallsignsDenied'' (opt_text p)) conf (conf\<lparr>cf_calls_denied := p\<rparr>)"
    by (rule str [where upd = "\<lambda>p. conf\<lparr>cf_calls_denied := p\<rparr>"]) (rule keys_ok pair_settings)+
  show "text_gives (setting ''CallsignsAllowed'' (opt_text p)) conf (conf\<lparr>cf_calls_allowed := p\<rparr>)"
    by (rule str [where upd = "\<lambda>p. conf\<lparr>cf_calls_allowed := p\<rparr>"]) (rule keys_ok pair_settings)+
  show "text_gives (setting ''RegistrationName'' (opt_text p)) conf (conf\<lparr>cf_reg_name := p\<rparr>)"
    by (rule str [where upd = "\<lambda>p. conf\<lparr>cf_reg_name := p\<rparr>"]) (rule keys_ok pair_settings)+
  show "text_gives (setting ''ExternalBindAddress'' (opt_text p)) conf (conf\<lparr>cf_bind_addr_ext := p\<rparr>)"
    by (rule str [where upd = "\<lambda>p. conf\<lparr>cf_bind_addr_ext := p\<rparr>"]) (rule keys_ok pair_settings)+
  show "text_gives (setting ''RegistrationComment'' (opt_text p)) conf (conf\<lparr>cf_reg_comment := p\<rparr>)"
    by (rule str [where upd = "\<lambda>p. conf\<lparr>cf_reg_comment := p\<rparr>"]) (rule keys_ok pair_settings)+
qed

lemma setting_numbers:
  "text_gives (setting ''Port'' (dec (unat p))) conf (conf\<lparr>cf_port := p\<rparr>)"
  "text_gives (setting ''ConnectionTimeout'' (dec (unat q))) conf (conf\<lparr>cf_connection_timeout := q\<rparr>)"
proof -
  have "unat p < 2 ^ 64" "unat q < 2 ^ 64"
    using unsigned_less [of p, where ?'a = nat] unsigned_less [of q, where ?'a = nat] by simp_all
  then show "text_gives (setting ''Port'' (dec (unat p))) conf (conf\<lparr>cf_port := p\<rparr>)"
    and "text_gives (setting ''ConnectionTimeout'' (dec (unat q))) conf (conf\<lparr>cf_connection_timeout := q\<rparr>)"
    by (simp_all add: text_gives_setting keys_ok dec_ok pair_settings set_port_dec set_timeout_dec del: list.size)
qed

lemma setting_password:
  assumes "value_ok v" and "v \<noteq> ''notset''"
  shows "text_gives (setting ''Password'' v) conf (conf\<lparr>cf_password := Some v\<rparr>)"
proof (rule text_gives_setting [OF keys_ok(2) assms(1)])
  show "\<exists>s'. conf_parse_pair s (setting ''Password'' v) (length ''Password'') (v @ [LF]) (length v) conf =
      (0, conf\<lparr>cf_password := Some v\<rparr>, s') \<and> script s' = []" if "script s = []" for s
    unfolding pair_settings using that assms(2) by (simp add: set_password_def)
qed

lemma setting_addrs:
  assumes "case addrs of None \<Rightarrow> len = 0 | Some addrs \<Rightarrow> addrs_ok addrs \<and> length addrs = unat len"
    and "cf_bind_addr_ext_add conf = None" and "cf_bind_addr_ext_add_len conf = 0"
  shows "text_gives (setting ''AdditionalExternalBindAddresses''
      (case addrs of None \<Rightarrow> [] | Some addrs \<Rightarrow> commas (map opt_text addrs))) conf
    (conf\<lparr>cf_bind_addr_ext_add := addrs, cf_bind_addr_ext_add_len := len\<rparr>)"
proof (rule text_gives_setting [OF keys_ok(11)])
  let ?v = "case addrs of None \<Rightarrow> [] | Some addrs \<Rightarrow> commas (map opt_text addrs)"
  show "value_ok ?v"
    using assms(1) addrs_text(5) by (auto simp: value_ok_def split: option.splits)
  show "\<exists>s'. conf_parse_pair s (setting ''AdditionalExternalBindAddresses'' ?v)
      (length ''AdditionalExternalBindAddresses'') (?v @ [LF]) (length ?v) conf =
      (0, conf\<lparr>cf_bind_addr_ext_add := addrs, cf_bind_addr_ext_add_len := len\<rparr>, s') \<and> script s' = []"
    if "script s = []" for s
    unfolding pair_settings
    using that assms set_addrs_value [OF that _ _ assms(2,3), of "the addrs" len]
    by (cases addrs) (simp_all add: set_addrs_def)
qed

section \<open>Properties\<close>



text \<open>C33: A setting takes and releases exactly the blocks of the configuration.  Whatever
  \<open>conf_parse_pair\<close> is given and wherever memory runs out, it keeps the recorded length of the
  array of additional addresses in step with the array, and the blocks allocated change as the
  blocks of the configuration do, with one exception: setting the additional addresses again
  forgets the strings of the old array.  \<open>conf_free\<close> then releases every block of the
  configuration.\<close>

theorem conf_pair_blocks:
  assumes "conf_wf conf" and "conf_parse_pair s key key_len val val_len conf = (r, conf', s')"
    and "conf_free s' conf' = (conf'', s'')"
  shows "conf_wf conf' \<and>
    live s' - conf_blocks conf' = live s - conf_blocks conf + (if addrs_key key key_len then addr_strings conf else 0) \<and>
    live s'' = live s' - conf_blocks conf' \<and> conf_blocks conf'' = 0"
  using conf_parse_pair_live [OF assms(2,1)] conf_free_live [OF assms(3)] by simp

theorem conf_pair_blocks_witness:
  "\<exists>conf' s' conf'' s''. conf_wf wit_conf \<and>
     conf_parse_pair wit_conf_os ''Password = abc'' 8 ''abc'' 3 wit_conf = (0, conf', s') \<and>
     conf_free s' conf' = (conf'', s'') \<and>
     live s' - conf_blocks conf' = live wit_conf_os - conf_blocks wit_conf \<and> live s'' = live s' - conf_blocks conf'"
proof -
  have wf: "conf_wf wit_conf"
    by (simp add: conf_wf_def wit_conf_def)
  have p: "conf_parse_pair wit_conf_os ''Password = abc'' 8 ''abc'' 3 wit_conf =
      (0, wit_conf\<lparr>cf_password := Some ''abc''\<rparr>, (os_free wit_conf_os)\<lparr>live := live wit_conf_os\<rparr>)"
    by (simp add: conf_parse_pair_def strncmp_eq_def set_password_def wit_conf_def zero_conf_def free_opt_def
        wit_conf_os_def os_free_def)
  obtain conf'' s'' where f: "conf_free ((os_free wit_conf_os)\<lparr>live := live wit_conf_os\<rparr>)
      (wit_conf\<lparr>cf_password := Some ''abc''\<rparr>) = (conf'', s'')"
    by (rule prod.exhaust)
  have "\<not> addrs_key ''Password = abc'' 8"
    by (simp add: addrs_key_def)
  with conf_pair_blocks [OF wf p f] wf p f show ?thesis
    by auto
qed

text \<open>Setting the additional addresses twice counts the old addresses again: \<open>conf_parse_pair\<close>
  adds to the recorded length instead of setting it, so that after the values a,b and c the
  configuration holds three addresses, two of them empty, and the two strings of the old array
  stay allocated.\<close>

theorem second_addresses_keep_count:
  "let key = ''AdditionalExternalBindAddresses'';
       (r1, conf1, s1) = conf_parse_pair wit_conf_os key 31 ''a,b'' 3 zero_conf;
       (r2, conf2, s2) = conf_parse_pair s1 key 31 ''c'' 1 conf1;
       (conf3, s3) = conf_free s2 conf2
   in r1 = 0 \<and> cf_bind_addr_ext_add conf1 = Some [Some ''a'', Some ''b''] \<and>
      r2 = 0 \<and> cf_bind_addr_ext_add conf2 = Some [Some ''c'', Some [], Some []] \<and>
      conf_blocks conf3 = 0 \<and> live s3 = live wit_conf_os + 2"
  by code_simp

text \<open>Running out of memory while a line is read looks like the end of the file:
  \<open>conf_parse_stream\<close> stops and returns 0, although the setting of the line and all that follow
  are missing.\<close>

theorem stream_hides_no_memory:
  "fst (conf_parse_stream (wit_conf_os\<lparr>script := [0, 12]\<rparr>)
     (setting ''Password'' (replicate 128 CHR ''x'') @ setting ''Port'' ''8101'') zero_conf) = 0 \<and>
   fst (snd (conf_parse_stream (wit_conf_os\<lparr>script := [0, 12]\<rparr>)
     (setting ''Password'' (replicate 128 CHR ''x'') @ setting ''Port'' ''8101'') zero_conf)) = zero_conf"
  by code_simp

end
