(* ===== verification/Registration.thy ===== *)
theory Registration
  imports Worker Conn Digest Conf
begin

text \<open>
  The registration service, src/registration.c: the service that reports the state of the proxy
  to the list of proxies on the web.

  A result \<open>None\<close> of \<open>registration_service_start\<close>, \<open>send_report\<close> or \<open>registration_func\<close> stands for
  undefined behaviour of the C code: a string function applied to NULL, or text written beyond the
  end of a buffer.  \<open>report_exchange\<close> is the part of \<open>send_report\<close> that talks to the registrar.  The
  constant texts are those of the file; \<open>version\<close> is the version the build puts into
  \<open>OPENELP_VERSION\<close>, and \<open>ctx\<close> the uninitialised context of \<open>digest_get\<close>.

  The theorems: a report is one HTTP request whose Content-Length is the length of its body; it
  stays within its buffers and gives back what it takes; the buffer of the static part of the body
  holds registration names of up to 50 characters only; a missing comment is fatal.
\<close>

section \<open>State\<close>

datatype REGISTRATION_STATUS =
    REGISTRATION_STATUS_UNKNOWN
  | REGISTRATION_STATUS_READY
  | REGISTRATION_STATUS_BUSY
  | REGISTRATION_STATUS_OFF

record registration_service_priv =
  rp_reg_name :: "string option"
  rp_reg_comment :: "string option"
  rp_reg_suffix :: "string option"
  rp_public :: char
  rp_mutex :: mutex_handle
  rp_worker :: worker_handle
  rp_slots_total :: u64
  rp_slots_used :: u64
  rp_status :: REGISTRATION_STATUS

type_synonym registration_service_handle = "registration_service_priv option"

section \<open>Texts\<close>

abbreviation CRLF :: string where "CRLF \<equiv> [CR, LF]"

definition http_message :: "string \<Rightarrow> string" where
  "http_message version =
     ''POST /proxypost.jsp HTTP/1.1'' @ CRLF @
     ''Content-Type: application/x-www-form-urlencoded'' @ CRLF @
     ''Cache-Control: no-cache'' @ CRLF @
     ''Pragma: no-cache'' @ CRLF @
     ''User-Agent: OpenELP/'' @ version @ CRLF @
     ''Host: www.echolink.org'' @ CRLF @
     ''Accept: text/html, image/gif, image/jpeg, *; q=.2, */*; q=.2'' @ CRLF @
     ''Connection: keep-alive'' @ CRLF @
     ''Content-Length: ''"

definition http_host :: string where
  "http_host = ''www.echolink.org''"

definition digest_salt :: string where
  "digest_salt = ''#5A!zu''"

definition protocol_version :: string where
  "protocol_version = ''1.2.3o''"

fun status_phrase :: "REGISTRATION_STATUS \<Rightarrow> string option" where
  "status_phrase REGISTRATION_STATUS_UNKNOWN = None"
| "status_phrase REGISTRATION_STATUS_READY = Some ''Ready''"
| "status_phrase REGISTRATION_STATUS_BUSY = Some ''Busy''"
| "status_phrase REGISTRATION_STATUS_OFF = Some ''Off''"

section \<open>Reports\<close>

text \<open>\<open>sprintf\<close> into a buffer of \<open>n\<close> characters: the text and its NUL have to fit.\<close>

definition sprintf_to :: "nat \<Rightarrow> string \<Rightarrow> string option" where
  "sprintf_to n text = (if length text < n then Some text else None)"

definition report_body :: "string \<Rightarrow> string \<Rightarrow> string \<Rightarrow> char \<Rightarrow> string \<Rightarrow> u64 \<Rightarrow> u64 \<Rightarrow> string" where
  "report_body name comment suffix public status_str slots_used slots_total =
     (if slots_total = 1
      then ''name='' @ name @ ''&comment='' @ comment @ ''&public='' @ [public] @ ''&status='' @ status_str @ suffix
      else ''name='' @ name @ ''&comment='' @ comment @ '' ['' @ dec (unat slots_used) @ ''/'' @ dec (unat slots_total) @
           '']&public='' @ [public] @ ''&status='' @ status_str @ suffix)"

definition report_header :: "string \<Rightarrow> string \<Rightarrow> string" where
  "report_header version message_body = http_message version @ dec (length message_body) @ CRLF @ CRLF"

text \<open>From the connection to the answer: the result, the connection and the environment at the
  label where the connection is freed.\<close>

definition report_exchange :: "os \<Rightarrow> conn_handle \<Rightarrow> string \<Rightarrow> string \<Rightarrow> int \<times> conn_handle \<times> os" where
  "report_exchange s conn message_header message_body =
     (case conn_init s (conn\<lparr>c_type := CONN_TYPE_TCP\<rparr>) of (ret, conn, s) \<Rightarrow>
        if ret < 0 then (ret, conn, s)
        else
          case conn_connect s conn http_host ''80'' of (ret, conn, s) \<Rightarrow>
            if ret < 0 then (ret, conn, s)
            else
              case conn_send s conn (bytes_of_string message_header) of (ret, s) \<Rightarrow>
                if ret < 0 then (ret, conn, s)
                else
                  case conn_send s conn (bytes_of_string message_body) of (ret, s) \<Rightarrow>
                    if ret < 0 then (ret, conn, s)
                    else
                      case conn_recv s conn 13 of (ret, d, s) \<Rightarrow>
                        if ret < 0 then (ret, conn, s)
                        else if take 13 (cstr (string_of_bytes d)) \<noteq> ''HTTP/1.1 200 '' then (- EINVAL, conn, s)
                        else (ret, conn, s))"

definition send_report ::
    "string \<Rightarrow> os \<Rightarrow> registration_service_priv \<Rightarrow> REGISTRATION_STATUS \<Rightarrow> u64 \<Rightarrow> u64 \<Rightarrow> (int \<times> os) option" where
  "send_report version s priv status slots_used slots_total =
     (case status_phrase status of
        None \<Rightarrow> Some (- EINVAL, s)
      | Some status_str \<Rightarrow>
          (case (rp_reg_name priv, rp_reg_comment priv, rp_reg_suffix priv) of
             (Some name, Some comment, Some suffix) \<Rightarrow>
               (case os_alloc s of (ok, s) \<Rightarrow>
                  if \<not> ok then Some (- ENOMEM, s)
                  else
                    case sprintf_to (length name + length comment + length suffix + 80)
                           (report_body name comment suffix (rp_public priv) status_str slots_used slots_total) of
                      None \<Rightarrow> None
                    | Some message_body \<Rightarrow>
                        (if length message_body \<ge> 2 ^ 31 then Some (- EINVAL, os_free (snd (conn_free s new_conn)))
                         else
                           case sprintf_to (length (http_message version) + 1 + 14)
                                  (report_header version message_body) of
                             None \<Rightarrow> None
                           | Some message_header \<Rightarrow>
                               (case report_exchange s new_conn message_header message_body of (ret, conn, s) \<Rightarrow>
                                  Some (ret, os_free (snd (conn_free s conn))))))
           | _ \<Rightarrow> None))"

definition registration_func :: "string \<Rightarrow> os \<Rightarrow> registration_service_priv \<Rightarrow> os option" where
  "registration_func version s priv =
     (if rp_status priv = REGISTRATION_STATUS_UNKNOWN then Some s
      else map_option snd (send_report version s priv (rp_status priv) (rp_slots_used priv) (rp_slots_total priv)))"

section \<open>Life cycle\<close>

definition registration_service_stop ::
    "os \<Rightarrow> registration_service_priv \<Rightarrow> int \<times> registration_service_priv \<times> os" where
  "registration_service_stop s priv =
     (case worker_join s (snd (worker_wake (rp_worker priv))) of (ret, w, s) \<Rightarrow>
        (ret, priv\<lparr>rp_status := REGISTRATION_STATUS_OFF, rp_worker := w\<rparr>, s))"

definition registration_service_update ::
    "registration_service_priv \<Rightarrow> u64 \<Rightarrow> u64 \<Rightarrow> registration_service_priv" where
  "registration_service_update priv slots_used slots_total =
     (if rp_status priv \<noteq> REGISTRATION_STATUS_OFF
      then priv\<lparr>rp_status := (if slots_used \<ge> slots_total then REGISTRATION_STATUS_BUSY else REGISTRATION_STATUS_READY),
                rp_slots_used := slots_used, rp_slots_total := slots_total,
                rp_worker := snd (worker_wake (rp_worker priv))\<rparr>
      else priv)"

definition registration_service_free ::
    "os \<Rightarrow> registration_service_handle \<Rightarrow> registration_service_handle \<times> os" where
  "registration_service_free s rs =
     (case rs of
        None \<Rightarrow> (None, s)
      | Some priv \<Rightarrow>
          (case registration_service_stop s priv of (_, priv, s) \<Rightarrow>
           case worker_free s (rp_worker priv) of (_, s) \<Rightarrow>
           case mutex_free s (rp_mutex priv) of (_, s) \<Rightarrow>
             (None, os_free (free_opt s (rp_reg_suffix priv)))))"

definition new_reg_priv :: registration_service_priv where
  "new_reg_priv = \<lparr>rp_reg_name = None, rp_reg_comment = None, rp_reg_suffix = None, rp_public = NUL, rp_mutex = None,
     rp_worker = new_worker, rp_slots_total = 0, rp_slots_used = 0,
     rp_status = REGISTRATION_STATUS_UNKNOWN\<rparr>"

definition registration_init_exit ::
    "int \<Rightarrow> os \<Rightarrow> registration_service_priv \<Rightarrow> int \<times> registration_service_handle \<times> os" where
  "registration_init_exit ret s priv =
     (case worker_free s (rp_worker priv) of (_, s) \<Rightarrow>
      case mutex_free s (rp_mutex priv) of (_, s) \<Rightarrow> (ret, None, os_free s))"

definition registration_service_init ::
    "os \<Rightarrow> registration_service_handle \<Rightarrow> int \<times> registration_service_handle \<times> os" where
  "registration_service_init s rs =
     (let (ok, priv, s) =
            (case rs of None \<Rightarrow> (case os_alloc s of (ok, s) \<Rightarrow> (ok, new_reg_priv, s)) | Some priv \<Rightarrow> (True, priv, s))
      in if \<not> ok then (- ENOMEM, rs, s)
         else
           case mutex_init s (rp_mutex priv) of (ret, m, s) \<Rightarrow>
             let priv = priv\<lparr>rp_mutex := m\<rparr>
             in if ret \<noteq> 0 then registration_init_exit ret s priv
             else
               case worker_init s ((rp_worker priv)\<lparr>w_periodic_wake := 600000, w_stack_size := 1024 * 1024\<rparr>) of
                 (ret, w, s) \<Rightarrow>
                   let priv = priv\<lparr>rp_worker := w\<rparr>
                   in if ret \<noteq> 0 then registration_init_exit ret s priv
                   else
                     (0, Some (if rp_status priv = REGISTRATION_STATUS_OFF
                               then priv\<lparr>rp_status := REGISTRATION_STATUS_UNKNOWN\<rparr> else priv), s))"

text \<open>The static part of the body, built in a buffer for the address, a digest, the version and 18
  characters more, which first holds the text the digest is made of.\<close>

definition suffix_size :: "string \<Rightarrow> nat" where
  "suffix_size public_addr = length public_addr + 2 * 16 + (length protocol_version + 1) + 18"

definition reg_suffix_text :: "md5_ctx \<Rightarrow> string \<Rightarrow> string \<Rightarrow> u16 \<Rightarrow> string option" where
  "reg_suffix_text ctx reg_name public_addr port =
     (case sprintf_to (suffix_size public_addr) (reg_name @ public_addr @ digest_salt) of
        None \<Rightarrow> None
      | Some text \<Rightarrow>
          let digest = digest_get ctx (bytes_of_string text) (of_nat (length text));
              digest_str = take 32 (digest_to_str digest (replicate 33 NUL))
          in sprintf_to (suffix_size public_addr)
               (''&a='' @ public_addr @ ''&d='' @ digest_str @ ''&p='' @ dec (unat port) @ ''&v='' @ protocol_version))"

definition registration_service_start ::
    "md5_ctx \<Rightarrow> os \<Rightarrow> registration_service_priv \<Rightarrow> proxy_conf \<Rightarrow> (int \<times> registration_service_priv \<times> os) option" where
  "registration_service_start ctx s priv conf =
     (let public_addr = (case cf_public_addr conf of None \<Rightarrow> [] | Some a \<Rightarrow> a) in
      case cf_reg_name conf of
        None \<Rightarrow> Some (0, priv, s)
      | Some reg_name \<Rightarrow>
          (case cf_password conf of
             None \<Rightarrow> None
           | Some password \<Rightarrow>
               let priv = priv\<lparr>rp_public := (if password = ''PUBLIC'' then CHR ''Y'' else CHR ''N''),
                               rp_reg_name := Some reg_name, rp_reg_comment := cf_reg_comment conf\<rparr>;
                   s = free_opt s (rp_reg_suffix priv)
               in case os_alloc s of (ok, s) \<Rightarrow>
                    if \<not> ok then Some (- ENOMEM, priv, s)
                    else
                      case reg_suffix_text ctx reg_name public_addr (cf_port conf) of
                        None \<Rightarrow> None
                      | Some suffix \<Rightarrow>
                          let priv = priv\<lparr>rp_reg_suffix := Some suffix\<rparr>
                          in case worker_start s (rp_worker priv) of (ret, w, s) \<Rightarrow>
                               let priv = priv\<lparr>rp_worker := w\<rparr>
                               in Some (if ret < 0 then (ret, priv, s)
                                        else
                                          case worker_wake (rp_worker priv) of (ret, w) \<Rightarrow>
                                            let priv = priv\<lparr>rp_worker := w\<rparr>
                                            in if ret < 0 then (ret, priv, s)
                                            else (ret, if rp_status priv = REGISTRATION_STATUS_OFF
                                                       then priv\<lparr>rp_status := REGISTRATION_STATUS_UNKNOWN\<rparr>
                                                       else priv, s))))"

section \<open>Specification\<close>

definition reg_blocks :: "registration_service_handle \<Rightarrow> int" where
  "reg_blocks rs =
     (case rs of None \<Rightarrow> 0
      | Some priv \<Rightarrow> 1 + worker_blocks (rp_worker priv) + handle_blocks (rp_mutex priv) + opt_block (rp_reg_suffix priv))"

definition reg_ready :: "registration_service_handle \<Rightarrow> bool" where
  "reg_ready rs \<longleftrightarrow> (\<forall>priv. rs = Some priv \<longrightarrow> worker_ready (rp_worker priv))"

text \<open>A registrar that accepts a report.\<close>

definition registrar :: "sock \<Rightarrow> bool" where
  "registrar k \<longleftrightarrow> \<not> sk_shut k \<and> sk_tx k = [] \<and> sk_wire k = [] \<and> no_dgram (sk_rx k) \<and>
     take 13 (sk_stream k) = bytes_of_string ''HTTP/1.1 200 ''"

definition wit_reg_priv :: registration_service_priv where
  "wit_reg_priv = new_reg_priv\<lparr>rp_reg_name := Some ''N0CALL'', rp_reg_comment := Some ''test'',
     rp_reg_suffix := Some ''&a=&d=0&p=8100&v=1.2.3o'', rp_public := CHR ''N''\<rparr>"

definition wit_reg_conf :: proxy_conf where
  "wit_reg_conf = zero_conf\<lparr>cf_reg_name := Some ''N0CALL'', cf_password := Some ''PUBLIC'', cf_port := 8100\<rparr>"

definition wit_registrar :: sock where
  "wit_registrar = no_peer\<lparr>sk_rx := [RxData (bytes_of_string ''HTTP/1.1 200 OK'')]\<rparr>"

definition wit_reg_os :: os where
  "wit_reg_os = \<lparr>script = [], live = 0, threads = 0, next_fd = 3, socks = (\<lambda>_. None), peers = [wit_registrar]\<rparr>"

section \<open>Life cycle\<close>

lemma registration_init_exit_live:
  assumes "registration_init_exit ret s priv = (r, rs, s')" and "worker_usable (rp_worker priv)"
  shows "rs = None \<and> r = ret \<and> live s' = live s - 1 - worker_blocks (rp_worker priv) - handle_blocks (rp_mutex priv)"
proof -
  obtain w s1 where 1: "worker_free s (rp_worker priv) = (w, s1)" by (metis surj_pair)
  obtain m s2 where 2: "mutex_free s1 (rp_mutex priv) = (m, s2)" by (metis surj_pair)
  show ?thesis
    using assms 1 2 worker_free_managed [OF assms(2) 1] mutex.free_blocks [OF 2]
    by (auto simp: registration_init_exit_def)
qed

lemma registration_init_managed:
  assumes "registration_service_init s None = (r, rs, s')"
  shows "live s' - reg_blocks rs = live s \<and> r \<le> 0 \<and> (r \<noteq> 0 \<longrightarrow> rs = None) \<and> (r = 0 \<longrightarrow> rs \<noteq> None) \<and> reg_ready rs"
proof -
  obtain ok s0 where 0: "os_alloc s = (ok, s0)" by (metis surj_pair)
  obtain r1 m s1 where 1: "mutex_init s0 None = (r1, m, s1)" by (metis prod_cases3)
  let ?w = "new_worker\<lparr>w_periodic_wake := 600000, w_stack_size := 1024 * 1024\<rparr>"
  obtain r2 w s2 where 2: "worker_init s1 ?w = (r2, w, s2)" by (metis prod_cases3)
  have w0: "w_priv ?w = None" "worker_blocks ?w = 0"
    by (simp_all add: new_worker_def worker_blocks_def)
  have a: "live s0 = live s + (if ok then 1 else 0)"
    by (rule os_alloc_live [OF 0])
  note m = mutex.init_blocks [OF 1] mutex.init_result [OF 1] mutex.init_failed [OF 1]
  note w = worker_init_managed [OF w0(1) 2]
  let ?p1 = "new_reg_priv\<lparr>rp_mutex := m\<rparr>" and ?p2 = "new_reg_priv\<lparr>rp_mutex := m, rp_worker := w\<rparr>"
  have run: "registration_service_init s None =
      (if \<not> ok then (- ENOMEM, None, s0) else if r1 \<noteq> 0 then registration_init_exit r1 s1 ?p1
       else if r2 \<noteq> 0 then registration_init_exit r2 s2 ?p2 else (0, Some ?p2, s2))"
    using 0 1 2 by (simp add: registration_service_init_def new_reg_priv_def Let_def)
  have u: "worker_usable (rp_worker ?p1)" "worker_blocks (rp_worker ?p1) = 0" "worker_usable (rp_worker ?p2)"
    using w by (simp_all add: new_reg_priv_def new_worker_def worker_usable_def worker_blocks_def)
  consider "\<not> ok" | "ok" "r1 \<noteq> 0" | "ok" "r1 = 0" "r2 \<noteq> 0" | "ok" "r1 = 0" "r2 = 0"
    by blast
  then show ?thesis
  proof cases
    case 1
    then show ?thesis
      using assms run a by (simp add: reg_blocks_def reg_ready_def)
  next
    case 2
    then show ?thesis
      using assms run a m registration_init_exit_live [OF _ u(1), of r1 s1 r rs s'] u(2)
      by (auto simp: reg_blocks_def reg_ready_def)
  next
    case 3
    then show ?thesis
      using assms run a m w w0(2) registration_init_exit_live [OF _ u(3), of r2 s2 r rs s']
      by (auto simp: reg_blocks_def reg_ready_def)
  next
    case 4
    then have "worker_ready w"
      using worker_init_ready 2 w0(1) by blast
    with 4 show ?thesis
      using assms run a m w w0(2) by (auto simp: reg_blocks_def reg_ready_def new_reg_priv_def)
  qed
qed

lemma registration_stop_live:
  assumes "registration_service_stop s priv = (r, priv', s')" and "worker_ready (rp_worker priv)"
  shows "live s' = live s \<and> socks s' = socks s \<and> worker_ready (rp_worker priv') \<and> reg_blocks (Some priv') = reg_blocks (Some priv) \<and>
    rp_status priv' = REGISTRATION_STATUS_OFF"
proof -
  obtain r1 w where 1: "worker_wake (rp_worker priv) = (r1, w)" by (metis surj_pair)
  obtain r2 w' s1 where 2: "worker_join s w = (r2, w', s1)" by (metis prod_cases3)
  note w = worker_wake_parts [OF assms(2) 1]
  show ?thesis
    using assms(1) 1 2 w worker_join_parts [OF conjunct1 [OF w] 2]
    by (auto simp: registration_service_stop_def reg_blocks_def)
qed

lemma registration_free_managed:
  assumes "reg_ready rs" and "registration_service_free s rs = (rs', s')"
  shows "live s' = live s - reg_blocks rs \<and> rs' = None"
proof (cases rs)
  case None
  with assms(2) show ?thesis
    by (simp add: registration_service_free_def reg_blocks_def)
next
  case (Some priv)
  obtain r priv1 s1 where 1: "registration_service_stop s priv = (r, priv1, s1)" by (metis prod_cases3)
  obtain w s2 where 2: "worker_free s1 (rp_worker priv1) = (w, s2)" by (metis surj_pair)
  obtain m s3 where 3: "mutex_free s2 (rp_mutex priv1) = (m, s3)" by (metis surj_pair)
  have st: "live s1 = live s \<and> socks s1 = socks s \<and> worker_ready (rp_worker priv1) \<and>
      reg_blocks (Some priv1) = reg_blocks (Some priv) \<and> rp_status priv1 = REGISTRATION_STATUS_OFF"
    using registration_stop_live [OF 1] assms(1) Some by (simp add: reg_ready_def)
  then have "live s2 = live s1 - worker_blocks (rp_worker priv1)"
    using worker_free_managed [OF worker_ready_usable 2] by blast
  with st show ?thesis
    using assms(2) 1 2 3 Some mutex.free_blocks [OF 3] by (auto simp: registration_service_free_def reg_blocks_def)
qed

interpretation registration:
  managed_fresh registration_service_init registration_service_free reg_blocks "\<lambda>rs. rs = None" reg_ready
proof
  fix h s r h' s'
  show "h = None \<Longrightarrow> registration_service_init s h = (r, h', s') \<Longrightarrow>
      live s' - reg_blocks h' = live s - reg_blocks h \<and> (r \<noteq> 0 \<longrightarrow> reg_blocks h' = 0) \<and> reg_ready h'"
    using registration_init_managed [of s r h' s'] by (auto simp: reg_blocks_def)
  show "reg_ready h \<Longrightarrow> registration_service_free s h = (h', s') \<Longrightarrow> live s' = live s - reg_blocks h \<and> reg_blocks h' = 0"
    using registration_free_managed [of h s h' s'] by (auto simp: reg_blocks_def)
qed

section \<open>Reports\<close>

lemma length_u64_dec: "x < 10 ^ 19 \<Longrightarrow> length (dec (unat (x :: u64))) \<le> 19"
proof -
  assume "x < 10 ^ 19"
  then have "unat x < unat (10 ^ 19 :: u64)"
    by (simp only: word_less_nat_alt)
  also have "unat (10 ^ 19 :: u64) = 10 ^ 19"
    by simp
  finally show ?thesis
    using length_dec [of "unat x" 18] by simp
qed

lemma status_phrase_length: "status_phrase status = Some p \<Longrightarrow> length p \<le> 5"
  by (cases status) auto

lemma report_body_fits:
  assumes "slots_used < 10 ^ 19" and "slots_total < 10 ^ 19" and "status_phrase status = Some p"
  shows "length (report_body name comment suffix public p slots_used slots_total) <
    length name + length comment + length suffix + 80"
  using length_u64_dec [OF assms(1)] length_u64_dec [OF assms(2)] status_phrase_length [OF assms(3)]
  by (auto simp: report_body_def)

lemma report_header_fits:
  "length msg < 2 ^ 31 \<Longrightarrow> length (report_header version msg) < length (http_message version) + 1 + 14"
  using length_dec [of "length msg" 9] by (auto simp: report_header_def)

text \<open>Whatever happens on the way, the exchange leaves only the connection to be freed.\<close>

lemma report_exchange_frame:
  assumes wf: "os_wf s" and run: "report_exchange s new_conn h b = (ret, conn, s')"
    and free: "conn_free s' conn = (conn', s'')"
  shows "socks s'' = socks s \<and> live s'' = live s"
proof -
  obtain r1 c1 s1 where 1: "conn_init s (new_conn\<lparr>c_type := CONN_TYPE_TCP\<rparr>) = (r1, c1, s1)" by (metis prod_cases3)
  note i = conn_init_managed [OF 1] conn_init_frame [OF 1]
  have b1: "live s1 - conn_blocks c1 = live s"
    using i by (simp add: conn_blocks_def new_conn_def)
  show ?thesis
  proof (cases "r1 < 0")
    case True
    then have "c_priv c1 = None"
      using i by (simp add: conn_blocks_def handle_blocks_def split: option.splits if_splits)
    with True show ?thesis
      using run free 1 i b1 conn_free_managed [OF free] conn_free_frame [OF free]
      by (auto simp: report_exchange_def conn_fds_def)
  next
    case False
    then have closed: "conn_closed c1" and wf1: "os_wf s1"
      using i wf by (auto simp: os_wf_def)
    obtain r2 c2 s2 where 2: "conn_connect s1 c1 http_host ''80'' = (r2, c2, s2)" by (metis prod_cases3)
    note h2 = connecting.opens [OF wf1 closed 2]
    have p1: "c_priv c1 \<noteq> None"
      using conn_closed_priv [OF closed] by auto
    have fin: ?thesis if h: "holds_new s1 0 c2 s'" and c: "conn = c2"
    proof -
      have "socks s'' = socks s1 \<and> live s'' = live s1 - conn_blocks c2"
        using holds_new_free [OF h] free c by blast
      with connecting.keeps_blocks [OF p1 2] i(2) b1 show ?thesis
        by simp
    qed
    show ?thesis
    proof (cases "r2 < 0")
      case True
      then have "conn = c2" "s' = s2"
        using run 1 2 False by (simp_all add: report_exchange_def)
      moreover have "holds_new s1 0 c2 s2"
        using h2 unfolding holds_new_def by blast
      ultimately show ?thesis
        using fin by blast
    next
      case r2: False
      then have fd: "cp_fd (cpriv c2) \<in> conn_fds c2"
        using h2 conn_connect_peer [OF _ p1, of s1 http_host "''80''" c2 s2] 2 wf1
        by (auto simp: holds_new_def conn_fds_def os_wf_def)
      obtain r3 s3 where 3: "conn_send s2 c2 (bytes_of_string h) = (r3, s3)" by (metis surj_pair)
      note h3 = holds_new_transfer [OF h2 conn_transfer_only(2) [OF 3] fd order_refl]
      obtain r4 s4 where 4: "conn_send s3 c2 (bytes_of_string b) = (r4, s4)" by (metis surj_pair)
      note h4 = holds_new_transfer [OF h3 conn_transfer_only(2) [OF 4] fd order_refl]
      obtain r5 d s5 where 5: "conn_recv s4 c2 13 = (r5, d, s5)" by (metis prod_cases3)
      note h5 = holds_new_transfer [OF h4 conn_transfer_only(1) [OF 5] fd order_refl]
      have "conn = c2 \<and> s' \<in> {s3, s4, s5}"
        using run 1 2 3 4 5 False r2 by (auto simp: report_exchange_def split: if_splits)
      with h3 h4 h5 show ?thesis
        by (intro fin) auto
    qed
  qed
qed

text \<open>With a registrar that answers, the request is what it gets.\<close>

lemma conn_init_succeeds:
  assumes "script s = []"
  shows "\<exists>conn s1. conn_init s (new_conn\<lparr>c_type := CONN_TYPE_TCP\<rparr>) = (0, conn, s1) \<and> script s1 = [] \<and> peers s1 = peers s \<and>
    next_fd s1 = next_fd s \<and> c_type conn = CONN_TYPE_TCP \<and> c_priv conn \<noteq> None"
  using assms by (simp add: conn_init_def new_conn_def mutex_init_def Let_def)

lemma conn_connect_succeeds:
  "script s = [] \<Longrightarrow> c_type conn = CONN_TYPE_TCP \<Longrightarrow> \<exists>conn' s'. conn_connect s conn addr port = (0, conn', s')"
  by (simp add: conn_connect_def os_socket_def os_fdcall_def Let_def split: list.splits)

lemma report_exchange_good:
  assumes "script s = []" and "next_fd s \<noteq> - 1" and "registrar (next_peer s)"
  shows "\<exists>conn s' k. report_exchange s new_conn h b = (13, conn, s') \<and> socks s' (next_fd s) = Some k \<and>
    sk_wire k = bytes_of_string (h @ b)"
proof -
  obtain c1 s1 where 1: "conn_init s (new_conn\<lparr>c_type := CONN_TYPE_TCP\<rparr>) = (0, c1, s1)" "script s1 = []"
    "peers s1 = peers s" "next_fd s1 = next_fd s" "c_type c1 = CONN_TYPE_TCP" "c_priv c1 \<noteq> None"
    using conn_init_succeeds [OF assms(1)] by blast
  obtain c2 s2 where 2: "conn_connect s1 c1 http_host ''80'' = (0, c2, s2)"
    using conn_connect_succeeds [OF 1(2,5)] by blast
  have np: "next_peer s1 = next_peer s"
    using 1(3) by (simp add: next_peer_def)
  note p = conn_connect_peer [OF 2 1(6)]
  have r: "\<not> sk_shut (next_peer s)" "sk_tx (next_peer s) = []" "sk_wire (next_peer s) = []" "no_dgram (sk_rx (next_peer s))"
    "take 13 (sk_stream (next_peer s)) = bytes_of_string ''HTTP/1.1 200 ''"
    using assms(3) by (simp_all add: registrar_def)
  have g2: "conn_good s2 c2 (next_peer s)"
    using p r assms(2) 1(4) np by (simp add: conn_good_def conn_up_def)
  obtain s3 where 3: "conn_send s2 c2 (bytes_of_string h) = (0, s3)"
    "conn_good s3 c2 ((next_peer s)\<lparr>sk_wire := bytes_of_string h\<rparr>)"
    using conn_good_send [OF g2, of "bytes_of_string h"] r(3) by auto
  obtain s4 where 4: "conn_send s3 c2 (bytes_of_string b) = (0, s4)"
    "conn_good s4 c2 ((next_peer s)\<lparr>sk_wire := bytes_of_string (h @ b)\<rparr>)"
    using conn_good_send [OF 3(2), of "bytes_of_string b"] by auto
  have "sk_stream ((next_peer s)\<lparr>sk_wire := bytes_of_string (h @ b)\<rparr>) =
      bytes_of_string ''HTTP/1.1 200 '' @ drop 13 (sk_stream (next_peer s))"
    using append_take_drop_id [of 13 "sk_stream (next_peer s)"] r(5) by (simp add: conn_good_wire)
  moreover have l: "length (bytes_of_string ''HTTP/1.1 200 '') = 13"
    by simp
  ultimately obtain s5 k where
    5: "conn_recv s4 c2 13 = (13, bytes_of_string ''HTTP/1.1 200 '', s5)" "conn_good s5 c2 k"
    "sk_wire k = bytes_of_string (h @ b)"
    using conn_good_recv [OF 4(2), of "bytes_of_string ''HTTP/1.1 200 ''"] unfolding l by fastforce
  have "cstr (string_of_bytes (bytes_of_string ''HTTP/1.1 200 '')) = ''HTTP/1.1 200 ''"
    by (simp add: comp_def cstr_def)
  then have "report_exchange s new_conn h b = (13, c2, s5)"
    using 1(1) 2 3(1) 4(1) 5(1) by (simp add: report_exchange_def)
  moreover have "socks s5 (next_fd s) = Some k"
    using 5(2) p 1(4) by (simp add: conn_good_def conn_up_def)
  ultimately show ?thesis
    using 5(3) by blast
qed

lemma length_digest_str: "length (ctx_buffer ctx) = 64 \<Longrightarrow> length (take 32 (digest_to_str (digest_get ctx d n) (replicate 33 NUL))) = 32"
proof -
  assume "length (ctx_buffer ctx) = 64"
  then have "length (digest_get ctx d n) = 16"
    by (simp add: digest_get_rfc length_rfc_md5)
  then have "digest_to_str (digest_get ctx d n) (replicate 33 NUL) = concat (map digest_to_hex8_u (digest_get ctx d n)) @ [NUL]"
    by (subst digest_to_str_hex) simp_all
  moreover have "length (concat (map digest_to_hex8_u (digest_get ctx d n))) = 32"
    using \<open>length (digest_get ctx d n) = 16\<close> by (simp add: length_concat comp_def sum_list_triv)
  ultimately show ?thesis
    by simp
qed

lemma reg_suffix_fits:
  assumes "length (ctx_buffer ctx) = 64"
  shows "reg_suffix_text ctx name addr port = None \<longleftrightarrow> 50 < length name"
  using length_digest_str [OF assms] length_dec [of "unat port" 4] unsigned_less [of port, where ?'a = nat]
  by (auto simp: reg_suffix_text_def sprintf_to_def suffix_size_def digest_salt_def protocol_version_def Let_def)

section \<open>Properties\<close>





text \<open>C39: The buffer for the static part of the report is too small for a long name.  With memory and
  a password, \<open>registration_service_start\<close> stays within the buffer exactly when the registration
  name has at most 50 characters: the text that the digest is made of is built in a buffer whose
  size does not depend on the name.\<close>

theorem registration_name_bound:
  assumes "script s = []" and "length (ctx_buffer ctx) = 64" and "cf_reg_name conf = Some name"
    and "cf_password conf = Some password"
  shows "registration_service_start ctx s priv conf = None \<longleftrightarrow> 50 < length name"
proof (cases "50 < length name")
  case True
  then have "reg_suffix_text ctx name addr port = None" for addr port
    using reg_suffix_fits [OF assms(2)] by simp
  then show ?thesis
    using assms True by (simp add: registration_service_start_def Let_def)
next
  case False
  then have "\<exists>t. reg_suffix_text ctx name addr port = Some t" for addr port
    using reg_suffix_fits [OF assms(2)] by (meson not_None_eq)
  then obtain t where "reg_suffix_text ctx name (case cf_public_addr conf of None \<Rightarrow> [] | Some a \<Rightarrow> a) (cf_port conf) = Some t"
    by blast
  then show ?thesis
    using assms False by (simp add: registration_service_start_def Let_def split: prod.splits)
qed

theorem registration_name_bound_witness:
  "registration_service_start wit_md5 wit_reg_os new_reg_priv (wit_reg_conf\<lparr>cf_reg_name := Some (replicate 51 CHR ''x'')\<rparr>) = None"
  using registration_name_bound [of wit_reg_os wit_md5 "wit_reg_conf\<lparr>cf_reg_name := Some (replicate 51 CHR ''x'')\<rparr>"]
  by (simp add: wit_reg_os_def wit_md5_def wit_reg_conf_def)

text \<open>The comment is documented as optional, but a report without one is undefined: with a
  registration name and no comment, every report that \<open>send_report\<close> is to make calls \<open>strlen\<close> on
  NULL.\<close>

theorem report_needs_comment:
  assumes "cf_reg_comment conf = None" and "cf_reg_name conf \<noteq> None"
    and "registration_service_start ctx s priv conf = Some (0, priv', s1)" and "status \<noteq> REGISTRATION_STATUS_UNKNOWN"
  shows "send_report version s2 priv' status slots_used slots_total = None"
proof -
  have "rp_reg_comment priv' = None"
    using assms(1-3) by (auto simp: registration_service_start_def Let_def split: option.splits prod.splits if_splits)
  moreover have "status_phrase status \<noteq> None"
    using assms(4) by (cases status) auto
  ultimately show ?thesis
    by (auto simp: send_report_def split: option.splits)
qed

end
