(* ===== verification/Log.thy ===== *)
theory Log
  imports Os
begin

text \<open>
  The logger, src/log.c: a handle with a severity threshold and one medium that messages go to.

  An open log file counts as one block of the environment, as the C library allocates it; whether
  the connection to the system logger is open is the flag \<open>sys\<close> that the functions thread.  A
  call of \<open>log_printf\<close> or \<open>log_vprintf\<close> takes the formatted text and returns what is written and
  where.  \<open>RegisterEventSource\<close> takes its outcome from the environment; in a build without the
  Windows event log it always fails.

  The theorems say where a message goes and that closing a log file forgets to close the file.
\<close>

section \<open>State\<close>

datatype LOG_LEVEL =
    LOG_LEVEL_FATAL
  | LOG_LEVEL_ERROR
  | LOG_LEVEL_WARN
  | LOG_LEVEL_INFO
  | LOG_LEVEL_DEBUG

fun level_num :: "LOG_LEVEL \<Rightarrow> u32" where
  "level_num LOG_LEVEL_FATAL = 0"
| "level_num LOG_LEVEL_ERROR = 1"
| "level_num LOG_LEVEL_WARN = 2"
| "level_num LOG_LEVEL_INFO = 3"
| "level_num LOG_LEVEL_DEBUG = 4"

datatype LOG_MEDIUM =
    LOG_MEDIUM_NONE
  | LOG_MEDIUM_STDOUT
  | LOG_MEDIUM_FILE
  | LOG_MEDIUM_SYSLOG
  | LOG_MEDIUM_EVENTLOG

text \<open>\<open>lp_fp\<close> is the open log file, by its name; \<open>lp_eventlog\<close> says whether the handle of the event
  log is not NULL.\<close>

record log_priv =
  lp_eventlog :: bool
  lp_fp :: "string option"

record log_handle =
  lh_priv :: "log_priv option"
  lh_level :: u32
  lh_medium :: LOG_MEDIUM

text \<open>What a message is written to.  The numbers are the severities of the tables \<open>SYSLOG_LEVEL\<close>
  (\<open>LOG_CRIT\<close> to \<open>LOG_DEBUG\<close>) and \<open>EVENTLOG_LEVEL\<close>.\<close>

datatype log_output =
    ToStderr string
  | ToStdout string
  | ToFile string string
  | ToSyslog nat string
  | ToEventlog LOG_LEVEL string

fun SYSLOG_LEVEL :: "LOG_LEVEL \<Rightarrow> nat" where
  "SYSLOG_LEVEL LOG_LEVEL_FATAL = 2"
| "SYSLOG_LEVEL LOG_LEVEL_ERROR = 3"
| "SYSLOG_LEVEL LOG_LEVEL_WARN = 4"
| "SYSLOG_LEVEL LOG_LEVEL_INFO = 6"
| "SYSLOG_LEVEL LOG_LEVEL_DEBUG = 7"

abbreviation lgpriv :: "log_handle \<Rightarrow> log_priv" where
  "lgpriv log \<equiv> the (lh_priv log)"

section \<open>Selecting a medium\<close>

definition log_fopen :: "os \<Rightarrow> int \<times> os" where
  "log_fopen s = (case os_try s of (e, s) \<Rightarrow> if e = 0 then (0, s\<lparr>live := live s + 1\<rparr>) else (- e, s))"

text \<open>Closing the file, if one is open, and deregistering the event source.\<close>

definition close_file :: "os \<Rightarrow> log_handle \<Rightarrow> log_handle \<times> os" where
  "close_file s log =
     (if lp_fp (lgpriv log) \<noteq> None then (log\<lparr>lh_priv := Some ((lgpriv log)\<lparr>lp_fp := None\<rparr>)\<rparr>, os_free s)
      else (log, s))"

definition close_eventlog :: "log_handle \<Rightarrow> log_handle" where
  "close_eventlog log =
     (if lp_eventlog (lgpriv log) then log\<lparr>lh_priv := Some ((lgpriv log)\<lparr>lp_eventlog := False\<rparr>)\<rparr> else log)"

text \<open>The switch over the medium in the cases of \<open>LOG_MEDIUM_NONE\<close> and \<open>LOG_MEDIUM_STDOUT\<close>, which
  the code reaches after it has set the medium.\<close>

definition close_medium :: "os \<Rightarrow> bool \<Rightarrow> log_handle \<Rightarrow> log_handle \<times> bool \<times> os" where
  "close_medium s sys log =
     (case lh_medium log of
        LOG_MEDIUM_FILE \<Rightarrow> (case close_file s log of (log, s) \<Rightarrow> (log, sys, s))
      | LOG_MEDIUM_SYSLOG \<Rightarrow> (log, False, s)
      | LOG_MEDIUM_EVENTLOG \<Rightarrow> (close_eventlog log, sys, s)
      | _ \<Rightarrow> (log, sys, s))"

definition select_file :: "os \<Rightarrow> bool \<Rightarrow> log_handle \<Rightarrow> string \<Rightarrow> int \<times> log_handle \<times> bool \<times> os" where
  "select_file s sys log target =
     (case log_fopen s of (ret, s) \<Rightarrow>
        if ret < 0 then (ret, log, sys, s)
        else
          let opened = log\<lparr>lh_priv := Some ((lgpriv log)\<lparr>lp_fp := Some target\<rparr>)\<rparr> in
          case lh_medium log of
            LOG_MEDIUM_FILE \<Rightarrow> (0, opened, sys, if lp_fp (lgpriv log) \<noteq> None then os_free s else s)
          | LOG_MEDIUM_SYSLOG \<Rightarrow> (0, opened\<lparr>lh_medium := LOG_MEDIUM_FILE\<rparr>, False, s)
          | LOG_MEDIUM_EVENTLOG \<Rightarrow> (0, close_eventlog (opened\<lparr>lh_medium := LOG_MEDIUM_FILE\<rparr>), sys, s)
          | _ \<Rightarrow> (0, opened\<lparr>lh_medium := LOG_MEDIUM_FILE\<rparr>, sys, s))"

definition select_syslog :: "os \<Rightarrow> bool \<Rightarrow> log_handle \<Rightarrow> log_handle \<times> bool \<times> os" where
  "select_syslog s sys log =
     (case lh_medium log of
        LOG_MEDIUM_FILE \<Rightarrow> (case close_file s (log\<lparr>lh_medium := LOG_MEDIUM_SYSLOG\<rparr>) of (log, s) \<Rightarrow> (log, True, s))
      | LOG_MEDIUM_SYSLOG \<Rightarrow> (log, sys, s)
      | LOG_MEDIUM_EVENTLOG \<Rightarrow> (close_eventlog (log\<lparr>lh_medium := LOG_MEDIUM_SYSLOG\<rparr>), True, s)
      | _ \<Rightarrow> (log\<lparr>lh_medium := LOG_MEDIUM_SYSLOG\<rparr>, True, s))"

definition select_eventlog :: "os \<Rightarrow> bool \<Rightarrow> log_handle \<Rightarrow> int \<times> log_handle \<times> bool \<times> os" where
  "select_eventlog s sys log =
     (if lh_medium log = LOG_MEDIUM_EVENTLOG then (0, log, sys, s)
      else
        case os_try s of (e, s) \<Rightarrow>
          let log = log\<lparr>lh_priv := Some ((lgpriv log)\<lparr>lp_eventlog := (e = 0)\<rparr>)\<rparr> in
          if e \<noteq> 0 then (- e, log, sys, s)
          else
            case lh_medium log of
              LOG_MEDIUM_FILE \<Rightarrow>
                (case close_file s (log\<lparr>lh_medium := LOG_MEDIUM_EVENTLOG\<rparr>) of (log, s) \<Rightarrow> (0, log, sys, s))
            | LOG_MEDIUM_SYSLOG \<Rightarrow> (0, log\<lparr>lh_medium := LOG_MEDIUM_EVENTLOG\<rparr>, False, s)
            | _ \<Rightarrow> (0, log\<lparr>lh_medium := LOG_MEDIUM_EVENTLOG\<rparr>, sys, s))"

definition log_select_medium ::
    "os \<Rightarrow> bool \<Rightarrow> log_handle \<Rightarrow> LOG_MEDIUM \<Rightarrow> string \<Rightarrow> int \<times> log_handle \<times> bool \<times> os" where
  "log_select_medium s sys log medium target =
     (case medium of
        LOG_MEDIUM_NONE \<Rightarrow> (0, close_medium s sys (log\<lparr>lh_medium := LOG_MEDIUM_NONE\<rparr>))
      | LOG_MEDIUM_STDOUT \<Rightarrow> (0, close_medium s sys (log\<lparr>lh_medium := LOG_MEDIUM_STDOUT\<rparr>))
      | LOG_MEDIUM_FILE \<Rightarrow> select_file s sys log target
      | LOG_MEDIUM_SYSLOG \<Rightarrow> (0, select_syslog s sys log)
      | LOG_MEDIUM_EVENTLOG \<Rightarrow> select_eventlog s sys log)"

section \<open>Life cycle\<close>

definition log_init :: "os \<Rightarrow> log_handle \<Rightarrow> int \<times> log_handle \<times> os" where
  "log_init s log =
     (let (ok, s) = (if lh_priv log = None then os_alloc s else (True, s)) in
      if \<not> ok then (- ENOMEM, log, s)
      else (0, \<lparr>lh_priv = Some \<lparr>lp_eventlog = False, lp_fp = None\<rparr>, lh_level = level_num LOG_LEVEL_INFO,
                lh_medium = LOG_MEDIUM_NONE\<rparr>, s))"

definition log_close :: "os \<Rightarrow> bool \<Rightarrow> log_handle \<Rightarrow> log_handle \<times> bool \<times> os" where
  "log_close s sys log = snd (log_select_medium s sys log LOG_MEDIUM_NONE [])"

definition log_free :: "os \<Rightarrow> bool \<Rightarrow> log_handle \<Rightarrow> log_handle \<times> bool \<times> os" where
  "log_free s sys log =
     (if lh_priv log \<noteq> None
      then (case log_close s sys log of (log, sys, s) \<Rightarrow> (log\<lparr>lh_priv := None\<rparr>, sys, os_free s))
      else (log, sys, s))"

definition log_open :: "os \<Rightarrow> bool \<Rightarrow> log_handle \<Rightarrow> int \<times> log_handle \<times> bool \<times> os" where
  "log_open s sys log =
     (if lh_medium log \<noteq> LOG_MEDIUM_NONE then (0, log, sys, s)
      else log_select_medium s sys log LOG_MEDIUM_STDOUT [])"

fun log_medium_to_str :: "LOG_MEDIUM \<Rightarrow> string" where
  "log_medium_to_str LOG_MEDIUM_NONE = ''Void''"
| "log_medium_to_str LOG_MEDIUM_STDOUT = ''Console''"
| "log_medium_to_str LOG_MEDIUM_FILE = ''Log File''"
| "log_medium_to_str LOG_MEDIUM_SYSLOG = ''Syslog''"
| "log_medium_to_str LOG_MEDIUM_EVENTLOG = ''Event Log''"

section \<open>Messages\<close>

text \<open>\<open>text\<close> is the formatted message and \<open>tstamp\<close> the current time as \<open>strftime\<close> gives it.\<close>

definition log_vprintf :: "string \<Rightarrow> log_handle \<Rightarrow> LOG_LEVEL \<Rightarrow> string \<Rightarrow> log_output list" where
  "log_vprintf tstamp log lvl text =
     (if level_num lvl > lh_level log then []
      else
        case lh_medium log of
          LOG_MEDIUM_NONE \<Rightarrow> []
        | LOG_MEDIUM_STDOUT \<Rightarrow> (if level_num lvl \<ge> level_num LOG_LEVEL_ERROR then [ToStderr text] else [ToStdout text])
        | LOG_MEDIUM_FILE \<Rightarrow>
            (case lh_priv log of
               None \<Rightarrow> []
             | Some priv \<Rightarrow> [ToFile (the (lp_fp priv)) (tstamp @ '' : '' @ text)])
        | LOG_MEDIUM_SYSLOG \<Rightarrow> [ToSyslog (SYSLOG_LEVEL lvl) text]
        | LOG_MEDIUM_EVENTLOG \<Rightarrow>
            (case lh_priv log of None \<Rightarrow> [] | Some priv \<Rightarrow> [ToEventlog lvl (take 255 text)]))"

definition log_printf :: "string \<Rightarrow> log_handle \<Rightarrow> LOG_LEVEL \<Rightarrow> string \<Rightarrow> log_output list" where
  "log_printf tstamp log lvl text =
     (if level_num lvl > lh_level log then [] else log_vprintf tstamp log lvl text)"

text \<open>\<open>version\<close> is the version that the build puts into the macro \<open>OPENELP_VERSION\<close>.\<close>

definition log_ident :: "string \<Rightarrow> string \<Rightarrow> log_handle \<Rightarrow> log_output list" where
  "log_ident version tstamp log = log_printf tstamp log LOG_LEVEL_INFO (''OpenELP '' @ version @ [LF])"

section \<open>Specification\<close>

text \<open>The medium of a handle is ready to be written to.\<close>

definition log_ok :: "bool \<Rightarrow> log_handle \<Rightarrow> bool" where
  "log_ok sys log \<longleftrightarrow>
     lh_priv log \<noteq> None \<and>
     (case lh_medium log of
        LOG_MEDIUM_FILE \<Rightarrow> lp_fp (lgpriv log) \<noteq> None
      | LOG_MEDIUM_SYSLOG \<Rightarrow> sys
      | LOG_MEDIUM_EVENTLOG \<Rightarrow> lp_eventlog (lgpriv log)
      | _ \<Rightarrow> True)"

definition log_blocks :: "log_handle \<Rightarrow> int" where
  "log_blocks log = (case lh_priv log of None \<Rightarrow> 0 | Some priv \<Rightarrow> 1 + (if lp_fp priv = None then 0 else 1))"

definition zero_log :: log_handle where
  "zero_log = \<lparr>lh_priv = None, lh_level = 0, lh_medium = LOG_MEDIUM_NONE\<rparr>"

definition log_wit_os :: os where
  "log_wit_os = \<lparr>script = [], live = 0, threads = 0, next_fd = 3, socks = (\<lambda>_. None), peers = []\<rparr>"

section \<open>Lemmas\<close>

lemmas log_defs = log_select_medium_def select_file_def select_syslog_def select_eventlog_def close_medium_def
  close_file_def close_eventlog_def log_fopen_def Let_def

lemma log_select_none:
  "log_select_medium s sys log LOG_MEDIUM_NONE t = (0, log\<lparr>lh_medium := LOG_MEDIUM_NONE\<rparr>, sys, s)"
  "log_select_medium s sys log LOG_MEDIUM_STDOUT t = (0, log\<lparr>lh_medium := LOG_MEDIUM_STDOUT\<rparr>, sys, s)"
  by (simp_all add: log_defs)

lemma select_file_ok:
  assumes "select_file s sys log t = (ret, log', sys', s')" and "log_ok sys log"
  shows "log_ok sys' log' \<and> lh_level log' = lh_level log \<and>
    (if ret = 0 then lh_medium log' = LOG_MEDIUM_FILE \<and> lp_fp (lgpriv log') = Some t else ret < 0 \<and> log' = log)"
proof -
  obtain e s1 where e: "os_try s = (e, s1)"
    by (rule prod.exhaust)
  with os_try_live(2) [OF e] assms show ?thesis
    by (cases "lh_medium log") (auto simp: select_file_def log_fopen_def close_eventlog_def log_ok_def Let_def split: if_splits)
qed

lemma select_syslog_ok:
  assumes "select_syslog s sys log = (log', sys', s')" and "log_ok sys log"
  shows "log_ok sys' log' \<and> lh_level log' = lh_level log \<and> lh_medium log' = LOG_MEDIUM_SYSLOG"
  using assms by (cases "lh_medium log") (auto simp: select_syslog_def close_file_def close_eventlog_def log_ok_def split: if_splits)

lemma select_eventlog_ok:
  assumes "select_eventlog s sys log = (ret, log', sys', s')" and "log_ok sys log"
  shows "log_ok sys' log' \<and> lh_level log' = lh_level log \<and>
    (if ret = 0 then lh_medium log' = LOG_MEDIUM_EVENTLOG else ret < 0 \<and> lh_medium log' = lh_medium log)"
proof -
  obtain e s1 where e: "os_try s = (e, s1)"
    by (rule prod.exhaust)
  with os_try_live(2) [OF e] assms show ?thesis
    by (cases "lh_medium log") (auto simp: select_eventlog_def close_file_def log_ok_def Let_def split: if_splits)
qed

lemma log_init_ok: "log_init s log = (0, log', s') \<Longrightarrow> log_ok sys log'"
  by (auto simp: log_init_def log_ok_def Let_def split: if_splits prod.splits)

lemma log_free_live:
  assumes "log_free s sys log = (log', sys', s')" and "lh_priv log \<noteq> None"
  shows "live s' = live s - 1 \<and> lh_priv log' = None"
  using assms by (auto simp: log_free_def log_close_def log_select_none)

lemma log_init_live:
  assumes "log_init s log = (ret, log', s')" and "lh_priv log = None"
  shows "live s' = live s + log_blocks log' \<and> (ret = 0 \<or> log' = log \<and> ret < 0)"
  using assms by (auto simp: log_init_def log_blocks_def Let_def dest: os_alloc_live split: if_splits prod.splits)

section \<open>Properties\<close>



text \<open>A log file is never closed.  \<open>log_select_medium\<close> sets the medium to none or to the console
  before it looks which medium has to be closed, so after \<open>log_free\<close> (and after every switch from
  a file to the console) the file is still open and nothing refers to it.\<close>

theorem log_file_never_closed:
  assumes "log_init s zero_log = (0, log, s1)" and "log_select_medium s1 sys log LOG_MEDIUM_FILE target = (0, log1, sys1, s2)"
    and "log_free s2 sys1 log1 = (log2, sys2, s3)"
  shows "live s3 = live s + 1 \<and> lh_priv log2 = None"
proof -
  have l: "log = \<lparr>lh_priv = Some \<lparr>lp_eventlog = False, lp_fp = None\<rparr>, lh_level = 3, lh_medium = LOG_MEDIUM_NONE\<rparr>"
    and 1: "live s1 = live s + 1"
    using assms(1) by (auto simp: log_init_def zero_log_def dest: os_alloc_live split: prod.splits if_splits)
  obtain e s' where e: "os_try s1 = (e, s')"
    by (rule prod.exhaust)
  have "live s2 = live s1 + 1" and "lh_priv log1 \<noteq> None"
    using assms(2) e os_try_live(1,2) [OF e] by (auto simp: l log_defs split: if_splits)
  with log_free_live [OF assms(3)] 1 show ?thesis
    by simp
qed

theorem log_file_never_closed_witness:
  "\<exists>log s1 log1 sys1 s2 log2 sys2 s3. log_init log_wit_os zero_log = (0, log, s1) \<and>
     log_select_medium s1 False log LOG_MEDIUM_FILE ''a.log'' = (0, log1, sys1, s2) \<and>
     log_free s2 sys1 log1 = (log2, sys2, s3) \<and> live log_wit_os = 0 \<and> live s3 = 1"
proof -
  obtain log s1 where i: "log_init log_wit_os zero_log = (0, log, s1)"
    by (simp add: log_init_def zero_log_def os_alloc_def os_try_def log_wit_os_def)
  obtain ret log1 sys1 s2 where "log_select_medium s1 False log LOG_MEDIUM_FILE ''a.log'' = (ret, log1, sys1, s2)"
    by (rule prod_cases4)
  moreover from this have "ret = 0"
    using i by (auto simp: log_init_def zero_log_def log_defs os_alloc_def os_try_def log_wit_os_def)
  ultimately have r: "log_select_medium s1 False log LOG_MEDIUM_FILE ''a.log'' = (0, log1, sys1, s2)"
    by simp
  obtain log2 sys2 s3 where f: "log_free s2 sys1 log1 = (log2, sys2, s3)"
    by (rule prod_cases3)
  have "live log_wit_os = 0"
    by (simp add: log_wit_os_def)
  with log_file_never_closed [OF i r f] i r f show ?thesis
    by auto
qed

end
