(* ===== verification/SlotPool.thy ===== *)
theory SlotPool
  imports Prelude
begin

text \<open>
  The pool of client slots of src/proxy.c: the list of idle slots, oldest first, and the hash map
  from the callsign a slot served last to the slots, both threaded through the slots with a
  pointer to the next slot and a pointer to the pointer that points to the slot.

  A slot is its index in the array of slots.  A \<open>cell\<close> is the address of a variable that holds a
  pointer to a slot: the head of the idle list, a bucket of the hash map, or one of the two next
  pointers of a slot.  The operations are the pointer updates of \<open>proxy_worker_func\<close>,
  \<open>proxy_open\<close> and \<open>proxy_close\<close> in the order of the code.  \<open>pool_ok p idle calls\<close> relates a
  state of the pointers to the list of the idle slots and to the lists of the buckets, and the
  theorems show that the updates act on these lists as a first-in first-out queue and a
  map of most recently used lists do.
\<close>

section \<open>State\<close>

datatype cell =
    IdleHead
  | Next nat
  | Bucket u8
  | NextByCall nat

record pool =
  mem :: "cell \<Rightarrow> nat option"
  prev_ptr :: "nat \<Rightarrow> cell option"
  prev_by_call_ptr :: "nat \<Rightarrow> cell option"
  idle_clients_tail_ptr :: "cell option"

definition assign :: "pool \<Rightarrow> cell \<Rightarrow> nat option \<Rightarrow> pool" where
  "assign p c v = p\<lparr>mem := (mem p)(c := v)\<rparr>"

section \<open>Operations\<close>

text \<open>Remove a slot from the list of idle slots.\<close>

definition pool_unlink :: "pool \<Rightarrow> nat \<Rightarrow> pool" where
  "pool_unlink p pc =
     (let p = assign p (the (prev_ptr p pc)) (mem p (Next pc))
      in case mem p (Next pc) of
           None \<Rightarrow> p\<lparr>idle_clients_tail_ptr := prev_ptr p pc\<rparr>
         | Some n \<Rightarrow> p\<lparr>prev_ptr := (prev_ptr p)(n := prev_ptr p pc)\<rparr>)"

text \<open>Remove a slot from the hash map, if it is there, and add it to the bucket \<open>hash\<close>.\<close>

definition call_unlink :: "pool \<Rightarrow> nat \<Rightarrow> pool" where
  "call_unlink p pc =
     (case prev_by_call_ptr p pc of
        None \<Rightarrow> p
      | Some c \<Rightarrow>
          let p = assign p c (mem p (NextByCall pc))
          in case mem p (NextByCall pc) of
               None \<Rightarrow> p
             | Some n \<Rightarrow> p\<lparr>prev_by_call_ptr := (prev_by_call_ptr p)(n := prev_by_call_ptr p pc)\<rparr>)"

definition call_link :: "pool \<Rightarrow> nat \<Rightarrow> u8 \<Rightarrow> pool" where
  "call_link p pc hash =
     (let p = p\<lparr>prev_by_call_ptr := (prev_by_call_ptr p)(pc := Some (Bucket hash))\<rparr>;
          p = assign p (NextByCall pc) (mem p (Bucket hash));
          p = (case mem p (NextByCall pc) of
                 None \<Rightarrow> p
               | Some n \<Rightarrow> p\<lparr>prev_by_call_ptr := (prev_by_call_ptr p)(n := Some (NextByCall pc))\<rparr>)
      in assign p (Bucket hash) (Some pc))"

definition pool_take :: "pool \<Rightarrow> nat \<Rightarrow> u8 \<Rightarrow> pool" where
  "pool_take p pc hash = call_link (call_unlink (pool_unlink p pc) pc) pc hash"

text \<open>Put a slot back at the end of the list of idle slots: \<open>pool_detach\<close> is done before the lock
  on the list is taken, \<open>pool_attach\<close> under it.\<close>

definition pool_detach :: "pool \<Rightarrow> nat \<Rightarrow> pool" where
  "pool_detach p pc = assign p (Next pc) None"

definition pool_attach :: "pool \<Rightarrow> nat \<Rightarrow> pool" where
  "pool_attach p pc =
     (let p = p\<lparr>prev_ptr := (prev_ptr p)(pc := idle_clients_tail_ptr p)\<rparr>;
          p = assign p (the (idle_clients_tail_ptr p)) (Some pc)
      in p\<lparr>idle_clients_tail_ptr := Some (Next pc)\<rparr>)"

definition pool_put :: "pool \<Rightarrow> nat \<Rightarrow> pool" where
  "pool_put p pc = pool_attach (pool_detach p pc) pc"

text \<open>\<open>calloc\<close> of the array of slots sets their pointers to NULL.  \<open>pool_open\<close> clears the buckets
  and chains the \<open>n\<close> slots in the order of the array, \<open>pool_close\<close> forgets them.\<close>

definition fresh_slots :: "pool \<Rightarrow> pool" where
  "fresh_slots p =
     p\<lparr>mem := (\<lambda>c. case c of Next i \<Rightarrow> None | NextByCall i \<Rightarrow> None | _ \<Rightarrow> mem p c),
       prev_ptr := \<lambda>_. None, prev_by_call_ptr := \<lambda>_. None\<rparr>"

definition clear_buckets :: "pool \<Rightarrow> pool" where
  "clear_buckets p = p\<lparr>mem := (\<lambda>c. case c of Bucket h \<Rightarrow> None | _ \<Rightarrow> mem p c)\<rparr>"

definition open_link :: "nat \<Rightarrow> pool \<Rightarrow> pool" where
  "open_link i p =
     (let p = p\<lparr>prev_by_call_ptr := (prev_by_call_ptr p)(i := None)\<rparr>;
          p = assign p (NextByCall i) None;
          p = assign p (Next (i - 1)) (Some i)
      in p\<lparr>prev_ptr := (prev_ptr p)(i := Some (Next (i - 1)))\<rparr>)"

definition pool_open :: "pool \<Rightarrow> nat \<Rightarrow> pool" where
  "pool_open p n =
     (let p = clear_buckets p;
          p = p\<lparr>prev_ptr := (prev_ptr p)(0 := Some IdleHead)\<rparr>;
          p = assign p IdleHead (Some 0);
          p = fold open_link [1..<n] p;
          p = assign p (Next (n - 1)) None
      in p\<lparr>idle_clients_tail_ptr := Some (Next (n - 1))\<rparr>)"

definition pool_close :: "pool \<Rightarrow> pool" where
  "pool_close p = (assign (clear_buckets p) IdleHead None)\<lparr>idle_clients_tail_ptr := None\<rparr>"

section \<open>Specification\<close>

text \<open>The list that starts at the cell \<open>c\<close> and goes on at the cell \<open>nx x\<close> of each element: every
  element is pointed to by the cell before it and points back to that cell.\<close>

fun chain :: "(nat \<Rightarrow> cell) \<Rightarrow> (cell \<Rightarrow> nat option) \<Rightarrow> (nat \<Rightarrow> cell option) \<Rightarrow> cell \<Rightarrow> nat list \<Rightarrow> bool" where
  "chain nx m prev c [] \<longleftrightarrow> m c = None"
| "chain nx m prev c (x # xs) \<longleftrightarrow> m c = Some x \<and> prev x = Some c \<and> chain nx m prev (nx x) xs"

definition end_cell :: "nat list \<Rightarrow> cell" where
  "end_cell idle = (if idle = [] then IdleHead else Next (last idle))"

definition idle_ok :: "pool \<Rightarrow> nat list \<Rightarrow> bool" where
  "idle_ok p idle \<longleftrightarrow>
     chain Next (mem p) (prev_ptr p) IdleHead idle \<and> distinct idle \<and> idle_clients_tail_ptr p = Some (end_cell idle)"

definition calls_ok :: "pool \<Rightarrow> (u8 \<Rightarrow> nat list) \<Rightarrow> bool" where
  "calls_ok p calls \<longleftrightarrow>
     (\<forall>h. chain NextByCall (mem p) (prev_by_call_ptr p) (Bucket h) (calls h) \<and> distinct (calls h)) \<and>
     (\<forall>h k. h \<noteq> k \<longrightarrow> set (calls h) \<inter> set (calls k) = {})"

definition pool_ok :: "pool \<Rightarrow> nat list \<Rightarrow> (u8 \<Rightarrow> nat list) \<Rightarrow> bool" where
  "pool_ok p idle calls \<longleftrightarrow>
     idle_ok p idle \<and> calls_ok p calls \<and> (\<forall>x. prev_by_call_ptr p x = None \<longleftrightarrow> (\<forall>h. x \<notin> set (calls h)))"

text \<open>What the operations do to the lists.\<close>

definition without_slot :: "(u8 \<Rightarrow> nat list) \<Rightarrow> nat \<Rightarrow> u8 \<Rightarrow> nat list" where
  "without_slot calls pc h = remove1 pc (calls h)"

definition recent_calls :: "(u8 \<Rightarrow> nat list) \<Rightarrow> nat \<Rightarrow> u8 \<Rightarrow> (u8 \<Rightarrow> nat list)" where
  "recent_calls calls pc hash = (without_slot calls pc)(hash := pc # without_slot calls pc hash)"

text \<open>Sequences of operations on the pointers, the same operations on the lists, and when a sequence
  is one that the callers make: they take idle slots and put back slots that are not idle.\<close>

datatype pool_op = Take nat u8 | Put nat

fun pool_exec :: "pool_op \<Rightarrow> pool \<Rightarrow> pool" where
  "pool_exec (Take pc hash) p = pool_take p pc hash"
| "pool_exec (Put pc) p = pool_put p pc"

fun list_exec :: "pool_op \<Rightarrow> nat list \<times> (u8 \<Rightarrow> nat list) \<Rightarrow> nat list \<times> (u8 \<Rightarrow> nat list)" where
  "list_exec (Take pc hash) (idle, calls) = (remove1 pc idle, recent_calls calls pc hash)"
| "list_exec (Put pc) (idle, calls) = (idle @ [pc], calls)"

fun pool_legal :: "nat list \<times> (u8 \<Rightarrow> nat list) \<Rightarrow> pool_op list \<Rightarrow> bool" where
  "pool_legal st [] \<longleftrightarrow> True"
| "pool_legal st (Take pc hash # ops) \<longleftrightarrow> pc \<in> set (fst st) \<and> pool_legal (list_exec (Take pc hash) st) ops"
| "pool_legal st (Put pc # ops) \<longleftrightarrow> pc \<notin> set (fst st) \<and> pool_legal (list_exec (Put pc) st) ops"

definition new_pool :: pool where
  "new_pool = \<lparr>mem = (\<lambda>_. None), prev_ptr = (\<lambda>_. None), prev_by_call_ptr = (\<lambda>_. None), idle_clients_tail_ptr = None\<rparr>"

section \<open>Doubly linked lists\<close>

text \<open>The facts both kinds of list need, for any injective next cell.\<close>

locale linked =
  fixes nx :: "nat \<Rightarrow> cell"
  assumes nx_inj [simp]: "nx x = nx y \<longleftrightarrow> x = y"
begin

lemma chain_cong:
  "(\<And>d. d = c \<or> d \<in> nx ` set xs \<Longrightarrow> m' d = m d) \<Longrightarrow> (\<And>x. x \<in> set xs \<Longrightarrow> prev' x = prev x) \<Longrightarrow>
   chain nx m prev c xs \<Longrightarrow> chain nx m' prev' c xs"
proof (induction xs arbitrary: c)
  case (Cons x xs)
  have "chain nx m' prev' (nx x) xs"
    using Cons.prems by (intro Cons.IH) auto
  with Cons.prems show ?case
    by simp
qed simp

lemma chain_head: "chain nx m prev c xs \<Longrightarrow> m c = (case xs of [] \<Rightarrow> None | x # _ \<Rightarrow> Some x)"
  by (cases xs) auto

lemma chain_unique: "chain nx m prev c xs \<Longrightarrow> chain nx m prev' c ys \<Longrightarrow> xs = ys"
proof (induction xs arbitrary: c ys)
  case Nil
  then show ?case
    by (cases ys) auto
next
  case (Cons x xs)
  then show ?case
    by (cases ys) auto
qed

lemma chain_prev: "chain nx m prev c xs \<Longrightarrow> x \<in> set xs \<Longrightarrow> \<exists>d. prev x = Some d \<and> (d = c \<or> d \<in> nx ` set xs)"
  by (induction xs arbitrary: c) auto

lemma chain_next: "chain nx m prev c xs \<Longrightarrow> x \<in> set xs \<Longrightarrow> m (nx x) = Some n \<Longrightarrow> n \<in> set xs"
proof (induction xs arbitrary: c)
  case (Cons y xs)
  show ?case
  proof (cases "x = y")
    case True
    with Cons.prems chain_head [of m prev "nx y" xs] show ?thesis
      by (simp split: list.splits)
  next
    case False
    with Cons.prems Cons.IH [of "nx y"] show ?thesis
      by simp
  qed
qed simp

lemma chain_unlink:
  assumes "chain nx m prev c xs" and "distinct xs" and "x \<in> set xs" and "c \<notin> nx ` set xs"
  shows "chain nx (m(the (prev x) := m (nx x)))
    (case m (nx x) of None \<Rightarrow> prev | Some n \<Rightarrow> prev(n := prev x)) c (remove1 x xs)"
  using assms
proof (induction xs arbitrary: c)
  case (Cons y xs)
  let ?m = "m(the (prev x) := m (nx x))" and ?prev = "case m (nx x) of None \<Rightarrow> prev | Some n \<Rightarrow> prev(n := prev x)"
  show ?case
  proof (cases "x = y")
    case True
    then have h: "prev x = Some c" "chain nx m prev (nx x) xs" "c \<notin> nx ` set xs" "distinct xs"
      using Cons.prems by auto
    have "chain nx ?m ?prev c xs"
    proof (cases xs)
      case (Cons z zs)
      have z: "m (nx x) = Some z" "chain nx m prev (nx z) zs" "z \<notin> set zs"
        using h Cons by simp_all
      have "chain nx ?m ?prev (nx z) zs"
      proof (rule chain_cong [OF _ _ z(2)])
        fix d
        assume "d = nx z \<or> d \<in> nx ` set zs"
        then have "d \<noteq> c"
          using h(3) Cons by auto
        with h(1) show "?m d = m d"
          by simp
      next
        fix w
        assume "w \<in> set zs"
        with z(3) have "w \<noteq> z"
          by auto
        with z(1) show "?prev w = prev w"
          by simp
      qed
      with h(1) z(1) Cons show ?thesis
        by simp
    next
      case Nil
      with h show ?thesis
        by simp
    qed
    moreover have "remove1 x (y # xs) = xs"
      using True by simp
    ultimately show ?thesis
      by (simp only:)
  next
    case False
    then have x: "x \<in> set xs" "chain nx m prev (nx y) xs"
      using Cons.prems by auto
    then have "chain nx ?m ?prev (nx y) (remove1 x xs)"
      using Cons.prems by (intro Cons.IH) auto
    moreover have "?m c = Some y"
      using chain_prev [OF x(2,1)] Cons.prems(1,4) by auto
    moreover have "?prev y = Some c"
      using chain_next [OF x(2,1)] Cons.prems(1,2) by (auto split: option.splits)
    moreover have "remove1 x (y # xs) = y # remove1 x xs"
      using False by simp
    ultimately show ?thesis
      by (simp only: chain.simps simp_thms)
  qed
qed simp

lemma chain_push:
  assumes "chain nx m prev c xs" and "x \<notin> set xs" and "c \<notin> range nx" and "distinct xs"
  shows "chain nx (m(nx x := m c, c := Some x))
    (case m c of None \<Rightarrow> prev(x := Some c) | Some n \<Rightarrow> prev(x := Some c, n := Some (nx x))) c (x # xs)"
proof (cases xs)
  case (Cons y ys)
  then have y: "m c = Some y" "chain nx m prev (nx y) ys" "y \<notin> set ys" "x \<noteq> y" "x \<notin> set ys"
    using assms by simp_all
  have "chain nx (m(nx x := m c, c := Some x)) (prev(x := Some c, y := Some (nx x))) (nx y) ys"
  proof (rule chain_cong [OF _ _ y(2)])
    fix d
    assume "d = nx y \<or> d \<in> nx ` set ys"
    then have "d \<noteq> nx x" and "d \<noteq> c"
      using y(4,5) assms(3) by auto
    then show "(m(nx x := m c, c := Some x)) d = m d"
      by simp
  next
    fix w
    assume "w \<in> set ys"
    then show "(prev(x := Some c, y := Some (nx x))) w = prev w"
      using y(3,5) by auto
  qed
  moreover have "c \<noteq> nx x" "c \<noteq> nx y"
    using assms(3) by auto
  ultimately show ?thesis
    using y Cons by simp
next
  case Nil
  moreover have "c \<noteq> nx x"
    using assms(3) by auto
  ultimately show ?thesis
    using assms(1) by simp
qed

lemma chain_snoc:
  assumes "chain nx m prev c xs" and "x \<notin> set xs" and "c \<notin> range nx" and "distinct xs"
    and "e = (if xs = [] then c else nx (last xs))"
  shows "chain nx (m(nx x := None, e := Some x)) (prev(x := Some e)) c (xs @ [x])"
proof -
  have "c \<notin> nx ` set (x # xs)"
    using assms(3) by auto
  with assms(1,2,4,5) show ?thesis
  proof (induction xs arbitrary: c)
    case Nil
    then show ?case
      by simp
  next
    case (Cons y ys)
    define e' where "e' = (if ys = [] then nx y else nx (last ys))"
    have e: "e = e'"
      using Cons.prems(4) by (simp add: e'_def)
    have y: "y \<notin> set ys" "x \<noteq> y" "c \<noteq> nx x" "c \<noteq> nx y" "c \<notin> nx ` set ys" "m c = Some y" "prev y = Some c"
      using Cons.prems by simp_all
    have "c \<noteq> e'"
      using y(4,5) by (cases ys rule: rev_cases) (simp_all add: e'_def)
    moreover have "chain nx (m(nx x := None, e := Some x)) (prev(x := Some e)) (nx y) (ys @ [x])"
      by (rule Cons.IH) (use Cons.prems y in \<open>simp_all add: e e'_def image_iff\<close>)
    moreover have "(m(nx x := None, e := Some x)) c = Some y" "(prev(x := Some e)) y = Some c"
      using y e \<open>c \<noteq> e'\<close> by simp_all
    ultimately show ?case
      by (simp only: append_Cons chain.simps simp_thms)
  qed
qed

lemma chain_last: "chain nx m prev c (ys @ [x]) \<Longrightarrow> m (nx x) = None \<and> prev x = Some (if ys = [] then c else nx (last ys))"
proof (induction ys arbitrary: c)
  case (Cons y ys)
  from Cons.prems have "chain nx m prev (nx y) (ys @ [x])"
    by simp
  from Cons.IH [OF this] show ?case
    by (cases ys) simp_all
qed simp

lemma chain_inner: "chain nx m prev c (ys @ x # z # zs) \<Longrightarrow> m (nx x) = Some z"
proof (induction ys arbitrary: c)
  case (Cons y ys)
  then show ?case
    using Cons.IH [of "nx y"] by simp
qed simp

end

interpretation idle_list: linked Next
  by unfold_locales simp

interpretation call_list: linked NextByCall
  by unfold_locales simp

section \<open>The operations on the lists\<close>

lemma assign_simps [simp]:
  "mem (assign p c v) = (mem p)(c := v)" "prev_ptr (assign p c v) = prev_ptr p"
  "prev_by_call_ptr (assign p c v) = prev_by_call_ptr p" "idle_clients_tail_ptr (assign p c v) = idle_clients_tail_ptr p"
  by (simp_all add: assign_def)

lemma pool_unlink_parts:
  "mem (pool_unlink p pc) = (mem p)(the (prev_ptr p pc) := mem p (Next pc))"
  "prev_ptr (pool_unlink p pc) =
     (case mem p (Next pc) of None \<Rightarrow> prev_ptr p | Some n \<Rightarrow> (prev_ptr p)(n := prev_ptr p pc))"
  "prev_by_call_ptr (pool_unlink p pc) = prev_by_call_ptr p"
  "idle_clients_tail_ptr (pool_unlink p pc) =
     (case mem p (Next pc) of None \<Rightarrow> prev_ptr p pc | Some _ \<Rightarrow> idle_clients_tail_ptr p)"
  by (simp_all add: pool_unlink_def Let_def split: option.splits)

lemma idle_unlink:
  assumes "idle_ok p idle" and "pc \<in> set idle"
  shows "idle_ok (pool_unlink p pc) (remove1 pc idle)"
proof -
  have c: "chain Next (mem p) (prev_ptr p) IdleHead idle" and d: "distinct idle"
    and t: "idle_clients_tail_ptr p = Some (end_cell idle)"
    using assms(1) by (simp_all add: idle_ok_def)
  obtain ys zs where i: "idle = ys @ pc # zs"
    using assms(2) by (meson split_list)
  have "idle_clients_tail_ptr (pool_unlink p pc) = Some (end_cell (remove1 pc idle))"
  proof (cases zs)
    case Nil
    with c i have "mem p (Next pc) = None" "prev_ptr p pc = Some (end_cell ys)"
      using idle_list.chain_last [of "mem p" "prev_ptr p" IdleHead ys pc] by (auto simp: end_cell_def)
    then show ?thesis
      using Nil i d by (simp add: pool_unlink_parts remove1_append)
  next
    case (Cons z zs')
    with c i have "mem p (Next pc) = Some z"
      using idle_list.chain_inner [of "mem p" "prev_ptr p" IdleHead ys pc z zs'] by simp
    then show ?thesis
      using Cons i d t by (simp add: pool_unlink_parts remove1_append end_cell_def)
  qed
  moreover have "chain Next (mem (pool_unlink p pc)) (prev_ptr (pool_unlink p pc)) IdleHead (remove1 pc idle)"
    unfolding pool_unlink_parts by (rule idle_list.chain_unlink) (use c d assms(2) in auto)
  ultimately show ?thesis
    using d by (simp add: idle_ok_def)
qed

lemma calls_frame:
  assumes "calls_ok p calls" and "prev_by_call_ptr p' = prev_by_call_ptr p"
    and "\<And>h. mem p' (Bucket h) = mem p (Bucket h)" and "\<And>x. mem p' (NextByCall x) = mem p (NextByCall x)"
  shows "calls_ok p' calls"
  unfolding calls_ok_def
proof (intro conjI allI)
  fix h
  show "chain NextByCall (mem p') (prev_by_call_ptr p') (Bucket h) (calls h)"
    by (rule call_list.chain_cong [where m = "mem p" and prev = "prev_by_call_ptr p"])
       (use assms in \<open>auto simp: calls_ok_def\<close>)
qed (use assms(1) in \<open>auto simp: calls_ok_def\<close>)

lemma calls_unlink_idle:
  assumes "calls_ok p calls" and "idle_ok p idle" and "pc \<in> set idle"
  shows "calls_ok (pool_unlink p pc) calls"
proof -
  have "prev_ptr p pc = Some IdleHead \<or> (\<exists>x. prev_ptr p pc = Some (Next x))"
    using idle_list.chain_prev [of "mem p" "prev_ptr p" IdleHead idle pc] assms(2,3) by (auto simp: idle_ok_def)
  then show ?thesis
    by (elim disjE exE; intro calls_frame [OF assms(1)]) (simp_all add: pool_unlink_parts)
qed

lemma idle_frame:
  assumes "idle_ok p idle" and "prev_ptr p' = prev_ptr p" and "idle_clients_tail_ptr p' = idle_clients_tail_ptr p"
    and "mem p' IdleHead = mem p IdleHead" and "\<And>x. mem p' (Next x) = mem p (Next x)"
  shows "idle_ok p' idle"
proof -
  have "chain Next (mem p') (prev_ptr p') IdleHead idle"
    by (rule idle_list.chain_cong [where m = "mem p" and prev = "prev_ptr p"])
       (use assms in \<open>auto simp: idle_ok_def\<close>)
  with assms show ?thesis
    by (simp add: idle_ok_def)
qed

lemma call_unlink_parts:
  assumes "prev_by_call_ptr p pc = Some c"
  shows "mem (call_unlink p pc) = (mem p)(the (prev_by_call_ptr p pc) := mem p (NextByCall pc))"
    and "prev_by_call_ptr (call_unlink p pc) =
      (case mem p (NextByCall pc) of None \<Rightarrow> prev_by_call_ptr p
       | Some n \<Rightarrow> (prev_by_call_ptr p)(n := prev_by_call_ptr p pc))"
  using assms by (simp_all add: call_unlink_def Let_def split: option.splits)

lemma call_unlink_other:
  "prev_ptr (call_unlink p pc) = prev_ptr p" "idle_clients_tail_ptr (call_unlink p pc) = idle_clients_tail_ptr p"
  by (simp_all add: call_unlink_def Let_def split: option.splits)

lemma calls_okD:
  assumes "calls_ok p calls"
  shows "chain NextByCall (mem p) (prev_by_call_ptr p) (Bucket h) (calls h)" and "distinct (calls h)"
    and "x \<in> set (calls h) \<Longrightarrow> x \<in> set (calls k) \<Longrightarrow> h = k"
proof -
  show "chain NextByCall (mem p) (prev_by_call_ptr p) (Bucket h) (calls h)" and "distinct (calls h)"
    using assms by (simp_all add: calls_ok_def)
  show "x \<in> set (calls h) \<Longrightarrow> x \<in> set (calls k) \<Longrightarrow> h = k"
    using assms unfolding calls_ok_def by (meson disjoint_iff)
qed

lemma set_without: "distinct (calls h) \<Longrightarrow> set (without_slot calls pc h) = set (calls h) - {pc}"
  by (simp add: without_slot_def)

text \<open>Unlinking a slot of the bucket \<open>g\<close> changes cells and back pointers of that bucket only.\<close>

lemma call_unlink_local:
  assumes "calls_ok p calls" and "pc \<in> set (calls g)" and "h \<noteq> g"
  shows "d = Bucket h \<or> d \<in> NextByCall ` set (calls h) \<Longrightarrow> mem (call_unlink p pc) d = mem p d"
    and "x \<in> set (calls h) \<Longrightarrow> prev_by_call_ptr (call_unlink p pc) x = prev_by_call_ptr p x"
proof -
  note ok = calls_okD [OF assms(1)]
  obtain c where c: "prev_by_call_ptr p pc = Some c" "c = Bucket g \<or> c \<in> NextByCall ` set (calls g)"
    using call_list.chain_prev [OF ok(1) assms(2)] by auto
  then show "d = Bucket h \<or> d \<in> NextByCall ` set (calls h) \<Longrightarrow> mem (call_unlink p pc) d = mem p d"
    using ok(3) assms(3) by (auto simp: call_unlink_parts(1) [OF c(1)])
  show "x \<in> set (calls h) \<Longrightarrow> prev_by_call_ptr (call_unlink p pc) x = prev_by_call_ptr p x"
    using call_list.chain_next [OF ok(1) assms(2)] ok(3) assms(3)
    by (auto simp: call_unlink_parts(2) [OF c(1)] split: option.splits)
qed

lemma call_unlink_chain:
  assumes "calls_ok p calls" and "pc \<in> set (calls g)"
  shows "chain NextByCall (mem (call_unlink p pc)) (prev_by_call_ptr (call_unlink p pc)) (Bucket h) (without_slot calls pc h)"
proof (cases "h = g")
  case True
  note ok = calls_okD [OF assms(1)]
  obtain c where c: "prev_by_call_ptr p pc = Some c"
    using call_list.chain_prev [OF ok(1) assms(2)] by auto
  show ?thesis
    unfolding call_unlink_parts [OF c] True without_slot_def
    by (rule call_list.chain_unlink [OF ok(1,2) assms(2)]) auto
next
  case False
  then have "without_slot calls pc h = calls h"
    using calls_okD(3) [OF assms(1,2)] by (metis remove1_idem without_slot_def)
  moreover have "chain NextByCall (mem (call_unlink p pc)) (prev_by_call_ptr (call_unlink p pc)) (Bucket h) (calls h)"
    by (rule call_list.chain_cong [OF _ _ calls_okD(1) [OF assms(1)]])
       (fact call_unlink_local [OF assms False])+
  ultimately show ?thesis
    by simp
qed

lemma call_unlink_mem:
  assumes "calls_ok p calls" and "\<And>x. prev_by_call_ptr p x = None \<longleftrightarrow> (\<forall>h. x \<notin> set (calls h))"
  shows "mem (call_unlink p pc) IdleHead = mem p IdleHead" and "mem (call_unlink p pc) (Next x) = mem p (Next x)"
proof -
  have "prev_by_call_ptr p pc = None \<or> (\<exists>h. prev_by_call_ptr p pc = Some (Bucket h)) \<or>
      (\<exists>x. prev_by_call_ptr p pc = Some (NextByCall x))"
    using assms(2) [of pc] call_list.chain_prev [OF calls_okD(1) [OF assms(1)], of pc] by (cases "prev_by_call_ptr p pc") auto
  then show "mem (call_unlink p pc) IdleHead = mem p IdleHead" and "mem (call_unlink p pc) (Next x) = mem p (Next x)"
    by (auto simp: call_unlink_parts) (simp_all add: call_unlink_def)
qed

lemma calls_unlink:
  assumes "calls_ok p calls" and "\<And>x. prev_by_call_ptr p x = None \<longleftrightarrow> (\<forall>h. x \<notin> set (calls h))"
  shows "calls_ok (call_unlink p pc) (without_slot calls pc)"
    and "x \<noteq> pc \<Longrightarrow> prev_by_call_ptr (call_unlink p pc) x = None \<longleftrightarrow> (\<forall>h. x \<notin> set (without_slot calls pc h))"
proof -
  note ok = calls_okD [OF assms(1)]
  have "calls_ok (call_unlink p pc) (without_slot calls pc) \<and>
      (prev_by_call_ptr (call_unlink p pc) x = None) = (prev_by_call_ptr p x = None)" for x
  proof (cases "prev_by_call_ptr p pc")
    case None
    then have "without_slot calls pc = calls"
      using assms(2) by (auto simp: without_slot_def remove1_idem)
    then show ?thesis
      using None assms(1) by (simp add: call_unlink_def)
  next
    case (Some c)
    obtain g where g: "pc \<in> set (calls g)"
      using assms(2) [of pc] Some by auto
    have "calls_ok (call_unlink p pc) (without_slot calls pc)"
      unfolding calls_ok_def using call_unlink_chain [OF assms(1) g] ok(2,3) set_without [OF ok(2)]
      by (auto simp: without_slot_def [of calls pc])
    moreover have "(prev_by_call_ptr (call_unlink p pc) x = None) = (prev_by_call_ptr p x = None)"
      using Some assms(2) [of x] call_list.chain_next [OF ok(1) g, of x]
      by (auto simp: call_unlink_parts(2) [OF Some] split: option.splits)
    ultimately show ?thesis
      by blast
  qed
  then show "calls_ok (call_unlink p pc) (without_slot calls pc)"
    and "x \<noteq> pc \<Longrightarrow> prev_by_call_ptr (call_unlink p pc) x = None \<longleftrightarrow> (\<forall>h. x \<notin> set (without_slot calls pc h))"
    using set_without [OF ok(2)] assms(2) by auto
qed

lemma call_link_parts:
  "mem (call_link p pc h) = (mem p)(NextByCall pc := mem p (Bucket h), Bucket h := Some pc)"
  "prev_by_call_ptr (call_link p pc h) =
     (case mem p (Bucket h) of None \<Rightarrow> (prev_by_call_ptr p)(pc := Some (Bucket h))
      | Some n \<Rightarrow> (prev_by_call_ptr p)(pc := Some (Bucket h), n := Some (NextByCall pc)))"
  "prev_ptr (call_link p pc h) = prev_ptr p" "idle_clients_tail_ptr (call_link p pc h) = idle_clients_tail_ptr p"
  by (simp_all add: call_link_def Let_def split: option.splits)

lemma calls_link:
  assumes "calls_ok p calls" and "\<And>h. pc \<notin> set (calls h)"
  shows "calls_ok (call_link p pc g) (calls(g := pc # calls g))"
proof -
  note ok = calls_okD [OF assms(1)]
  have "chain NextByCall (mem (call_link p pc g)) (prev_by_call_ptr (call_link p pc g)) (Bucket h) ((calls(g := pc # calls g)) h)" for h
  proof (cases "h = g")
    case True
    have "chain NextByCall (mem (call_link p pc g)) (prev_by_call_ptr (call_link p pc g)) (Bucket g) (pc # calls g)"
      unfolding call_link_parts by (rule call_list.chain_push [OF ok(1) assms(2) _ ok(2)]) auto
    with True show ?thesis
      by simp
  next
    case False
    have n: "n \<in> set (calls g)" if "mem p (Bucket g) = Some n" for n
      using call_list.chain_head [OF ok(1) [of g]] that by (auto split: list.splits)
    have "chain NextByCall (mem (call_link p pc g)) (prev_by_call_ptr (call_link p pc g)) (Bucket h) (calls h)"
    proof (rule call_list.chain_cong [OF _ _ ok(1)])
      fix d
      assume "d = Bucket h \<or> d \<in> NextByCall ` set (calls h)"
      with False assms(2) [of h] show "mem (call_link p pc g) d = mem p d"
        by (auto simp: call_link_parts)
    next
      fix x
      assume "x \<in> set (calls h)"
      with False assms(2) [of h] n ok(3) show "prev_by_call_ptr (call_link p pc g) x = prev_by_call_ptr p x"
        by (auto simp: call_link_parts split: option.splits)
    qed
    with False show ?thesis
      by simp
  qed
  with ok(2,3) assms(2) show ?thesis
    unfolding calls_ok_def by (auto split: if_splits)
qed

lemma pool_take_ok:
  assumes "pool_ok p idle calls" and "pc \<in> set idle"
  shows "pool_ok (pool_take p pc h) (remove1 pc idle) (recent_calls calls pc h)"
proof -
  define p1 p2 where "p1 = pool_unlink p pc" and "p2 = call_unlink p1 pc"
  have idle: "idle_ok p idle" and calls: "calls_ok p calls"
    and none: "\<And>x. prev_by_call_ptr p x = None \<longleftrightarrow> (\<forall>h. x \<notin> set (calls h))"
    using assms(1) by (auto simp: pool_ok_def)
  have i1: "idle_ok p1 (remove1 pc idle)"
    unfolding p1_def by (rule idle_unlink [OF idle assms(2)])
  have c1: "calls_ok p1 calls"
    unfolding p1_def by (rule calls_unlink_idle [OF calls idle assms(2)])
  have "prev_by_call_ptr p1 x = None \<longleftrightarrow> (\<forall>h. x \<notin> set (calls h))" for x
    using none by (simp add: p1_def pool_unlink_parts)
  note none1 = this
  have c2: "calls_ok p2 (without_slot calls pc)"
    and none2: "x \<noteq> pc \<Longrightarrow> prev_by_call_ptr p2 x = None \<longleftrightarrow> (\<forall>h. x \<notin> set (without_slot calls pc h))" for x
    unfolding p2_def using calls_unlink [OF c1 none1] by blast+
  have out: "pc \<notin> set (without_slot calls pc h)" for h
    using set_without calls_okD(2) [OF calls] by fastforce
  have "calls_ok (call_link p2 pc h) (recent_calls calls pc h)"
    unfolding recent_calls_def by (rule calls_link [OF c2 out])
  moreover have "idle_ok (call_link p2 pc h) (remove1 pc idle)"
    by (rule idle_frame [OF i1]) (simp_all add: p2_def call_link_parts call_unlink_other call_unlink_mem [OF c1 none1])
  moreover have "prev_by_call_ptr (call_link p2 pc h) x = None \<longleftrightarrow> (\<forall>k. x \<notin> set (recent_calls calls pc h k))" for x
  proof (cases "x = pc")
    case True
    then have "pc \<in> set (recent_calls calls pc h h)"
      by (simp add: recent_calls_def)
    with True show ?thesis
      by (auto simp: call_link_parts split: option.splits)
  next
    case False
    have "n \<in> set (without_slot calls pc h)" if "mem p2 (Bucket h) = Some n" for n
      using call_list.chain_head [OF calls_okD(1) [OF c2, of h]] that by (simp split: list.splits)
    then have "prev_by_call_ptr (call_link p2 pc h) x = None \<longleftrightarrow> prev_by_call_ptr p2 x = None"
      using False none2 [OF False] by (auto simp: call_link_parts split: option.splits)
    moreover have "x \<in> set (recent_calls calls pc h k) \<longleftrightarrow> x \<in> set (without_slot calls pc k)" for k
      using False by (simp add: recent_calls_def)
    ultimately show ?thesis
      using none2 [OF False] by simp
  qed
  ultimately show ?thesis
    by (simp add: pool_ok_def pool_take_def p1_def p2_def)
qed

lemma pool_put_parts:
  assumes "idle_clients_tail_ptr p = Some e" 
  shows "mem (pool_put p pc) = (mem p)(Next pc := None, e := Some pc)"
    and "prev_ptr (pool_put p pc) = (prev_ptr p)(pc := Some e)"
    and "prev_by_call_ptr (pool_put p pc) = prev_by_call_ptr p"
    and "idle_clients_tail_ptr (pool_put p pc) = Some (Next pc)"
  using assms by (simp_all add: pool_put_def pool_detach_def pool_attach_def Let_def)

lemma pool_put_ok:
  assumes "pool_ok p idle calls" and "pc \<notin> set idle"
  shows "pool_ok (pool_put p pc) (idle @ [pc]) calls"
proof -
  have idle: "idle_ok p idle" and calls: "calls_ok p calls"
    and none: "\<And>x. prev_by_call_ptr p x = None \<longleftrightarrow> (\<forall>h. x \<notin> set (calls h))"
    using assms(1) by (auto simp: pool_ok_def)
  have t: "idle_clients_tail_ptr p = Some (end_cell idle)" and c: "chain Next (mem p) (prev_ptr p) IdleHead idle"
    and d: "distinct idle"
    using idle by (simp_all add: idle_ok_def)
  note parts = pool_put_parts [OF t]
  have "chain Next (mem (pool_put p pc)) (prev_ptr (pool_put p pc)) IdleHead (idle @ [pc])"
    unfolding parts by (rule idle_list.chain_snoc [OF c assms(2) _ d]) (auto simp: end_cell_def)
  then have "idle_ok (pool_put p pc) (idle @ [pc])"
    using d assms(2) by (simp add: idle_ok_def parts end_cell_def)
  moreover have "end_cell idle = IdleHead \<or> (\<exists>x. end_cell idle = Next x)"
    by (simp add: end_cell_def)
  then have "calls_ok (pool_put p pc) calls"
    by (elim disjE exE; intro calls_frame [OF calls]) (simp_all add: parts)
  ultimately show ?thesis
    using none by (simp add: pool_ok_def parts)
qed

text \<open>Chaining the slots one after the other is adding them at the end, one by one.\<close>

lemma open_link_ok:
  assumes "chain Next (mem (assign p (Next k) None)) (prev_ptr p) IdleHead [0..<Suc k]" and "i = Suc k"
  shows "chain Next (mem (assign (open_link i p) (Next i) None)) (prev_ptr (open_link i p)) IdleHead [0..<Suc i]"
proof -
  have "chain Next ((mem (assign p (Next k) None))(Next i := None, Next k := Some i)) ((prev_ptr p)(i := Some (Next k)))
      IdleHead ([0..<Suc k] @ [i])"
    by (rule idle_list.chain_snoc [OF assms(1)]) (use assms(2) in auto)
  then have c: "chain Next ((mem p)(Next k := None, Next i := None, Next k := Some i)) ((prev_ptr p)(i := Some (Next k)))
      IdleHead [0..<Suc i]"
    using assms(2) by (simp del: upt_Suc add: upt_Suc_append)
  show ?thesis
    by (rule idle_list.chain_cong [OF _ _ c]) (use assms(2) in \<open>auto simp: open_link_def Let_def\<close>)
qed

lemma open_links_ok:
  assumes "mem p IdleHead = Some 0" and "prev_ptr p 0 = Some IdleHead"
  shows "chain Next (mem (assign (fold open_link [1..<Suc k] p) (Next k) None)) (prev_ptr (fold open_link [1..<Suc k] p))
    IdleHead [0..<Suc k]"
proof (induction k)
  case 0
  show ?case
    using assms by simp
next
  case (Suc k)
  have "fold open_link [1..<Suc (Suc k)] p = open_link (Suc k) (fold open_link [1..<Suc k] p)"
    by simp
  then show ?case
    using open_link_ok [OF Suc refl] by (simp only:)
qed

lemma open_links_calls:
  "mem p (NextByCall x) = None \<Longrightarrow> mem (fold open_link is p) (NextByCall x) = None"
  "prev_by_call_ptr p x = None \<Longrightarrow> prev_by_call_ptr (fold open_link is p) x = None"
  "mem (fold open_link is p) (Bucket h) = mem p (Bucket h)"
  by (induction "is" arbitrary: p) (auto simp: open_link_def Let_def)

lemma pool_open_ok:
  assumes "0 < n"
  shows "pool_ok (pool_open (fresh_slots p) n) [0..<n] (\<lambda>_. [])"
proof -
  obtain k where n: "n = Suc k"
    using assms by (cases n) auto
  define q where "q = assign (clear_buckets (fresh_slots p)\<lparr>prev_ptr := (prev_ptr (clear_buckets (fresh_slots p)))(0 := Some IdleHead)\<rparr>)
    IdleHead (Some 0)"
  have q: "mem q IdleHead = Some 0" "prev_ptr q 0 = Some IdleHead" "mem q (Bucket h) = None" "prev_by_call_ptr q x = None" for h x
    by (simp_all add: q_def clear_buckets_def fresh_slots_def)
  have o: "pool_open (fresh_slots p) n =
      (assign (fold open_link [1..<n] q) (Next (n - 1)) None)\<lparr>idle_clients_tail_ptr := Some (Next (n - 1))\<rparr>"
    by (simp add: pool_open_def Let_def q_def)
  have "mem (pool_open (fresh_slots p) n) = mem (assign (fold open_link [1..<Suc k] q) (Next k) None)"
    "prev_ptr (pool_open (fresh_slots p) n) = prev_ptr (fold open_link [1..<Suc k] q)"
    "idle_clients_tail_ptr (pool_open (fresh_slots p) n) = Some (Next k)"
    unfolding o by (simp_all add: n del: upt_Suc)
  moreover have "end_cell [0..<Suc k] = Next k"
    by (simp add: end_cell_def)
  ultimately have "idle_ok (pool_open (fresh_slots p) n) [0..<n]"
    using open_links_ok [OF q(1,2), of k] by (simp only: idle_ok_def n distinct_upt simp_thms)
  moreover have "calls_ok (pool_open (fresh_slots p) n) (\<lambda>_. [])"
    using q(3) by (simp add: calls_ok_def o open_links_calls)
  moreover have "prev_by_call_ptr (pool_open (fresh_slots p) n) x = None" for x
    using q(4) by (simp add: o open_links_calls)
  ultimately show ?thesis
    by (simp add: pool_ok_def)
qed

lemma pool_run_ok:
  "pool_ok p (fst st) (snd st) \<Longrightarrow> pool_legal st ops \<Longrightarrow>
   pool_ok (fold pool_exec ops p) (fst (fold list_exec ops st)) (snd (fold list_exec ops st))"
proof (induction ops arbitrary: p st)
  case (Cons op ops)
  obtain idle calls where st: "st = (idle, calls)"
    by (rule prod.exhaust)
  have "pool_ok (pool_exec op p) (fst (list_exec op st)) (snd (list_exec op st)) \<and> pool_legal (list_exec op st) ops"
    using Cons.prems pool_take_ok pool_put_ok by (cases op) (simp_all add: st)
  then show ?case
    using Cons.IH by simp
qed simp

lemma pool_ok_heads:
  assumes "pool_ok p idle calls"
  shows "mem p IdleHead = (case idle of [] \<Rightarrow> None | x # _ \<Rightarrow> Some x)"
    and "mem p (Bucket h) = (case calls h of [] \<Rightarrow> None | x # _ \<Rightarrow> Some x)"
  using assms idle_list.chain_head call_list.chain_head unfolding pool_ok_def idle_ok_def calls_ok_def by blast+

section \<open>Properties\<close>

text \<open>C34: The pointer operations on the slot pool implement a queue of idle slots and a map of most
  recently used lists.  Opening the proxy chains all slots in order and empties every bucket;
  after that, for every sequence of operations, taking a slot removes it from the queue wherever
  it stands and moves it to the front of the bucket of the callsign, and putting a slot back adds
  it at the end of the queue.  Every next, previous, tail and bucket pointer agrees with these
  lists; in particular the head of the idle list is the slot that has been idle for longest.\<close>

theorem slot_pool_refines:
  assumes "0 < n" and "pool_legal ([0..<n], \<lambda>_. []) ops"
    and "fold list_exec ops ([0..<n], \<lambda>_. []) = (idle, calls)"
    and "p' = fold pool_exec ops (pool_open (fresh_slots p) n)"
  shows "pool_ok p' idle calls \<and> mem p' IdleHead = (case idle of [] \<Rightarrow> None | x # _ \<Rightarrow> Some x)"
  using pool_run_ok [of "pool_open (fresh_slots p) n" "([0..<n], \<lambda>_. [])" ops] pool_open_ok [OF assms(1), of p] assms
    pool_ok_heads(1) [of p' idle calls] by simp

text \<open>Three slots; the one in the middle is taken, then the first, and the one in the middle comes back.\<close>

theorem slot_pool_refines_witness:
  "pool_ok (fold pool_exec [Take 1 7, Take 0 7, Put 1] (pool_open (fresh_slots new_pool) 3)) [2, 1]
     ((\<lambda>_. [])(7 := [0, 1]))"
proof -
  have l: "[0..<3] = [0, 1, 2 :: nat]"
    by (simp add: upt_rec)
  have "fold list_exec [Take 1 7, Take 0 7, Put 1] ([0..<3], \<lambda>_. []) = ([2, 1], (\<lambda>_. [])(7 := [0, 1]))"
    by (auto simp: l recent_calls_def without_slot_def)
  then show ?thesis
    using slot_pool_refines [of 3 "[Take 1 7, Take 0 7, Put 1]" "[2, 1]" _ _ new_pool] by (simp add: l)
qed


end
