(* ===== verification/Proxy.thy ===== *)
theory Proxy
  imports Auth Pearson ProxyConn Registration Log SlotPool "HOL-Library.Monad_Syntax"
begin

text \<open>
  src/proxy.c: the proxy itself, which owns the listening socket, the client slots, the workers that
  serve the clients, the registration service and the logger.

  The handle is a record with the private data and the configuration; an operation acts on the
  private data and the environment.  A value of type option stands for the behaviour: None is
  undefined behaviour, the use of a NULL pointer.  The slots form an array with the pointers of theory
  SlotPool, the workers an array with the list of idle ones, which the code only uses as a stack:
  the list holds the indices of the workers from \<open>idle_workers_head\<close> along \<open>next\<close>.  The
  connection to a client that a worker owns is where the code lets others use it: with the worker, or
  lent to a slot.  Calls of the logger are left out where nothing but a message depends on them.

  Each operation is the run of one thread with the others waiting; theory ProxyRun lets the workers
  of several clients take turns.
\<close>

section \<open>State\<close>

datatype client_at = Held conn_handle | Lent nat

record proxy_worker =
  pw_conn_client :: "client_at option"
  pw_mutex :: mutex_handle
  pw_worker :: worker_handle
  pw_callsign :: string

record 're proxy_priv =
  pp_clients :: "proxy_conn_handle list option"
  pp_pool :: pool
  pp_client_workers :: "proxy_worker list option"
  pp_idle_workers :: "nat list"
  pp_res :: "'re call_res"
  pp_num_clients :: int
  pp_usable_clients :: int
  pp_conn_listen :: conn_handle
  pp_log :: log_handle
  pp_usable_clients_mutex :: mutex_handle
  pp_idle_clients_mutex :: mutex_handle
  pp_idle_workers_mutex :: mutex_handle
  pp_reg_service :: registration_service_handle
  pp_port_str :: string

text \<open>The handle, and beside it whether the process has a connection to syslog.\<close>

record 're proxy_handle =
  ph_priv :: "'re proxy_priv option"
  ph_conf :: proxy_conf
  ph_syslog :: bool

abbreviation slot_of :: "'re proxy_priv \<Rightarrow> nat \<Rightarrow> proxy_conn_handle" where
  "slot_of priv i \<equiv> the (pp_clients priv) ! i"

abbreviation worker_of :: "'re proxy_priv \<Rightarrow> nat \<Rightarrow> proxy_worker" where
  "worker_of priv k \<equiv> the (pp_client_workers priv) ! k"

abbreviation set_slot :: "'re proxy_priv \<Rightarrow> nat \<Rightarrow> proxy_conn_handle \<Rightarrow> 're proxy_priv" where
  "set_slot priv i pc \<equiv> priv\<lparr>pp_clients := Some ((the (pp_clients priv))[i := pc])\<rparr>"

abbreviation set_worker :: "'re proxy_priv \<Rightarrow> nat \<Rightarrow> proxy_worker \<Rightarrow> 're proxy_priv" where
  "set_worker priv k pw \<equiv> priv\<lparr>pp_client_workers := Some ((the (pp_client_workers priv))[k := pw])\<rparr>"

text \<open>An array that may be NULL, which is as good as an empty one for a loop that does not run.\<close>

abbreviation array_of :: "'a list option \<Rightarrow> 'a list" where
  "array_of a \<equiv> (case a of None \<Rightarrow> [] | Some xs \<Rightarrow> xs)"

text \<open>The records that \<open>calloc\<close> gives.\<close>

definition new_slot :: proxy_conn_handle where
  "new_slot = \<lparr>pc_priv = None, pc_source_addr = None, pc_control_port = None, pc_data_port = None\<rparr>"

definition new_proxy_worker :: proxy_worker where
  "new_proxy_worker = \<lparr>pw_conn_client = None, pw_mutex = None, pw_worker = new_worker, pw_callsign = []\<rparr>"

definition new_proxy_priv :: "'re proxy_priv" where
  "new_proxy_priv =
     \<lparr>pp_clients = None, pp_pool = new_pool, pp_client_workers = None, pp_idle_workers = [],
      pp_res = \<lparr>re_calls_allowed = None, re_calls_denied = None\<rparr>, pp_num_clients = 0, pp_usable_clients = 0,
      pp_conn_listen = new_conn, pp_log = zero_log, pp_usable_clients_mutex = None, pp_idle_clients_mutex = None,
      pp_idle_workers_mutex = None, pp_reg_service = None, pp_port_str = []\<rparr>"

section \<open>Workers\<close>

definition proxy_worker_accept :: "proxy_worker \<Rightarrow> conn_handle \<Rightarrow> int \<times> proxy_worker" where
  "proxy_worker_accept pw conn_client =
     (if pw_conn_client pw \<noteq> None then (- EBUSY, pw)
      else
        case worker_wake (pw_worker pw) of (ret, w) \<Rightarrow>
          (ret, pw\<lparr>pw_worker := w, pw_conn_client := (if ret < 0 then None else Some (Held conn_client))\<rparr>))"

definition proxy_worker_drop :: "os \<Rightarrow> 're proxy_priv \<Rightarrow> nat \<Rightarrow> 're proxy_priv \<times> os" where
  "proxy_worker_drop s priv k =
     (case pw_conn_client (worker_of priv k) of
        None \<Rightarrow> (priv, s)
      | Some (Held conn) \<Rightarrow>
          (case conn_drop s conn of (conn, s) \<Rightarrow>
             (set_worker priv k ((worker_of priv k)\<lparr>pw_conn_client := Some (Held conn)\<rparr>), s))
      | Some (Lent i) \<Rightarrow>
          (let pv = pcpriv (slot_of priv i) in
           case conn_drop s (the (pv_conn_client pv)) of (conn, s) \<Rightarrow>
             (set_slot priv i (with_pcpriv (slot_of priv i) (pv\<lparr>pv_conn_client := Some conn\<rparr>)), s)))"

definition proxy_worker_free :: "os \<Rightarrow> proxy_worker \<Rightarrow> proxy_worker \<times> os" where
  "proxy_worker_free s pw =
     (case worker_free s (pw_worker pw) of (w, s) \<Rightarrow>
      case mutex_free s (pw_mutex pw) of (m, s) \<Rightarrow> (pw\<lparr>pw_worker := w, pw_mutex := m\<rparr>, s))"

definition proxy_worker_init :: "os \<Rightarrow> proxy_worker \<Rightarrow> int \<times> proxy_worker \<times> os" where
  "proxy_worker_init s pw =
     (case mutex_init s (pw_mutex pw) of (ret, m, s) \<Rightarrow>
        let pw = pw\<lparr>pw_mutex := m\<rparr>
        in if ret < 0 then (ret, pw, s)
        else
          case worker_init s ((pw_worker pw)\<lparr>w_stack_size := 1024 * 1024\<rparr>) of (ret, w, s) \<Rightarrow>
            let pw = pw\<lparr>pw_worker := w\<rparr>
            in if ret < 0 then (case mutex_free s (pw_mutex pw) of (m, s) \<Rightarrow> (ret, pw\<lparr>pw_mutex := m\<rparr>, s))
            else (0, pw, s))"

section \<open>Registration\<close>

text \<open>The counts are C integers; the registration service takes them as \<open>size_t\<close>.\<close>

definition proxy_update_registration :: "'re proxy_priv \<Rightarrow> 're proxy_priv option" where
  "proxy_update_registration priv =
     (if pp_usable_clients_mutex priv = None \<or> pp_idle_workers_mutex priv = None then None
      else
        let slots_total = pp_usable_clients priv;
            slots_used = pp_num_clients priv - int (length (pp_idle_workers priv))
        in do {
          rs \<leftarrow> pp_reg_service priv;
          Some (priv\<lparr>pp_reg_service := Some (registration_service_update rs (of_int slots_used) (of_int slots_total))\<rparr>)
        })"

section \<open>The function of a worker\<close>

text \<open>Giving the connection back and queueing the worker: the end of both the failing and the
  successful run.\<close>

definition worker_release :: "os \<Rightarrow> 're proxy_priv \<Rightarrow> nat \<Rightarrow> conn_handle \<Rightarrow> 're proxy_priv \<times> os" where
  "worker_release s priv k conn =
     (case conn_free s conn of (_, s) \<Rightarrow>
        let priv = set_worker priv k ((worker_of priv k)\<lparr>pw_conn_client := None\<rparr>)
        in (priv\<lparr>pp_idle_workers := k # pp_idle_workers priv\<rparr>, os_free s))"

text \<open>\<open>proxy_conn_accept\<close> on a slot of the array.  When it fails it gives the connection back.\<close>

definition slot_accept ::
    "os \<Rightarrow> 're proxy_priv \<Rightarrow> nat \<Rightarrow> conn_handle \<Rightarrow> string \<Rightarrow> bool \<Rightarrow> (int \<times> conn_handle option \<times> 're proxy_priv \<times> os) option" where
  "slot_accept s priv pc conn callsign reconnect_only =
     do {
       pv \<leftarrow> pc_priv (slot_of priv pc);
       let (ret, back, pv, s) = proxy_conn_accept s pv conn callsign reconnect_only;
       Some (ret, back, set_slot priv pc (with_pcpriv (slot_of priv pc) pv), s)
     }"

text \<open>The search for a slot the callsign used before, along the bucket from the cell \<open>c\<close> on.  The
  result is the slot with the result of \<open>proxy_conn_accept\<close>, or None at the end of the bucket.\<close>

partial_function (option) reconnect ::
    "os \<Rightarrow> 're proxy_priv \<Rightarrow> conn_handle \<Rightarrow> string \<Rightarrow> cell \<Rightarrow>
     (nat option \<times> int \<times> conn_handle option \<times> 're proxy_priv \<times> os) option" where
  "reconnect s priv conn callsign c =
     (case mem (pp_pool priv) c of
        None \<Rightarrow> Some (None, 0, Some conn, priv, s)
      | Some pc \<Rightarrow>
          do {
            (ret, back, priv, s) \<leftarrow> slot_accept s priv pc conn callsign True;
            if ret \<noteq> - EBUSY then Some (Some pc, ret, back, priv, s)
            else do { conn \<leftarrow> back; reconnect s priv conn callsign (NextByCall pc) }
          })"

text \<open>Acquiring a slot, with the lock on the list of idle slots held: the callsign's last slot if it
  can be had, the one that is idle for the longest time otherwise.  A negative result leaves the
  connection with the worker.\<close>

definition worker_acquire ::
    "os \<Rightarrow> 're proxy_priv \<Rightarrow> nat \<Rightarrow> conn_handle \<Rightarrow> string \<Rightarrow> u8 \<Rightarrow> (nat option \<times> 're proxy_priv \<times> os) option" where
  "worker_acquire s priv k conn callsign hash =
     (case mem (pp_pool priv) IdleHead of
        None \<Rightarrow> Some (None, priv, s)
      | Some head \<Rightarrow>
          do {
            (found, ret, back, priv, s) \<leftarrow> reconnect s priv conn callsign (Bucket hash);
            (pc, ret, back, priv, s) \<leftarrow>
              (case found of
                 Some pc \<Rightarrow> Some (pc, ret, back, priv, s)
               | None \<Rightarrow>
                   do {
                     conn \<leftarrow> back;
                     (ret, back, priv, s) \<leftarrow> slot_accept s priv head conn callsign False;
                     Some (head, ret, back, priv, s)
                   });
            Some (if ret < 0
                  then (None, set_worker priv k ((worker_of priv k)\<lparr>pw_conn_client := map_option Held back\<rparr>), s)
                  else (Some pc, set_worker (priv\<lparr>pp_pool := pool_take (pp_pool priv) pc hash\<rparr>) k
                          ((worker_of priv k)\<lparr>pw_conn_client := Some (Lent pc)\<rparr>), s))
          })"

text \<open>The run up to the loop.  \<open>Some pc\<close> is the slot the worker serves; None says that the run is
  over.\<close>

definition worker_begin ::
    "'re pcre \<Rightarrow> md5_ctx \<Rightarrow> u32 \<Rightarrow> bytes \<Rightarrow> proxy_conf \<Rightarrow> os \<Rightarrow> 're proxy_priv \<Rightarrow> nat \<Rightarrow>
     (nat option \<times> 're proxy_priv \<times> os) option" where
  "worker_begin pcre ctx rnd buff conf s priv k =
     (case pw_conn_client (worker_of priv k) of
        Some (Held conn) \<Rightarrow>
          do {
            password \<leftarrow> cf_password conf;
            let (ret, callsign, s) =
              proxy_worker_authorize pcre (pp_res priv) ctx password rnd buff s conn (pw_callsign (worker_of priv k));
            let priv = set_worker priv k ((worker_of priv k)\<lparr>pw_callsign := callsign\<rparr>);
            if ret < 0 then Some (None, worker_release s priv k conn)
            else do {
              priv \<leftarrow> proxy_update_registration priv;
              (slot, priv, s) \<leftarrow> worker_acquire s priv k conn callsign (pearson_get (bytes_of_string callsign));
              (case (slot, pw_conn_client (worker_of priv k)) of
                 (None, Some (Held conn)) \<Rightarrow>
                   (let (priv, s) = worker_release s priv k conn
                    in do { priv \<leftarrow> proxy_update_registration priv; Some (None, priv, s) })
               | _ \<Rightarrow> Some (slot, priv, s))
            }
          }
      | _ \<Rightarrow> Some (None, priv, s))"

text \<open>The loop over the client's messages.\<close>

partial_function (option) process_loop :: "os \<Rightarrow> proxy_conn_priv \<Rightarrow> (int \<times> proxy_conn_priv \<times> os) option" where
  "process_loop s pv =
     (case proxy_conn_process s pv of (ret, pv, s) \<Rightarrow>
        if ret \<ge> 0 then process_loop s pv else Some (ret, pv, s))"

text \<open>The run after the loop.\<close>

definition worker_end :: "os \<Rightarrow> 're proxy_priv \<Rightarrow> nat \<Rightarrow> nat \<Rightarrow> ('re proxy_priv \<times> os) option" where
  "worker_end s priv k pc =
     do {
       pv \<leftarrow> pc_priv (slot_of priv pc);
       let (client, pv, s) = proxy_conn_finish s pv;
       let priv = (set_slot priv pc (with_pcpriv (slot_of priv pc) pv))\<lparr>pp_pool := pool_put (pp_pool priv) pc\<rparr>;
       conn \<leftarrow> client;
       let (priv, s) = worker_release s priv k conn;
       priv \<leftarrow> proxy_update_registration priv;
       Some (priv, s)
     }"

definition proxy_worker_func ::
    "'re pcre \<Rightarrow> md5_ctx \<Rightarrow> u32 \<Rightarrow> bytes \<Rightarrow> proxy_conf \<Rightarrow> os \<Rightarrow> 're proxy_priv \<Rightarrow> nat \<Rightarrow> ('re proxy_priv \<times> os) option" where
  "proxy_worker_func pcre ctx rnd buff conf s priv k =
     do {
       (slot, priv, s) \<leftarrow> worker_begin pcre ctx rnd buff conf s priv k;
       (case slot of
          None \<Rightarrow> Some (priv, s)
        | Some pc \<Rightarrow>
            do {
              pv \<leftarrow> pc_priv (slot_of priv pc);
              (_, pv, s) \<leftarrow> process_loop s pv;
              worker_end s (set_slot priv pc (with_pcpriv (slot_of priv pc) pv)) k pc
            })
     }"

section \<open>Accepting clients\<close>

definition proxy_process :: "os \<Rightarrow> 're proxy_priv \<Rightarrow> int \<times> 're proxy_priv \<times> os" where
  "proxy_process s priv =
     (case os_alloc s of (ok, s) \<Rightarrow>
        if \<not> ok then (- ENOMEM, priv, s)
        else
          case conn_init s new_conn of (ret, conn, s) \<Rightarrow>
            if ret < 0 then (ret, priv, os_free s)
            else
              case conn_accept s (pp_conn_listen priv) conn of (ret, conn, s) \<Rightarrow>
                if ret < 0 then (ret, priv, os_free (snd (conn_free s conn)))
                else
                  case (if pp_usable_clients priv > 0 then pp_idle_workers priv else []) of
                    [] \<Rightarrow> (0, priv, os_free (snd (conn_free s conn)))
                  | k # rest \<Rightarrow>
                      let priv = priv\<lparr>pp_idle_workers := rest\<rparr>
                      in case proxy_worker_accept (worker_of priv k) conn of (ret, pw) \<Rightarrow>
                           let priv = set_worker priv k pw
                           in if ret < 0 then (ret, priv, os_free (snd (conn_free s conn)))
                           else (0, priv, s))"

section \<open>Opening\<close>

definition free_regex :: "os \<Rightarrow> 're regex_handle option \<Rightarrow> os" where
  "free_regex s re = (case re of None \<Rightarrow> s | Some h \<Rightarrow> os_free (snd (regex_free s h)))"

text \<open>The expression for one of the two patterns: compiled when the pattern is set, released when it
  is not.\<close>

definition open_regex ::
    "'re pcre \<Rightarrow> os \<Rightarrow> 're regex_handle option \<Rightarrow> string option \<Rightarrow> (int \<times> 're regex_handle option \<times> os) option" where
  "open_regex pcre s re pattern =
     (case pattern of
        None \<Rightarrow> Some (0, None, free_regex s re)
      | Some p \<Rightarrow>
          let (ret, re, s) =
            (case re of
               Some h \<Rightarrow> (0, re, s)
             | None \<Rightarrow>
                 (case os_alloc s of (ok, s) \<Rightarrow>
                    if \<not> ok then (- ENOMEM, None, s)
                    else case regex_init s None of (ret, h, s) \<Rightarrow> (ret, Some h, s)))
          in if ret < 0 then Some (ret, re, s)
             else do {
               h \<leftarrow> re;
               rp \<leftarrow> h;
               let (ret, h, s) = regex_compile pcre s (Some rp) p;
               Some (ret, Some h, s)
             })"

fun free_slots :: "os \<Rightarrow> proxy_conn_handle list \<Rightarrow> proxy_conn_handle list \<times> os" where
  "free_slots s [] = ([], s)"
| "free_slots s (pc # pcs) =
     (case proxy_conn_free s pc of (pc, s) \<Rightarrow> case free_slots s pcs of (pcs, s) \<Rightarrow> (pc # pcs, s))"

fun free_workers :: "os \<Rightarrow> proxy_worker list \<Rightarrow> proxy_worker list \<times> os" where
  "free_workers s [] = ([], s)"
| "free_workers s (pw # pws) =
     (case proxy_worker_free s pw of (pw, s) \<Rightarrow> case free_workers s pws of (pws, s) \<Rightarrow> (pw # pws, s))"

text \<open>The two loops that set up the slots and the workers; \<open>ready\<close> are those already set up, which
  a failure gives back from the last to the first.\<close>

fun open_slots :: "os \<Rightarrow> proxy_conn_handle list \<Rightarrow> proxy_conn_handle list \<Rightarrow> int \<times> proxy_conn_handle list \<times> os" where
  "open_slots s ready [] = (0, ready, s)"
| "open_slots s ready (pc # pcs) =
     (case proxy_conn_init s (pc\<lparr>pc_control_port := Some ''5199'', pc_data_port := Some ''5198''\<rparr>) of (ret, pc, s) \<Rightarrow>
        if ret < 0 then (case free_slots s (rev ready) of (freed, s) \<Rightarrow> (ret, rev freed @ pc # pcs, s))
        else open_slots s (ready @ [pc]) pcs)"

fun open_workers ::
    "os \<Rightarrow> nat list \<Rightarrow> proxy_worker list \<Rightarrow> proxy_worker list \<Rightarrow> int \<times> nat list \<times> proxy_worker list \<times> os" where
  "open_workers s idle ready [] = (0, idle, ready, s)"
| "open_workers s idle ready (pw # pws) =
     (case proxy_worker_init s pw of (ret, pw, s) \<Rightarrow>
        if ret < 0 then (case free_workers s (rev ready) of (freed, s) \<Rightarrow> (ret, idle, rev freed @ pw # pws, s))
        else open_workers s (length ready # idle) (ready @ [pw]) pws)"

text \<open>The exits of \<open>proxy_open\<close>: \<open>proxy_open_exit\<close>, \<open>proxy_open_exit_late\<close> and
  \<open>proxy_open_exit_later\<close>, each going on with the one before.\<close>

type_synonym 're open_result = "int \<times> 're proxy_priv \<times> bool \<times> os"

definition open_exit :: "int \<Rightarrow> os \<Rightarrow> bool \<Rightarrow> 're proxy_priv \<Rightarrow> 're open_result" where
  "open_exit ret s sys priv =
     (let s = free_regex s (re_calls_allowed (pp_res priv));
          priv = priv\<lparr>pp_res := (pp_res priv)\<lparr>re_calls_allowed := None\<rparr>\<rparr>
      in case log_close s sys (pp_log priv) of (log, sys, s) \<Rightarrow>
           let s = free_opt (free_opt s (pp_client_workers priv)) (pp_clients priv)
           in (ret, priv\<lparr>pp_log := log, pp_client_workers := None, pp_clients := None, pp_num_clients := 0\<rparr>, sys, s))"

definition open_exit_late :: "int \<Rightarrow> os \<Rightarrow> bool \<Rightarrow> 're proxy_priv \<Rightarrow> 're open_result" where
  "open_exit_late ret s sys priv =
     (case free_slots s (the (pp_clients priv)) of (cs, s) \<Rightarrow>
        open_exit ret s sys
          (priv\<lparr>pp_pool := (assign (pp_pool priv) IdleHead None)\<lparr>idle_clients_tail_ptr := None\<rparr>, pp_clients := Some cs\<rparr>))"

definition open_exit_later :: "int \<Rightarrow> os \<Rightarrow> bool \<Rightarrow> 're proxy_priv \<Rightarrow> 're open_result" where
  "open_exit_later ret s sys priv =
     (case free_workers s (the (pp_client_workers priv)) of (ws, s) \<Rightarrow>
        open_exit_late ret s sys (priv\<lparr>pp_idle_workers := [], pp_client_workers := Some ws\<rparr>))"

text \<open>The slots with their addresses, the workers and the listening socket.\<close>

definition slot_source :: "proxy_conf \<Rightarrow> nat \<Rightarrow> string option" where
  "slot_source conf i = (if i = 0 then cf_bind_addr_ext conf else the (cf_bind_addr_ext_add conf) ! (i - 1))"

definition open_service :: "os \<Rightarrow> bool \<Rightarrow> proxy_conf \<Rightarrow> 're proxy_priv \<Rightarrow> 're open_result" where
  "open_service s sys conf priv =
     (let n = nat (pp_num_clients priv);
          priv = priv\<lparr>pp_pool := pool_open (pp_pool priv) n,
            pp_clients := Some (map (\<lambda>i. (slot_of priv i)\<lparr>pc_source_addr := slot_source conf i\<rparr>) [0..<n])\<rparr>
      in case open_slots s [] (the (pp_clients priv)) of (ret, cs, s) \<Rightarrow>
        let priv = priv\<lparr>pp_clients := Some cs\<rparr>
        in if ret < 0 then open_exit ret s sys priv
        else
          case open_workers s (pp_idle_workers priv) [] (the (pp_client_workers priv)) of (ret, idle, ws, s) \<Rightarrow>
            let priv = priv\<lparr>pp_idle_workers := idle, pp_client_workers := Some ws\<rparr>
            in if ret < 0 then open_exit_late ret s sys priv
            else
              case conn_listen s ((pp_conn_listen priv)\<lparr>c_source_addr := cf_bind_addr conf,
                                                        c_source_port := Some (cstr (pp_port_str priv))\<rparr>) of
                (ret, conn, s) \<Rightarrow>
                  let priv = priv\<lparr>pp_conn_listen := conn\<rparr>
                  in if ret < 0 then open_exit_later ret s sys priv else (0, priv, sys, s))"

text \<open>The two patterns, and then the rest.\<close>

definition open_patterns :: "'re pcre \<Rightarrow> os \<Rightarrow> bool \<Rightarrow> proxy_conf \<Rightarrow> 're proxy_priv \<Rightarrow> 're open_result option" where
  "open_patterns pcre s sys conf priv =
     do {
       (ret, re, s) \<leftarrow> open_regex pcre s (re_calls_allowed (pp_res priv)) (cf_calls_allowed conf);
       let priv = priv\<lparr>pp_res := (pp_res priv)\<lparr>re_calls_allowed := re\<rparr>\<rparr>;
       if ret < 0 then Some (open_exit ret s sys priv)
       else do {
         (ret, re, s) \<leftarrow> open_regex pcre s (re_calls_denied (pp_res priv)) (cf_calls_denied conf);
         let priv = priv\<lparr>pp_res := (pp_res priv)\<lparr>re_calls_denied := re\<rparr>\<rparr>;
         Some (if ret < 0 then open_exit ret s sys priv else open_service s sys conf priv)
       }
     }"

definition proxy_open :: "'re pcre \<Rightarrow> os \<Rightarrow> bool \<Rightarrow> proxy_conf \<Rightarrow> 're proxy_priv \<Rightarrow> 're open_result option" where
  "proxy_open pcre s sys conf priv =
     (let priv = priv\<lparr>pp_port_str := conn_port_to_str (cf_port conf),
                      pp_num_clients := 1 + uint (cf_bind_addr_ext_add_len conf)\<rparr>;
          n = nat (pp_num_clients priv)
      in case os_alloc s of (ok, s) \<Rightarrow>
        if \<not> ok then Some (- ENOMEM, priv\<lparr>pp_clients := None\<rparr>, sys, s)
        else
          let priv = priv\<lparr>pp_clients := Some (replicate n new_slot), pp_pool := fresh_slots (pp_pool priv)\<rparr>
          in case os_alloc s of (ok, s) \<Rightarrow>
            if \<not> ok then Some (open_exit (- ENOMEM) s sys (priv\<lparr>pp_client_workers := None\<rparr>))
            else
              let priv = priv\<lparr>pp_client_workers := Some (replicate n new_proxy_worker)\<rparr>
              in case log_open s sys (pp_log priv) of (ret, log, sys, s) \<Rightarrow>
                let priv = priv\<lparr>pp_log := log\<rparr>
                in if ret < 0 then Some (open_exit ret s sys priv)
                else open_patterns pcre s sys conf priv)"

section \<open>Starting\<close>

text \<open>The loops that start the slots and the workers give what they have started, and the rest from
  the one that failed on.\<close>

fun start_slots ::
    "os \<Rightarrow> proxy_conn_handle list \<Rightarrow> proxy_conn_handle list \<Rightarrow> (int \<times> proxy_conn_handle list \<times> proxy_conn_handle list \<times> os) option" where
  "start_slots s started [] = Some (0, started, [], s)"
| "start_slots s started (pc # pcs) =
     do {
       pv \<leftarrow> pc_priv pc;
       let (ret, pv, s) = proxy_conn_start s pv;
       let pc = with_pcpriv pc pv;
       if ret < 0 then Some (ret, started, pc # pcs, s) else start_slots s (started @ [pc]) pcs
     }"

fun start_workers ::
    "os \<Rightarrow> proxy_worker list \<Rightarrow> proxy_worker list \<Rightarrow> int \<times> proxy_worker list \<times> proxy_worker list \<times> os" where
  "start_workers s started [] = (0, started, [], s)"
| "start_workers s started (pw # pws) =
     (case worker_start s (pw_worker pw) of (ret, w, s) \<Rightarrow>
        let pw = pw\<lparr>pw_worker := w\<rparr>
        in if ret < 0 then (ret, started, pw # pws, s) else start_workers s (started @ [pw]) pws)"

fun join_workers :: "os \<Rightarrow> proxy_worker list \<Rightarrow> proxy_worker list \<times> os" where
  "join_workers s [] = ([], s)"
| "join_workers s (pw # pws) =
     (case worker_join s (pw_worker pw) of (_, w, s) \<Rightarrow>
      case join_workers s pws of (pws, s) \<Rightarrow> (pw\<lparr>pw_worker := w\<rparr> # pws, s))"

fun stop_slots :: "os \<Rightarrow> proxy_conn_handle list \<Rightarrow> proxy_conn_handle list \<times> os" where
  "stop_slots s [] = ([], s)"
| "stop_slots s (pc # pcs) =
     (case proxy_conn_stop s (pcpriv pc) of (_, _, pv, s) \<Rightarrow>
      case stop_slots s pcs of (pcs, s) \<Rightarrow> (with_pcpriv pc pv # pcs, s))"

text \<open>The exit \<open>proxy_start_exit\<close>: the first workers are joined from the last to the first, then
  all slots are stopped.\<close>

definition start_exit :: "int \<Rightarrow> os \<Rightarrow> 're proxy_priv \<Rightarrow> proxy_worker list \<Rightarrow> proxy_worker list \<Rightarrow> int \<times> 're proxy_priv \<times> os" where
  "start_exit ret s priv started rest =
     (case join_workers s (rev started) of (joined, s) \<Rightarrow>
      case stop_slots s (rev (array_of (pp_clients priv))) of (stopped, s) \<Rightarrow>
        (ret, priv\<lparr>pp_client_workers := map_option (\<lambda>_. rev joined @ rest) (pp_client_workers priv),
                    pp_clients := map_option (\<lambda>_. rev stopped) (pp_clients priv)\<rparr>, s))"

text \<open>The end of \<open>proxy_start\<close>: the registration service, and before it the workers.\<close>

definition start_registration :: "md5_ctx \<Rightarrow> os \<Rightarrow> proxy_conf \<Rightarrow> 're proxy_priv \<Rightarrow> (int \<times> 're proxy_priv \<times> os) option" where
  "start_registration ctx s conf priv =
     do {
       priv \<leftarrow> proxy_update_registration (priv\<lparr>pp_usable_clients := pp_num_clients priv\<rparr>);
       rs \<leftarrow> pp_reg_service priv;
       (ret, rs, s) \<leftarrow> registration_service_start ctx s rs conf;
       let priv = priv\<lparr>pp_reg_service := Some rs\<rparr>;
       Some (if ret < 0 then start_exit ret s priv (array_of (pp_client_workers priv)) [] else (0, priv, s))
     }"

definition start_service :: "md5_ctx \<Rightarrow> os \<Rightarrow> proxy_conf \<Rightarrow> 're proxy_priv \<Rightarrow> (int \<times> 're proxy_priv \<times> os) option" where
  "start_service ctx s conf priv =
     (case start_workers s [] (array_of (pp_client_workers priv)) of (ret, started, rest, s) \<Rightarrow>
        let priv = priv\<lparr>pp_client_workers := map_option (\<lambda>_. started @ rest) (pp_client_workers priv)\<rparr>
        in if ret < 0 then Some (start_exit ret s priv started rest) else start_registration ctx s conf priv)"

definition proxy_start :: "md5_ctx \<Rightarrow> os \<Rightarrow> proxy_conf \<Rightarrow> 're proxy_priv \<Rightarrow> (int \<times> 're proxy_priv \<times> os) option" where
  "proxy_start ctx s conf priv =
     (if pp_num_clients priv > 0 \<and> (pp_clients priv = None \<or> pp_client_workers priv = None) then None
      else do {
        (ret, started, rest, s) \<leftarrow> start_slots s [] (array_of (pp_clients priv));
        let priv = priv\<lparr>pp_clients := map_option (\<lambda>_. started @ rest) (pp_clients priv)\<rparr>;
        if ret < 0
        then (case stop_slots s (rev started) of (stopped, s) \<Rightarrow>
                Some (ret, priv\<lparr>pp_clients := map_option (\<lambda>_. rev stopped @ rest) (pp_clients priv)\<rparr>, s))
        else start_service ctx s conf priv
      })"

section \<open>Closing\<close>

definition proxy_drop :: "os \<Rightarrow> 're proxy_priv \<Rightarrow> ('re proxy_priv \<times> os) option" where
  "proxy_drop s priv =
     (if pp_num_clients priv > 0 \<and> pp_client_workers priv = None then None
      else Some (fold (\<lambda>k (priv, s). proxy_worker_drop s priv k) [0..<nat (pp_num_clients priv)] (priv, s)))"

definition proxy_shutdown :: "os \<Rightarrow> 're proxy_priv \<Rightarrow> ('re proxy_priv \<times> os) option" where
  "proxy_shutdown s priv =
     (if pp_usable_clients_mutex priv = None then None
      else do {
        priv \<leftarrow> proxy_update_registration (priv\<lparr>pp_usable_clients := 0\<rparr>);
        if c_priv (pp_conn_listen priv) = None then None else Some (priv, conn_shutdown s (pp_conn_listen priv))
      })"

definition proxy_close :: "os \<Rightarrow> bool \<Rightarrow> 're proxy_priv \<Rightarrow> ('re proxy_priv \<times> bool \<times> os) option" where
  "proxy_close s sys priv =
     do {
       rs \<leftarrow> pp_reg_service priv;
       let (_, rs, s) = registration_service_stop s rs;
       (priv, s) \<leftarrow> proxy_shutdown s (priv\<lparr>pp_reg_service := Some rs\<rparr>);
       (priv, s) \<leftarrow> proxy_drop s priv;
       let n = nat (pp_num_clients priv);
       let (_, s) = free_workers s (take n (array_of (pp_client_workers priv)));
       let (_, s) = free_slots s (take n (array_of (pp_clients priv)));
       let s = free_opt (free_opt s (pp_client_workers priv)) (pp_clients priv);
       let (conn, s) = conn_close s (pp_conn_listen priv);
       let (log, sys, s) = log_close s sys (pp_log priv);
       Some (priv\<lparr>pp_idle_workers := [], pp_pool := pool_close (pp_pool priv), pp_client_workers := None,
                  pp_clients := None, pp_num_clients := 0, pp_conn_listen := conn, pp_log := log\<rparr>, sys, s)
     }"

section \<open>Life cycle\<close>

definition proxy_free :: "os \<Rightarrow> 're proxy_handle \<Rightarrow> ('re proxy_handle \<times> os) option" where
  "proxy_free s ph =
     (case ph_priv ph of
        None \<Rightarrow> Some (ph, s)
      | Some priv \<Rightarrow>
          do {
            (priv, sys, s) \<leftarrow> proxy_close s (ph_syslog ph) priv;
            let (_, s) = mutex_free s (pp_idle_workers_mutex priv);
            let (_, s) = mutex_free s (pp_idle_clients_mutex priv);
            let (_, s) = mutex_free s (pp_usable_clients_mutex priv);
            let (_, s) = registration_service_free s (pp_reg_service priv);
            let (_, s) = conn_free s (pp_conn_listen priv);
            let (conf, s) = conf_free s (ph_conf ph);
            let (_, sys, s) = log_free s sys (pp_log priv);
            let s = free_regex s (re_calls_allowed (pp_res priv));
            let s = free_regex s (re_calls_denied (pp_res priv));
            Some (\<lparr>ph_priv = None, ph_conf = conf, ph_syslog = sys\<rparr>, os_free s)
          })"

text \<open>\<open>rand_init\<close> seeds the generator and succeeds.\<close>

definition init_parts :: "os \<Rightarrow> proxy_conf \<Rightarrow> 're proxy_priv \<Rightarrow> int \<times> proxy_conf \<times> 're proxy_priv \<times> os" where
  "init_parts s conf priv =
     (case log_init s (pp_log priv) of (ret, log, s) \<Rightarrow>
      let priv = priv\<lparr>pp_log := log\<rparr> in
      if ret < 0 then (ret, conf, priv, s) else
      case conf_init conf of (ret, conf) \<Rightarrow>
      if ret < 0 then (ret, conf, priv, s) else
      case conn_init s ((pp_conn_listen priv)\<lparr>c_type := CONN_TYPE_TCP\<rparr>) of (ret, conn, s) \<Rightarrow>
      let priv = priv\<lparr>pp_conn_listen := conn\<rparr> in
      if ret < 0 then (ret, conf, priv, s) else
      case registration_service_init s (pp_reg_service priv) of (ret, rs, s) \<Rightarrow>
      let priv = priv\<lparr>pp_reg_service := rs\<rparr> in
      if ret < 0 then (ret, conf, priv, s) else
      case mutex_init s (pp_usable_clients_mutex priv) of (ret, m, s) \<Rightarrow>
      let priv = priv\<lparr>pp_usable_clients_mutex := m\<rparr> in
      if ret < 0 then (ret, conf, priv, s) else
      case mutex_init s (pp_idle_clients_mutex priv) of (ret, m, s) \<Rightarrow>
      let priv = priv\<lparr>pp_idle_clients_mutex := m\<rparr> in
      if ret < 0 then (ret, conf, priv, s) else
      case mutex_init s (pp_idle_workers_mutex priv) of (ret, m, s) \<Rightarrow>
        (ret, conf, priv\<lparr>pp_idle_workers_mutex := m\<rparr>, s))"

definition proxy_init :: "os \<Rightarrow> 're proxy_handle \<Rightarrow> (int \<times> 're proxy_handle \<times> os) option" where
  "proxy_init s ph =
     (let (ok, priv, s) =
            (case ph_priv ph of
               None \<Rightarrow> (case os_alloc s of (ok, s) \<Rightarrow> (ok, new_proxy_priv, s))
             | Some priv \<Rightarrow> (True, priv, s))
      in if \<not> ok then Some (- ENOMEM, ph, s)
         else
           case init_parts s (ph_conf ph) priv of (ret, conf, priv, s) \<Rightarrow>
             let ph = ph\<lparr>ph_conf := conf, ph_priv := Some priv\<rparr>
             in if ret < 0 then do { (ph, s) \<leftarrow> proxy_free s ph; Some (ret, ph, s) }
             else Some (0, ph, s))"

section \<open>Configuration and logging\<close>

definition proxy_load_conf :: "(string \<Rightarrow> string) \<Rightarrow> os \<Rightarrow> proxy_conf \<Rightarrow> string \<Rightarrow> int \<times> proxy_conf \<times> os" where
  "proxy_load_conf content s conf path =
     (case conf_parse_file content s path conf of (ret, conf, s) \<Rightarrow>
        if ret < 0 then (ret, conf, s)
        else if cf_bind_addr_ext_add conf \<noteq> None \<and>
          (cf_bind_addr_ext conf = None \<or> cf_bind_addr_ext conf = Some ''0.0.0.0'')
        then (- EINVAL, conf, s) else (0, conf, s))"

definition proxy_ident :: "string \<Rightarrow> string \<Rightarrow> 're proxy_priv \<Rightarrow> log_output list" where
  "proxy_ident version tstamp priv = log_ident version tstamp (pp_log priv)"

definition proxy_log :: "string \<Rightarrow> 're proxy_handle \<Rightarrow> LOG_LEVEL \<Rightarrow> string \<Rightarrow> log_output list" where
  "proxy_log tstamp ph lvl text =
     (case ph_priv ph of
        None \<Rightarrow> []
      | Some priv \<Rightarrow> if level_num lvl > lh_level (pp_log priv) then [] else log_vprintf tstamp (pp_log priv) lvl text)"

definition proxy_log_level :: "'re proxy_priv \<Rightarrow> LOG_LEVEL \<Rightarrow> 're proxy_priv" where
  "proxy_log_level priv lvl = priv\<lparr>pp_log := (pp_log priv)\<lparr>lh_level := level_num lvl\<rparr>\<rparr>"

definition proxy_log_select_medium ::
    "string \<Rightarrow> string \<Rightarrow> os \<Rightarrow> bool \<Rightarrow> 're proxy_priv \<Rightarrow> LOG_MEDIUM \<Rightarrow> string \<Rightarrow>
     int \<times> log_output list \<times> 're proxy_priv \<times> bool \<times> os" where
  "proxy_log_select_medium version tstamp s sys priv medium target =
     (case log_select_medium s sys (pp_log priv) medium target of (ret, log, sys, s) \<Rightarrow>
        let out = (if medium \<noteq> LOG_MEDIUM_NONE \<and> ret = 0 then log_ident version tstamp log else [])
        in (ret, out, priv\<lparr>pp_log := log\<rparr>, sys, s))"

section \<open>Specification\<close>

text \<open>The blocks that belong to the parts.  The connection to a client is a block beside its own.\<close>

definition client_blocks :: "conn_handle option \<Rightarrow> int" where
  "client_blocks client = (case client of None \<Rightarrow> 0 | Some conn \<Rightarrow> 1 + conn_blocks conn)"

definition slot_blocks :: "proxy_conn_handle \<Rightarrow> int" where
  "slot_blocks pc = pc_blocks pc + (case pc_priv pc of None \<Rightarrow> 0 | Some pv \<Rightarrow> client_blocks (pv_conn_client pv))"

definition held_conn :: "proxy_worker \<Rightarrow> conn_handle option" where
  "held_conn pw = (case pw_conn_client pw of Some (Held conn) \<Rightarrow> Some conn | _ \<Rightarrow> None)"

definition pw_blocks :: "proxy_worker \<Rightarrow> int" where
  "pw_blocks pw = worker_blocks (pw_worker pw) + handle_blocks (pw_mutex pw)"

definition regex_blocks :: "'re regex_handle option \<Rightarrow> int" where
  "regex_blocks re =
     (case re of None \<Rightarrow> 0 | Some h \<Rightarrow> 1 + (case h of None \<Rightarrow> 0 | Some rp \<Rightarrow> 1 + opt_block (rx_re rp)))"

definition proxy_blocks :: "'re proxy_priv \<Rightarrow> int" where
  "proxy_blocks priv =
     1 + opt_block (pp_clients priv) + (\<Sum>pc\<leftarrow>array_of (pp_clients priv). slot_blocks pc) +
     opt_block (pp_client_workers priv) +
     (\<Sum>pw\<leftarrow>array_of (pp_client_workers priv). pw_blocks pw + client_blocks (held_conn pw)) +
     regex_blocks (re_calls_allowed (pp_res priv)) + regex_blocks (re_calls_denied (pp_res priv)) +
     conn_blocks (pp_conn_listen priv) + log_blocks (pp_log priv) +
     handle_blocks (pp_usable_clients_mutex priv) + handle_blocks (pp_idle_clients_mutex priv) +
     handle_blocks (pp_idle_workers_mutex priv) + reg_blocks (pp_reg_service priv)"

text \<open>A slot whose parts are set up, or none of them.\<close>

definition slot_fit :: "proxy_conn_handle \<Rightarrow> bool" where
  "slot_fit pc \<longleftrightarrow> (\<forall>pv. pc_priv pc = Some pv \<longrightarrow> slot_ready pv)"

text \<open>What \<open>proxy_init\<close> sets up once and for all; the logger does not write to a file.\<close>

definition base_ok :: "'re proxy_priv \<Rightarrow> bool" where
  "base_ok priv \<longleftrightarrow>
     pp_reg_service priv \<noteq> None \<and> reg_ready (pp_reg_service priv) \<and> pp_usable_clients_mutex priv \<noteq> None \<and>
     pp_idle_clients_mutex priv \<noteq> None \<and> pp_idle_workers_mutex priv \<noteq> None \<and> c_priv (pp_conn_listen priv) \<noteq> None \<and>
     (\<exists>lp. lh_priv (pp_log priv) = Some lp \<and> lp_fp lp = None)"

section \<open>Lemmas on the parts\<close>

lemma conn_setsockopts_live: "conn_setsockopts s fd n = (r, s') \<Longrightarrow> live s' = live s"
  by (induction n arbitrary: s) (auto simp: os_fdcall_def dest!: os_try_frame split: prod.splits if_splits)

lemma opener_keeps_live:
  "conn_accept s conn c = (r, c', s') \<Longrightarrow> live s' = live s"
  "conn_listen s c = (r, c', s') \<Longrightarrow> live s' = live s"
  "conn_connect s c addr port = (r, c', s') \<Longrightarrow> live s' = live s"
  by (auto simp: conn_accept_def conn_listen_def conn_connect_def os_accept_def os_socket_def os_fdcall_def Let_def
      dest!: os_try_frame conn_setsockopts_live split: prod.splits sum.splits if_splits list.splits)

lemma regex_free_live: "regex_free s h = (h', s') \<Longrightarrow> live s' = live s + 1 - regex_blocks (Some h)"
  by (auto simp: regex_free_def regex_blocks_def opt_block_def os_free_def split: option.splits)

lemma free_regex_live [simp]: "live (free_regex s re) = live s - regex_blocks re"
  by (auto simp: free_regex_def regex_free_def regex_blocks_def opt_block_def os_free_def split: option.splits)

lemma open_regex_live:
  assumes "open_regex pcre s re pattern = Some (r, re', s')"
  shows "live s' - regex_blocks re' = live s - regex_blocks re"
  using assms
  by (auto simp: open_regex_def regex_init_def regex_compile_def regex_blocks_def opt_block_def os_free_def Let_def
      dest!: os_alloc_live split: option.splits prod.splits if_splits bind_splits)

lemma proxy_worker_init_managed:
  assumes "w_priv (pw_worker pw) = None" and "pw_mutex pw = None" and "proxy_worker_init s pw = (r, pw', s')"
  shows "live s' - pw_blocks pw' = live s - pw_blocks pw \<and> (r \<noteq> 0 \<longrightarrow> pw_blocks pw' = 0) \<and>
    worker_usable (pw_worker pw') \<and> r \<le> 0 \<and> (r = 0 \<longrightarrow> worker_ready (pw_worker pw')) \<and> pw_conn_client pw' = pw_conn_client pw"
proof -
  obtain r1 m s1 where 1: "mutex_init s None = (r1, m, s1)" by (metis prod_cases3)
  obtain r2 w s2 where 2: "worker_init s1 ((pw_worker pw)\<lparr>w_stack_size := 1048576\<rparr>) = (r2, w, s2)" by (metis prod_cases3)
  obtain m' s3 where 3: "mutex_free s2 m = (m', s3)" by (metis surj_pair)
  note f = mutex.init_blocks [OF 1] mutex.init_result [OF 1] mutex.init_failed [OF 1]
    worker_init_managed [OF _ 2] mutex.free_blocks [OF 3] mutex.free_owns [OF 3]
  have "r2 = 0 \<Longrightarrow> worker_ready w"
    using worker_init_ready [of s1 _ w s2] 2 assms(1) by auto
  moreover have "worker_usable (pw_worker pw)" "worker_blocks (pw_worker pw) = 0"
    using assms(1) by (simp_all add: worker_usable_def worker_blocks_def)
  ultimately show ?thesis
    using assms 1 2 3 f
    by (auto simp: proxy_worker_init_def pw_blocks_def Let_def worker_blocks_def handle_blocks_def split: if_splits)
qed

lemma proxy_worker_free_managed:
  assumes "worker_usable (pw_worker pw)" and "proxy_worker_free s pw = (pw', s')"
  shows "live s' = live s - pw_blocks pw \<and> pw_blocks pw' = 0 \<and> pw_conn_client pw' = pw_conn_client pw"
proof -
  obtain w s1 where 1: "worker_free s (pw_worker pw) = (w, s1)" by (metis surj_pair)
  obtain m s2 where 2: "mutex_free s1 (pw_mutex pw) = (m, s2)" by (metis surj_pair)
  show ?thesis
    using assms(2) 1 2 worker_free_managed [OF assms(1) 1] mutex.free_blocks [OF 2] mutex.free_owns [OF 2]
    by (auto simp: proxy_worker_free_def pw_blocks_def)
qed

interpretation proxy_worker: managed_fresh proxy_worker_init proxy_worker_free pw_blocks
  "\<lambda>pw. w_priv (pw_worker pw) = None \<and> pw_mutex pw = None" "\<lambda>pw. worker_usable (pw_worker pw)"
  by unfold_locales (use proxy_worker_init_managed proxy_worker_free_managed in blast)+

section \<open>Lemmas on the arrays\<close>

lemma slot_blocks_idle: "(\<And>pv. pc_priv pc = Some pv \<Longrightarrow> pv_conn_client pv = None) \<Longrightarrow> slot_blocks pc = pc_blocks pc"
  by (auto simp: slot_blocks_def client_blocks_def split: option.splits)

text \<open>A slot that is complete and serves nobody, or holds nothing at all.\<close>

definition slot_rests :: "proxy_conn_handle \<Rightarrow> bool" where
  "slot_rests pc \<longleftrightarrow> (\<forall>pv. pc_priv pc = Some pv \<longrightarrow> slot_ready pv \<and> slot_idle pv)"

lemma slot_rests_blocks: "slot_rests pc \<Longrightarrow> slot_blocks pc = pc_blocks pc"
  by (auto simp: slot_rests_def slot_idle_def intro: slot_blocks_idle)

lemma free_slots_live:
  "free_slots s pcs = (pcs', s') \<Longrightarrow> \<forall>pc \<in> set pcs. slot_rests pc \<Longrightarrow>
   live s' = live s - (\<Sum>pc\<leftarrow>pcs. slot_blocks pc) \<and> length pcs' = length pcs \<and> (\<forall>pc \<in> set pcs'. pc_priv pc = None)"
proof (induction pcs arbitrary: s pcs' s')
  case (Cons pc pcs)
  obtain pc1 s1 where 1: "proxy_conn_free s pc = (pc1, s1)" by (metis surj_pair)
  obtain pcs2 s2 where 2: "free_slots s1 pcs = (pcs2, s2)" by (metis surj_pair)
  have "pc_priv pc1 = None"
    using 1 by (auto simp: proxy_conn_free_def split: if_splits prod.splits)
  moreover have "live s1 = live s - slot_blocks pc"
    using proxy_conn_free_managed [OF _ 1] Cons.prems(2) slot_rests_blocks by (auto simp: slot_rests_def)
  ultimately show ?case
    using Cons.IH [OF 2] Cons.prems 1 2 by auto
qed simp

lemma free_workers_live:
  "free_workers s pws = (pws', s') \<Longrightarrow> \<forall>pw \<in> set pws. worker_usable (pw_worker pw) \<and> pw_conn_client pw = None \<Longrightarrow>
   live s' = live s - (\<Sum>pw\<leftarrow>pws. pw_blocks pw) \<and> length pws' = length pws \<and>
   (\<forall>pw \<in> set pws'. pw_blocks pw = 0 \<and> pw_conn_client pw = None)"
proof (induction pws arbitrary: s pws' s')
  case (Cons pw pws)
  obtain pw1 s1 where 1: "proxy_worker_free s pw = (pw1, s1)" by (metis surj_pair)
  obtain pws2 s2 where 2: "free_workers s1 pws = (pws2, s2)" by (metis surj_pair)
  show ?case
    using Cons.IH [OF 2] Cons.prems 1 2 proxy_worker_free_managed [OF _ 1] by auto
qed simp

lemma sum_list_all_0: "\<forall>x \<in> set xs. f x = (0 :: int) \<Longrightarrow> (\<Sum>x\<leftarrow>xs. f x) = 0"
  by (induction xs) simp_all

lemma no_slots_blocks: "\<forall>pc \<in> set pcs. pc_priv pc = None \<Longrightarrow> (\<Sum>pc\<leftarrow>pcs. slot_blocks pc) = 0"
  by (rule sum_list_all_0) (simp add: slot_blocks_def pc_blocks_def)

lemma open_slots_live:
  assumes "open_slots s ready pcs = (r, pcs', s')" and "\<forall>pc \<in> set ready. slot_rests pc" and "\<forall>pc \<in> set pcs. pc_priv pc = None"
  shows "live s' - (\<Sum>pc\<leftarrow>pcs'. slot_blocks pc) = live s - (\<Sum>pc\<leftarrow>ready. slot_blocks pc) \<and>
    length pcs' = length ready + length pcs \<and> (\<forall>pc \<in> set pcs'. slot_rests pc) \<and> (r < 0 \<longrightarrow> (\<forall>pc \<in> set pcs'. pc_priv pc = None))"
  using assms
proof (induction pcs arbitrary: s ready)
  case (Cons pc pcs)
  let ?pc = "pc\<lparr>pc_control_port := Some ''5199'', pc_data_port := Some ''5198''\<rparr>"
  obtain r1 pc1 s1 where 1: "proxy_conn_init s ?pc = (r1, pc1, s1)" by (metis prod_cases3)
  obtain freed s2 where 2: "free_slots s1 (rev ready) = (freed, s2)" by (metis surj_pair)
  have n: "pc_priv ?pc = None" "pc_blocks ?pc = 0"
    using Cons.prems(3) by (simp_all add: pc_blocks_def)
  have i: "live s1 - pc_blocks pc1 = live s" "slot_rests pc1" "r1 \<noteq> 0 \<Longrightarrow> pc_priv pc1 = None"
    using proxy_conn_init_managed [OF n(1) 1] n(2) by (simp_all add: slot_rests_def)
  show ?case
  proof (cases "r1 < 0")
    case True
    then have pc1: "pc_priv pc1 = None"
      using i(3) by simp
    have f: "live s2 = live s1 - (\<Sum>pc\<leftarrow>ready. slot_blocks pc)" "length freed = length ready"
      "\<forall>pc \<in> set freed. pc_priv pc = None"
      using free_slots_live [OF 2] Cons.prems(2) by (auto simp: rev_map [symmetric] sum_list_rev)
    have run: "pcs' = rev freed @ pc1 # pcs" "s' = s2"
      using Cons.prems(1) 1 2 True by auto
    have none: "\<forall>pc \<in> set pcs'. pc_priv pc = None"
      using f(3) pc1 Cons.prems(3) run by auto
    then show ?thesis
      using f i(1) pc1 run no_slots_blocks [OF none] by (auto simp: pc_blocks_def slot_rests_def)
  next
    case False
    then have "open_slots s1 (ready @ [pc1]) pcs = (r, pcs', s')"
      using Cons.prems(1) 1 by simp
    from Cons.IH [OF this] show ?thesis
      using i(1,2) Cons.prems(2,3) slot_rests_blocks [OF i(2)] by auto
  qed
qed auto

lemma open_workers_live:
  assumes "open_workers s idle ready pws = (r, idle', pws', s')"
    and "\<forall>pw \<in> set ready. worker_ready (pw_worker pw) \<and> pw_conn_client pw = None"
    and "\<forall>pw \<in> set pws. pw = new_proxy_worker"
  shows "live s' - (\<Sum>pw\<leftarrow>pws'. pw_blocks pw) = live s - (\<Sum>pw\<leftarrow>ready. pw_blocks pw) \<and>
    length pws' = length ready + length pws \<and> (\<forall>pw \<in> set pws'. pw_conn_client pw = None) \<and>
    (r < 0 \<longrightarrow> (\<Sum>pw\<leftarrow>pws'. pw_blocks pw) = 0) \<and>
    (\<not> r < 0 \<longrightarrow> r = 0 \<and> (\<forall>pw \<in> set pws'. worker_ready (pw_worker pw)) \<and>
      idle' = rev [length ready..<length ready + length pws] @ idle)"
  using assms
proof (induction pws arbitrary: s ready idle)
  case (Cons pw pws)
  obtain r1 pw1 s1 where 1: "proxy_worker_init s pw = (r1, pw1, s1)" by (metis prod_cases3)
  obtain freed s2 where 2: "free_workers s1 (rev ready) = (freed, s2)" by (metis surj_pair)
  have pw: "w_priv (pw_worker pw) = None" "pw_mutex pw = None" "pw_conn_client pw = None" "pw_blocks pw = 0"
    using Cons.prems(3) by (simp_all add: new_proxy_worker_def new_worker_def pw_blocks_def worker_blocks_def handle_blocks_def)
  note i = proxy_worker_init_managed [OF pw(1,2) 1]
  show ?case
  proof (cases "r1 < 0")
    case True
    have f: "live s2 = live s1 - (\<Sum>pw\<leftarrow>ready. pw_blocks pw)" "length freed = length ready"
      "\<forall>pw \<in> set freed. pw_blocks pw = 0 \<and> pw_conn_client pw = None"
      using free_workers_live [OF 2] Cons.prems(2) worker_ready_usable by (auto simp: rev_map [symmetric] sum_list_rev)
    have run: "pws' = rev freed @ pw1 # pws" "s' = s2" "r = r1"
      using Cons.prems(1) 1 2 True by auto
    have z: "\<forall>x \<in> set pws'. pw_blocks x = 0"
      using f(3) i True Cons.prems(3) pw run
      by (auto simp: new_proxy_worker_def new_worker_def pw_blocks_def worker_blocks_def handle_blocks_def)
    then have "(\<Sum>pw\<leftarrow>pws'. pw_blocks pw) = 0"
      by (rule sum_list_all_0)
    then show ?thesis
      using f i pw run True Cons.prems(3) by (auto simp: new_proxy_worker_def)
  next
    case False
    then have "open_workers s1 (length ready # idle) (ready @ [pw1]) pws = (r, idle', pws', s')"
      using Cons.prems(1) 1 by simp
    note IH = Cons.IH [OF this]
    have u: "rev [length ready..<length ready + length (pw # pws)] =
        rev [length (ready @ [pw1])..<length (ready @ [pw1]) + length pws] @ [length ready]"
      by (simp add: upt_conv_Cons del: upt_Suc)
    have a: "\<forall>x \<in> set (ready @ [pw1]). worker_ready (pw_worker x) \<and> pw_conn_client x = None"
      using i pw(3) Cons.prems(2) False by auto
    have b: "\<forall>x \<in> set pws. x = new_proxy_worker"
      using Cons.prems(3) by simp
    have "live s1 = live s + pw_blocks pw1"
      using i pw(4) by simp
    with IH [OF a b] show ?thesis
      unfolding u by (simp del: upt_Suc)
  qed
qed auto

section \<open>Lemmas on opening\<close>

text \<open>A proxy that is closed, and one that has been opened with \<open>n\<close> slots.\<close>

definition closed_service :: "'re proxy_priv \<Rightarrow> bool" where
  "closed_service priv \<longleftrightarrow> pp_clients priv = None \<and> pp_client_workers priv = None \<and> pp_num_clients priv = 0"

definition rests :: "proxy_worker \<Rightarrow> bool" where
  "rests pw \<longleftrightarrow> worker_ready (pw_worker pw) \<and> pw_conn_client pw = None"

definition stopped :: "proxy_worker \<Rightarrow> bool" where
  "stopped pw \<longleftrightarrow> wk_state (the (w_priv (pw_worker pw))) = WORKER_STOPPED"

definition fresh_service :: "nat \<Rightarrow> 're proxy_priv \<Rightarrow> bool" where
  "fresh_service n priv \<longleftrightarrow>
     (\<exists>cs ws. pp_clients priv = Some cs \<and> pp_client_workers priv = Some ws \<and> length cs = n \<and> length ws = n \<and>
        (\<forall>pc \<in> set cs. slot_rests pc) \<and> (\<forall>pw \<in> set ws. rests pw \<and> stopped pw)) \<and>
     pp_num_clients priv = int n \<and> pp_idle_workers priv = rev [0..<n]"

lemma worker_init_stopped:
  "worker_init s wh = (r, wh', s') \<Longrightarrow> w_priv wh = None \<Longrightarrow> \<not> r < 0 \<Longrightarrow> wk_state (the (w_priv wh')) = WORKER_STOPPED"
  by (auto simp: worker_init_def worker_init_exit_def new_worker_priv_def Let_def split: prod.splits if_splits)

lemma open_workers_stopped:
  "open_workers s idle ready pws = (r, idle', pws', s') \<Longrightarrow> \<forall>pw \<in> set ready. stopped pw \<Longrightarrow>
   \<forall>pw \<in> set pws. pw = new_proxy_worker \<Longrightarrow> \<not> r < 0 \<Longrightarrow> \<forall>pw \<in> set pws'. stopped pw"
proof (induction pws arbitrary: s ready idle)
  case (Cons pw pws)
  obtain r1 pw1 s1 where 1: "proxy_worker_init s pw = (r1, pw1, s1)" by (metis prod_cases3)
  then have r1: "\<not> r1 < 0" "open_workers s1 (length ready # idle) (ready @ [pw1]) pws = (r, idle', pws', s')"
    using Cons.prems(1,4) by (auto split: if_splits prod.splits)
  have pws: "pw = new_proxy_worker" "\<forall>pw \<in> set pws. pw = new_proxy_worker"
    using Cons.prems(3) by (meson list.set_intros)+
  have "stopped pw1"
    using 1 r1(1) pws(1) worker_init_stopped
    by (fastforce simp: proxy_worker_init_def stopped_def new_proxy_worker_def new_worker_def Let_def split: prod.splits if_splits)
  then have "\<forall>pw \<in> set (ready @ [pw1]). stopped pw"
    using Cons.prems(2) by simp
  from Cons.IH [OF r1(2) this pws(2) Cons.prems(4)] show ?case .
qed simp

lemma log_close_simp [simp]: "log_close s sys log = (log\<lparr>lh_medium := LOG_MEDIUM_NONE\<rparr>, sys, s)"
  by (simp add: log_close_def log_select_none)

lemma log_open_frame:
  "log_open s sys log = (r, log', sys', s') \<Longrightarrow> r = 0 \<and> s' = s \<and> sys' = sys \<and> lh_priv log' = lh_priv log"
  by (auto simp: log_open_def log_select_none split: if_splits)

lemma log_blocks_priv: "lh_priv log' = lh_priv log \<Longrightarrow> log_blocks log' = log_blocks log"
  by (simp add: log_blocks_def)

lemma worker_sum:
  "\<forall>pw \<in> set ws. pw_conn_client pw = None \<Longrightarrow> (\<Sum>pw\<leftarrow>ws. pw_blocks pw + client_blocks (held_conn pw)) = (\<Sum>pw\<leftarrow>ws. pw_blocks pw)"
  by (induction ws) (auto simp: held_conn_def client_blocks_def)

lemma open_exit_live:
  assumes "open_exit ret s sys priv = (r, priv', sys', s')" and "(\<Sum>pc\<leftarrow>array_of (pp_clients priv). slot_blocks pc) = 0"
    and "(\<Sum>pw\<leftarrow>array_of (pp_client_workers priv). pw_blocks pw + client_blocks (held_conn pw)) = 0"
  shows "live s' - proxy_blocks priv' = live s - proxy_blocks priv \<and> r = ret \<and> closed_service priv' \<and>
    base_ok priv' = base_ok priv"
proof -
  let ?log = "(pp_log priv)\<lparr>lh_medium := LOG_MEDIUM_NONE\<rparr>"
  have run: "r = ret" "s' = free_opt (free_opt (free_regex s (re_calls_allowed (pp_res priv))) (pp_client_workers priv)) (pp_clients priv)"
    "priv' = priv\<lparr>pp_res := (pp_res priv)\<lparr>re_calls_allowed := None\<rparr>, pp_log := ?log, pp_client_workers := None,
      pp_clients := None, pp_num_clients := 0\<rparr>"
    using assms(1) by (simp_all add: open_exit_def)
  have "log_blocks ?log = log_blocks (pp_log priv)" "regex_blocks None = 0" "opt_block None = 0"
    by (simp_all add: log_blocks_def regex_blocks_def opt_block_def)
  then have "live s' - proxy_blocks priv' = live s - proxy_blocks priv"
    using assms(2,3) by (simp add: run(2,3) proxy_blocks_def)
  then show ?thesis
    by (simp add: run(1) closed_service_def base_ok_def) (simp add: run(3))
qed

lemma open_exit_late_live:
  assumes "open_exit_late ret s sys priv = (r, priv', sys', s')" and "pp_clients priv = Some cs"
    and "\<forall>pc \<in> set cs. slot_rests pc"
    and "(\<Sum>pw\<leftarrow>array_of (pp_client_workers priv). pw_blocks pw + client_blocks (held_conn pw)) = 0"
  shows "live s' - proxy_blocks priv' = live s - proxy_blocks priv \<and> r = ret \<and> closed_service priv' \<and>
    base_ok priv' = base_ok priv"
proof -
  obtain cs' s1 where 1: "free_slots s cs = (cs', s1)" by (metis surj_pair)
  note f = free_slots_live [OF 1 assms(3)]
  let ?p = "priv\<lparr>pp_pool := (assign (pp_pool priv) IdleHead None)\<lparr>idle_clients_tail_ptr := None\<rparr>, pp_clients := Some cs'\<rparr>"
  have run: "open_exit ret s1 sys ?p = (r, priv', sys', s')"
    using assms(1,2) 1 by (simp add: open_exit_late_def)
  have "(\<Sum>pc\<leftarrow>array_of (pp_clients ?p). slot_blocks pc) = 0"
    using f no_slots_blocks [of cs'] by simp
  moreover have "live s1 - proxy_blocks ?p = live s - proxy_blocks priv"
    using f no_slots_blocks [of cs'] assms(2) by (simp add: proxy_blocks_def opt_block_def)
  moreover have "base_ok ?p = base_ok priv"
    by (simp add: base_ok_def)
  ultimately show ?thesis
    using open_exit_live [OF run] assms(4) by simp
qed

lemma open_exit_later_live:
  assumes "open_exit_later ret s sys priv = (r, priv', sys', s')" and "pp_clients priv = Some cs"
    and "\<forall>pc \<in> set cs. slot_rests pc" and "pp_client_workers priv = Some ws" and "\<forall>pw \<in> set ws. rests pw"
  shows "live s' - proxy_blocks priv' = live s - proxy_blocks priv \<and> r = ret \<and> closed_service priv' \<and>
    base_ok priv' = base_ok priv"
proof -
  obtain ws' s1 where 1: "free_workers s ws = (ws', s1)" by (metis surj_pair)
  have "\<forall>pw \<in> set ws. worker_usable (pw_worker pw) \<and> pw_conn_client pw = None"
    using assms(5) worker_ready_usable by (auto simp: rests_def)
  note f = free_workers_live [OF 1 this] and ws = worker_sum [of ws] worker_sum [of ws']
  let ?p = "priv\<lparr>pp_idle_workers := [], pp_client_workers := Some ws'\<rparr>"
  have run: "open_exit_late ret s1 sys ?p = (r, priv', sys', s')"
    using assms(1,4) 1 by (simp add: open_exit_later_def)
  have z: "(\<Sum>pw\<leftarrow>ws'. pw_blocks pw) = 0"
    by (rule sum_list_all_0) (use f in blast)
  then have "(\<Sum>pw\<leftarrow>array_of (pp_client_workers ?p). pw_blocks pw + client_blocks (held_conn pw)) = 0"
    using f ws(2) by simp
  moreover have "live s1 - proxy_blocks ?p = live s - proxy_blocks priv"
    using f ws z assms(4,5) by (simp add: proxy_blocks_def opt_block_def rests_def)
  moreover have "base_ok ?p = base_ok priv"
    by (simp add: base_ok_def)
  ultimately show ?thesis
    using open_exit_late_live [OF run _ assms(3)] assms(2) by simp
qed

text \<open>The state after the arrays have been allocated.\<close>

definition arrays_new :: "nat \<Rightarrow> 're proxy_priv \<Rightarrow> bool" where
  "arrays_new n priv \<longleftrightarrow> pp_clients priv = Some (replicate n new_slot) \<and>
     pp_client_workers priv = Some (replicate n new_proxy_worker) \<and> pp_num_clients priv = int n \<and>
     base_ok priv \<and> pp_idle_workers priv = []"

text \<open>What the functions called by \<open>proxy_open\<close> promise when the state was \<open>s\<close> and \<open>priv\<close>.\<close>

definition opened_or_closed :: "nat \<Rightarrow> os \<Rightarrow> 're proxy_priv \<Rightarrow> int \<Rightarrow> 're proxy_priv \<Rightarrow> os \<Rightarrow> bool" where
  "opened_or_closed n s priv r priv' s' \<longleftrightarrow>
     live s' - proxy_blocks priv' = live s - proxy_blocks priv \<and> base_ok priv' \<and>
     (if r < 0 then closed_service priv' else r = 0 \<and> fresh_service n priv' \<and> pp_pool priv' = pool_open (pp_pool priv) n)"

lemma new_arrays_blocks:
  "(\<Sum>pc\<leftarrow>replicate n new_slot. slot_blocks pc) = 0" "(\<Sum>pw\<leftarrow>replicate n new_proxy_worker. pw_blocks pw) = 0"
  "(\<Sum>pw\<leftarrow>replicate n new_proxy_worker. pw_blocks pw + client_blocks (held_conn pw)) = 0"
  by (rule sum_list_all_0, simp add: new_slot_def slot_blocks_def pc_blocks_def new_proxy_worker_def new_worker_def
      pw_blocks_def worker_blocks_def handle_blocks_def held_conn_def client_blocks_def)+

lemma open_exit_new:
  assumes "open_exit ret s sys priv = (r, priv', sys', s')" and "arrays_new n priv" and "ret < 0"
  shows "opened_or_closed n s priv r priv' s'"
  using open_exit_live [OF assms(1)] assms(2,3) new_arrays_blocks
  by (simp add: arrays_new_def opened_or_closed_def)

lemma open_listen_live:
  assumes "conn_listen s conn = (r, conn', s')" and "conn = (pp_conn_listen priv)\<lparr>c_source_addr := a, c_source_port := p\<rparr>"
    and "base_ok priv"
  shows "live s' - proxy_blocks (priv\<lparr>pp_conn_listen := conn'\<rparr>) = live s - proxy_blocks priv \<and>
    base_ok (priv\<lparr>pp_conn_listen := conn'\<rparr>)"
proof -
  have c: "conn_blocks conn = conn_blocks (pp_conn_listen priv)" "c_priv conn \<noteq> None"
    using assms(2,3) by (simp_all add: conn_blocks_def base_ok_def)
  show ?thesis
    using opener_keeps_blocks(2) [OF c(2) assms(1)] opener_keeps_live(2) [OF assms(1)] conn_listen_priv [OF assms(1) c(2)]
      c(1) assms(3)
    by (simp add: proxy_blocks_def base_ok_def)
qed

lemma open_service_live:
  assumes run: "open_service s sys conf priv = (r, priv', sys', s')" and new: "arrays_new n priv"
  shows "opened_or_closed n s priv r priv' s'"
proof -
  note arr = new [unfolded arrays_new_def]
  define cs where "cs = map (\<lambda>i. (replicate n new_slot ! i)\<lparr>pc_source_addr := slot_source conf i\<rparr>) [0..<n]"
  obtain r1 cs1 s1 where 1: "open_slots s [] cs = (r1, cs1, s1)" by (metis prod_cases3)
  obtain r2 idle2 ws2 s2 where 2: "open_workers s1 [] [] (replicate n new_proxy_worker) = (r2, idle2, ws2, s2)"
    by (metis prod_cases4)
  define p1 where "p1 = priv\<lparr>pp_pool := pool_open (pp_pool priv) n, pp_clients := Some cs1\<rparr>"
  define p2 where "p2 = p1\<lparr>pp_idle_workers := idle2, pp_client_workers := Some ws2\<rparr>"
  define conn where "conn = (pp_conn_listen p2)\<lparr>c_source_addr := cf_bind_addr conf, c_source_port := Some (cstr (pp_port_str p2))\<rparr>"
  obtain r3 conn' s3 where 3: "conn_listen s2 conn = (r3, conn', s3)" by (metis prod_cases3)
  let ?p3 = "p2\<lparr>pp_conn_listen := conn'\<rparr>"
  have cs: "\<forall>pc \<in> set cs. pc_priv pc = None" "length cs = n"
    by (auto simp: cs_def new_slot_def)
  have f1: "live s1 - (\<Sum>pc\<leftarrow>cs1. slot_blocks pc) = live s" "length cs1 = n" "\<forall>pc \<in> set cs1. slot_rests pc"
    "r1 < 0 \<Longrightarrow> \<forall>pc \<in> set cs1. pc_priv pc = None"
    using open_slots_live [OF 1 _ cs(1)] cs(2) by simp_all
  have f2: "live s2 - (\<Sum>pw\<leftarrow>ws2. pw_blocks pw) = live s1" "length ws2 = n" "\<forall>pw \<in> set ws2. pw_conn_client pw = None"
    "r2 < 0 \<Longrightarrow> (\<Sum>pw\<leftarrow>ws2. pw_blocks pw) = 0"
    "\<not> r2 < 0 \<Longrightarrow> r2 = 0 \<and> (\<forall>pw \<in> set ws2. worker_ready (pw_worker pw)) \<and> idle2 = rev [0..<n]"
    using open_workers_live [OF 2] by simp_all
  have f3: "\<forall>pw \<in> set ws2. stopped pw" if "\<not> r2 < 0"
    using open_workers_stopped [OF 2 _ _ that] by simp
  have p: "pp_clients p1 = Some cs1" "pp_client_workers p1 = Some (replicate n new_proxy_worker)" "pp_clients p2 = Some cs1"
    "pp_client_workers p2 = Some ws2" "pp_num_clients p2 = int n" "pp_idle_workers p2 = idle2" "pp_pool p2 = pool_open (pp_pool priv) n"
    using arr by (simp_all add: p2_def p1_def)
  have a1: "live s1 - proxy_blocks p1 = live s - proxy_blocks priv" "base_ok p1"
    using f1(1) new_arrays_blocks(1) [of n] arr by (simp_all add: p1_def proxy_blocks_def base_ok_def opt_block_def)
  have a2: "live s2 - proxy_blocks p2 = live s1 - proxy_blocks p1" "base_ok p2"
    using f2(1) new_arrays_blocks(3) [of n] worker_sum [OF f2(3)] a1(2) arr
    by (simp_all add: p2_def p1_def proxy_blocks_def base_ok_def opt_block_def)
  note a3 = open_listen_live [OF 3 conn_def a2(2)]
  have run': "(r, priv', sys', s') =
      (if r1 < 0 then open_exit r1 s1 sys p1 else if r2 < 0 then open_exit_late r2 s2 sys p2
       else if r3 < 0 then open_exit_later r3 s3 sys ?p3 else (0, ?p3, sys, s3))"
    using run arr 1 2 3
    by (simp add: open_service_def Let_def p1_def p2_def cs_def conn_def cong: if_cong)
  consider "r1 < 0" | "\<not> r1 < 0" "r2 < 0" | "\<not> r1 < 0" "\<not> r2 < 0" "r3 < 0" | "\<not> r1 < 0" "\<not> r2 < 0" "\<not> r3 < 0"
    by blast
  then show ?thesis
  proof cases
    case 1
    with run' have "open_exit r1 s1 sys p1 = (r, priv', sys', s')" by simp
    from open_exit_live [OF this] show ?thesis
      using 1 no_slots_blocks [OF f1(4)] a1 new_arrays_blocks(3) [of n] by (simp add: p opened_or_closed_def)
  next
    case 2
    with run' have "open_exit_late r2 s2 sys p2 = (r, priv', sys', s')" by simp
    from open_exit_late_live [OF this _ f1(3)] show ?thesis
      using 2 a1 a2 worker_sum [OF f2(3)] f2(4) by (simp add: p opened_or_closed_def)
  next
    case 3
    with run' have "open_exit_later r3 s3 sys ?p3 = (r, priv', sys', s')" by simp
    from open_exit_later_live [OF this _ f1(3)] show ?thesis
      using 3 a1 a2 a3 f2(3,5) by (simp add: p rests_def opened_or_closed_def)
  next
    case 4
    with run' have "r = 0" "priv' = ?p3" "s' = s3" by simp_all
    then show ?thesis
      using 4 a1 a2 a3 f1(2,3) f2(2,3,5) f3 by (simp add: p fresh_service_def rests_def opened_or_closed_def)
  qed
qed

lemma open_patterns_live:
  assumes run: "open_patterns pcre s sys conf priv = Some (r, priv', sys', s')" and new: "arrays_new n priv"
  shows "opened_or_closed n s priv r priv' s'"
proof -
  obtain r1 re1 s1 where 1: "open_regex pcre s (re_calls_allowed (pp_res priv)) (cf_calls_allowed conf) = Some (r1, re1, s1)"
    using run by (auto simp: open_patterns_def split: bind_splits)
  define p1 where "p1 = priv\<lparr>pp_res := (pp_res priv)\<lparr>re_calls_allowed := re1\<rparr>\<rparr>"
  have a1: "live s1 - proxy_blocks p1 = live s - proxy_blocks priv" "arrays_new n p1" "pp_pool p1 = pp_pool priv"
    using open_regex_live [OF 1] new by (simp_all add: p1_def proxy_blocks_def arrays_new_def base_ok_def)
  have keep: "opened_or_closed n s priv r priv' s'" if "opened_or_closed n t p r priv' s'"
    "live t - proxy_blocks p = live s - proxy_blocks priv" "pp_pool p = pp_pool priv" for t p
    using that by (simp add: opened_or_closed_def)
  show ?thesis
  proof (cases "r1 < 0")
    case True
    then have "open_exit r1 s1 sys p1 = (r, priv', sys', s')"
      using run 1 by (simp add: open_patterns_def p1_def)
    from keep [OF open_exit_new [OF this a1(2) True] a1(1,3)] show ?thesis .
  next
    case False
    obtain r2 re2 s2 where 2: "open_regex pcre s1 (re_calls_denied (pp_res p1)) (cf_calls_denied conf) = Some (r2, re2, s2)"
      using run 1 False by (auto simp: open_patterns_def p1_def split: bind_splits)
    define p2 where "p2 = p1\<lparr>pp_res := (pp_res p1)\<lparr>re_calls_denied := re2\<rparr>\<rparr>"
    have a2: "live s2 - proxy_blocks p2 = live s - proxy_blocks priv" "arrays_new n p2" "pp_pool p2 = pp_pool priv"
      using open_regex_live [OF 2] a1 by (simp_all add: p2_def proxy_blocks_def arrays_new_def base_ok_def)
    have "(if r2 < 0 then open_exit r2 s2 sys p2 else open_service s2 sys conf p2) = (r, priv', sys', s')"
      using run 1 2 False by (cases "r2 < 0") (simp_all add: open_patterns_def p1_def p2_def Let_def)
    then have "opened_or_closed n s2 p2 r priv' s'"
      using open_exit_new [OF _ a2(2), of r2 s2 sys r priv' sys' s'] open_service_live [OF _ a2(2), of s2 sys conf r priv' sys' s']
      by (cases "r2 < 0") simp_all
    from keep [OF this a2(1,3)] show ?thesis .
  qed
qed

text \<open>\<open>proxy_open\<close> on a closed proxy keeps account of every block.  Afterwards the proxy is open with
  all its parts, or closed, or the first allocation has failed.\<close>

lemma proxy_open_live:
  assumes run: "proxy_open pcre s sys conf priv = Some (r, priv', sys', s')" and base: "base_ok priv"
    and closed: "pp_clients priv = None" "pp_client_workers priv = None" "pp_idle_workers priv = []"
    and n: "n = 1 + unat (cf_bind_addr_ext_add_len conf)"
  shows "live s' - proxy_blocks priv' = live s - proxy_blocks priv \<and> base_ok priv' \<and>
    (if \<not> fst (os_alloc s) then r = - ENOMEM \<and> pp_clients priv' = None \<and> pp_client_workers priv' = None
     else if r < 0 then closed_service priv'
     else r = 0 \<and> fresh_service n priv' \<and> pp_pool priv' = pool_open (fresh_slots (pp_pool priv)) n)"
proof -
  have n': "1 + uint (cf_bind_addr_ext_add_len conf) = int n"
    by (simp add: n)
  define p0 where "p0 = priv\<lparr>pp_port_str := conn_port_to_str (cf_port conf), pp_num_clients := int n\<rparr>"
  obtain ok1 s1 where 1: "os_alloc s = (ok1, s1)" by (metis surj_pair)
  define p1 where "p1 = p0\<lparr>pp_clients := Some (replicate n new_slot), pp_pool := fresh_slots (pp_pool priv)\<rparr>"
  obtain ok2 s2 where 2: "os_alloc s1 = (ok2, s2)" by (metis surj_pair)
  obtain r3 log sys3 s3 where 3: "log_open s2 sys (pp_log priv) = (r3, log, sys3, s3)" by (metis prod_cases4)
  note f3 = log_open_frame [OF 3]
  define p3 where "p3 = p1\<lparr>pp_client_workers := Some (replicate n new_proxy_worker), pp_log := log\<rparr>"
  note l = os_alloc_live [OF 1] os_alloc_live [OF 2] and z = new_arrays_blocks [of n]
  have a0: "base_ok p0" "proxy_blocks p0 = proxy_blocks priv" "pp_clients p0 = None" "pp_client_workers p0 = None"
    using base closed by (simp_all add: p0_def base_ok_def proxy_blocks_def)
  have a1: "base_ok p1" "proxy_blocks p1 = proxy_blocks priv + 1" "pp_clients p1 = Some (replicate n new_slot)"
    "pp_client_workers p1 = None"
    using base closed z by (simp_all add: p1_def p0_def base_ok_def proxy_blocks_def opt_block_def)
  have a3: "arrays_new n p3" "proxy_blocks p3 = proxy_blocks priv + 2" "pp_pool p3 = fresh_slots (pp_pool priv)"
    using base closed z log_blocks_priv [of log "pp_log priv"] f3
    by (simp_all add: p3_def p1_def p0_def base_ok_def proxy_blocks_def opt_block_def arrays_new_def)
  have p1: "p1\<lparr>pp_client_workers := None\<rparr> = p1" "p0\<lparr>pp_clients := None\<rparr> = p0"
    using closed by (simp_all add: p1_def p0_def)
  have run': "(if \<not> ok1 then Some (- ENOMEM, p0, sys, s1) else if \<not> ok2 then Some (open_exit (- ENOMEM) s2 sys p1)
      else open_patterns pcre s3 sys3 conf p3) = Some (r, priv', sys', s')"
    using run 1 2 3 f3 p1
    by (simp add: proxy_open_def n' Let_def p3_def p1_def p0_def split del: if_split cong: if_cong)
  consider "\<not> ok1" | "ok1" "\<not> ok2" | "ok1" "ok2"
    by blast
  then show ?thesis
  proof cases
    case 1
    then show ?thesis
      using run' a0 l \<open>os_alloc s = (ok1, s1)\<close> by auto
  next
    case 2
    then have "open_exit (- ENOMEM) s2 sys p1 = (r, priv', sys', s')"
      using run' by simp
    from open_exit_live [OF this] show ?thesis
      using 2 a1 z l \<open>os_alloc s = (ok1, s1)\<close> by auto
  next
    case 3
    then have "open_patterns pcre s3 sys3 conf p3 = Some (r, priv', sys', s')"
      using run' by simp
    from open_patterns_live [OF this a3(1)] show ?thesis
      using 3 a3 f3 l \<open>os_alloc s = (ok1, s1)\<close> by (auto simp: opened_or_closed_def split: if_splits)
  qed
qed

text \<open>\<open>proxy_open\<close> leaves the registration service alone.\<close>

lemma open_exit_reg:
  "open_exit ret s sys p = (r, p', sys', s') \<Longrightarrow> pp_reg_service p' = pp_reg_service p"
  "open_exit_late ret s sys p = (r, p', sys', s') \<Longrightarrow> pp_reg_service p' = pp_reg_service p"
  "open_exit_later ret s sys p = (r, p', sys', s') \<Longrightarrow> pp_reg_service p' = pp_reg_service p"
  by (auto simp: open_exit_def open_exit_late_def open_exit_later_def Let_def split: prod.splits)

lemma open_service_reg: "open_service s sys conf priv = (r, priv', sys', s') \<Longrightarrow> pp_reg_service priv' = pp_reg_service priv"
  by (auto simp: open_service_def Let_def dest!: open_exit_reg split: prod.splits if_splits)

lemma open_patterns_reg:
  "open_patterns pcre s sys conf priv = Some (r, priv', sys', s') \<Longrightarrow> pp_reg_service priv' = pp_reg_service priv"
  by (auto simp: open_patterns_def Let_def dest!: open_exit_reg open_service_reg split: prod.splits if_splits bind_splits)

lemma proxy_open_reg:
  "proxy_open pcre s sys conf priv = Some (r, priv', sys', s') \<Longrightarrow> pp_reg_service priv' = pp_reg_service priv"
  by (auto simp: proxy_open_def Let_def dest!: open_exit_reg open_patterns_reg split: prod.splits if_splits bind_splits)

section \<open>Lemmas on starting and closing\<close>

lemma registration_update_ready:
  "worker_ready (rp_worker rs) \<Longrightarrow> worker_ready (rp_worker (registration_service_update rs u t)) \<and>
   reg_blocks (Some (registration_service_update rs u t)) = reg_blocks (Some rs) \<and>
   rp_reg_suffix (registration_service_update rs u t) = rp_reg_suffix rs"
  using worker_wake_parts [of "rp_worker rs"]
  by (cases "worker_wake (rp_worker rs)") (auto simp: registration_service_update_def reg_blocks_def)

text \<open>\<open>proxy_update_registration\<close> is defined when the proxy has been set up, and only the registration
  service changes.\<close>

lemma update_registration_ok:
  assumes "base_ok priv"
  shows "\<exists>rs. proxy_update_registration priv = Some (priv\<lparr>pp_reg_service := Some rs\<rparr>) \<and>
    base_ok (priv\<lparr>pp_reg_service := Some rs\<rparr>) \<and> proxy_blocks (priv\<lparr>pp_reg_service := Some rs\<rparr>) = proxy_blocks priv \<and>
    rp_reg_suffix rs = rp_reg_suffix (the (pp_reg_service priv))"
proof -
  obtain rs where rs: "pp_reg_service priv = Some rs" "worker_ready (rp_worker rs)"
    using assms by (auto simp: base_ok_def reg_ready_def)
  show ?thesis
    using assms rs registration_update_ready [OF rs(2)]
    by (auto simp: proxy_update_registration_def base_ok_def reg_ready_def proxy_blocks_def Let_def)
qed

lemma pc_self: "pc_priv pc = Some pv \<Longrightarrow> with_pcpriv pc pv = pc"
  by (cases pc) simp

lemma proxy_conn_start_parts:
  assumes "slot_ready pv" and "proxy_conn_start s pv = (r, pv', s')"
  shows "live s' = live s \<and> slot_ready pv' \<and> pc_blocks (with_pcpriv pc pv') = pc_blocks (with_pcpriv pc pv) \<and>
    pv_conn_client pv' = pv_conn_client pv \<and> slot_idle pv' = slot_idle pv"
proof -
  note ready = assms(1) [unfolded slot_ready_def]
  obtain r1 w1 s1 where 1: "worker_start s (pv_worker_control pv) = (r1, w1, s1)" by (metis prod_cases3)
  obtain r2 w2 s2 where 2: "worker_start s1 (pv_worker_data pv) = (r2, w2, s2)" by (metis prod_cases3)
  obtain r3 w3 s3 where 3: "worker_start s2 (pv_worker_tcp pv) = (r3, w3, s3)" by (metis prod_cases3)
  note f = worker_start_parts [OF _ 1] worker_start_parts [OF _ 2] worker_start_parts [OF _ 3]
  have "pv' = pv\<lparr>pv_worker_control := w1\<rparr> \<and> s' = s1 \<or> pv' = pv\<lparr>pv_worker_control := w1, pv_worker_data := w2\<rparr> \<and> s' = s2 \<or>
      pv' = pv\<lparr>pv_worker_control := w1, pv_worker_data := w2, pv_worker_tcp := w3\<rparr> \<and> s' = s3"
    using assms(2) 1 2 3 by (auto simp: proxy_conn_start_def Let_def split: if_splits)
  then show ?thesis
    using f ready by (elim disjE conjE) (simp_all add: slot_ready_def slot_idle_def pc_blocks_def)
qed

lemma start_slots_live:
  "start_slots s started pcs = Some (r, started', rest, s') \<Longrightarrow> \<forall>pc \<in> set (started @ pcs). slot_rests pc \<Longrightarrow>
   \<forall>pc \<in> set started. pc_priv pc \<noteq> None \<Longrightarrow>
   live s' = live s \<and> length (started' @ rest) = length (started @ pcs) \<and> (\<forall>pc \<in> set (started' @ rest). slot_rests pc) \<and>
   (\<forall>pc \<in> set started'. pc_priv pc \<noteq> None) \<and>
   (\<Sum>pc\<leftarrow>started' @ rest. slot_blocks pc) = (\<Sum>pc\<leftarrow>started @ pcs. slot_blocks pc) \<and> (\<not> r < 0 \<longrightarrow> rest = [])"
proof (induction pcs arbitrary: s started)
  case (Cons pc pcs)
  obtain pv where pv: "pc_priv pc = Some pv"
    using Cons.prems(1) by (auto split: bind_splits)
  obtain r1 pv1 s1 where 1: "proxy_conn_start s pv = (r1, pv1, s1)" by (metis prod_cases3)
  let ?pc = "with_pcpriv pc pv1"
  have ready: "slot_ready pv" "slot_idle pv"
    using Cons.prems(2) pv by (auto simp: slot_rests_def)
  have f: "live s1 = live s" "slot_rests ?pc" "slot_blocks ?pc = slot_blocks pc"
    using proxy_conn_start_parts [OF ready(1) 1, of pc] ready pv pc_self [OF pv]
    by (auto simp: slot_rests_def slot_idle_def slot_blocks_def client_blocks_def)
  show ?case
  proof (cases "r1 < 0")
    case True
    then have "started' = started" "rest = ?pc # pcs" "s' = s1"
      using Cons.prems(1) pv 1 by auto
    moreover have "r = r1"
      using Cons.prems(1) pv 1 True by simp
    ultimately show ?thesis
      using f Cons.prems(2,3) True by simp
  next
    case False
    then have "start_slots s1 (started @ [?pc]) pcs = Some (r, started', rest, s')"
      using Cons.prems(1) pv 1 by simp
    from Cons.IH [OF this] show ?thesis
      using f Cons.prems(2,3) by simp
  qed
qed auto

lemma start_workers_live:
  "start_workers s started pws = (r, started', rest, s') \<Longrightarrow> \<forall>pw \<in> set (started @ pws). rests pw \<Longrightarrow>
   live s' = live s \<and> length (started' @ rest) = length (started @ pws) \<and> (\<forall>pw \<in> set (started' @ rest). rests pw) \<and>
   (\<Sum>pw\<leftarrow>started' @ rest. pw_blocks pw) = (\<Sum>pw\<leftarrow>started @ pws. pw_blocks pw) \<and> (\<not> r < 0 \<longrightarrow> rest = [])"
proof (induction pws arbitrary: s started)
  case (Cons pw pws)
  obtain r1 w s1 where 1: "worker_start s (pw_worker pw) = (r1, w, s1)" by (metis prod_cases3)
  let ?pw = "pw\<lparr>pw_worker := w\<rparr>"
  have f: "live s1 = live s" "rests ?pw" "pw_blocks ?pw = pw_blocks pw"
    using worker_start_parts [OF _ 1] Cons.prems(2) by (auto simp: rests_def pw_blocks_def)
  show ?case
  proof (cases "r1 < 0")
    case True
    then have "started' = started" "rest = ?pw # pws" "s' = s1" "r = r1"
      using Cons.prems(1) 1 by auto
    then show ?thesis
      using f Cons.prems(2) True by simp
  next
    case False
    then have "start_workers s1 (started @ [?pw]) pws = (r, started', rest, s')"
      using Cons.prems(1) 1 by simp
    from Cons.IH [OF this] show ?thesis
      using f Cons.prems(2) by simp
  qed
qed auto

lemma join_workers_live:
  "join_workers s pws = (pws', s') \<Longrightarrow> \<forall>pw \<in> set pws. rests pw \<Longrightarrow>
   live s' = live s \<and> length pws' = length pws \<and> (\<forall>pw \<in> set pws'. rests pw) \<and>
   (\<Sum>pw\<leftarrow>pws'. pw_blocks pw) = (\<Sum>pw\<leftarrow>pws. pw_blocks pw)"
proof (induction pws arbitrary: s pws' s')
  case (Cons pw pws)
  obtain r w s1 where 1: "worker_join s (pw_worker pw) = (r, w, s1)" by (metis prod_cases3)
  obtain pws2 s2 where 2: "join_workers s1 pws = (pws2, s2)" by (metis surj_pair)
  have "live s1 = live s" "rests (pw\<lparr>pw_worker := w\<rparr>)" "pw_blocks (pw\<lparr>pw_worker := w\<rparr>) = pw_blocks pw"
    using worker_join_parts [OF _ 1] Cons.prems(2) by (auto simp: rests_def pw_blocks_def)
  moreover have "pws' = pw\<lparr>pw_worker := w\<rparr> # pws2" "s' = s2"
    using Cons.prems(1) 1 2 by simp_all
  ultimately show ?case
    using Cons.IH [OF 2] Cons.prems(2) by simp
qed simp

lemma stop_slots_live:
  "stop_slots s pcs = (pcs', s') \<Longrightarrow> \<forall>pc \<in> set pcs. slot_rests pc \<and> pc_priv pc \<noteq> None \<Longrightarrow>
   live s' = live s \<and> length pcs' = length pcs \<and> (\<forall>pc \<in> set pcs'. slot_rests pc) \<and>
   (\<Sum>pc\<leftarrow>pcs'. slot_blocks pc) = (\<Sum>pc\<leftarrow>pcs. slot_blocks pc)"
proof (induction pcs arbitrary: s pcs' s')
  case (Cons pc pcs)
  obtain pv where pv: "pc_priv pc = Some pv" "slot_ready pv" "slot_idle pv"
    using Cons.prems(2) by (auto simp: slot_rests_def)
  obtain r cl pv1 s1 where 1: "proxy_conn_stop s pv = (r, cl, pv1, s1)" by (metis prod_cases4)
  obtain pcs2 s2 where 2: "stop_slots s1 pcs = (pcs2, s2)" by (metis surj_pair)
  have "live s1 = live s" "slot_rests (with_pcpriv pc pv1)" "slot_blocks (with_pcpriv pc pv1) = slot_blocks pc"
    using proxy_conn_stop_frame [OF pv(2) 1, of pc] pv pc_self [OF pv(1)]
    by (auto simp: slot_rests_def slot_idle_def slot_blocks_def client_blocks_def)
  moreover have "pcs' = with_pcpriv pc pv1 # pcs2" "s' = s2"
    using Cons.prems(1) 1 2 pv(1) by simp_all
  ultimately show ?case
    using Cons.IH [OF 2] Cons.prems(2) by simp
qed simp

text \<open>A proxy whose slots and workers are complete and serve nobody.\<close>

definition resting :: "'re proxy_priv \<Rightarrow> bool" where
  "resting priv \<longleftrightarrow>
     base_ok priv \<and> (\<forall>pc \<in> set (array_of (pp_clients priv)). slot_rests pc) \<and>
     (\<forall>pw \<in> set (array_of (pp_client_workers priv)). rests pw) \<and>
     length (array_of (pp_clients priv)) = nat (pp_num_clients priv) \<and>
     length (array_of (pp_client_workers priv)) = nat (pp_num_clients priv)"

lemma registration_start_live:
  assumes "registration_service_start ctx s rs conf = Some (r, rs', s')" and "worker_ready (rp_worker rs)"
    and "rp_reg_suffix rs = None"
  shows "live s' - reg_blocks (Some rs') = live s - reg_blocks (Some rs) \<and> worker_ready (rp_worker rs')"
proof (cases "cf_reg_name conf")
  case None
  with assms show ?thesis
    by (simp add: registration_service_start_def)
next
  case (Some name)
  obtain password where pw: "cf_password conf = Some password"
    using assms(1) Some by (auto simp: registration_service_start_def split: option.splits)
  obtain ok s1 where 1: "os_alloc s = (ok, s1)" by (metis surj_pair)
  obtain r2 w2 s2 where 2: "worker_start s1 (rp_worker rs) = (r2, w2, s2)" by (metis prod_cases3)
  obtain r3 w3 where 3: "worker_wake w2 = (r3, w3)" by (metis surj_pair)
  note f = os_alloc_live [OF 1] worker_start_parts [OF assms(2) 2]
  have "worker_ready w3 \<and> worker_blocks w3 = worker_blocks w2"
    using f(2) worker_wake_parts [OF _ 3] by blast
  then show ?thesis
    using assms Some pw 1 2 3 f
    by (auto simp: registration_service_start_def free_opt_def reg_blocks_def opt_block_def Let_def
        split: option.splits if_splits)
qed

text \<open>Replacing the elements of the arrays.\<close>

abbreviation swapped :: "'re proxy_priv \<Rightarrow> proxy_conn_handle list \<Rightarrow> proxy_worker list \<Rightarrow> 're proxy_priv" where
  "swapped priv cs ws \<equiv> priv\<lparr>pp_clients := map_option (\<lambda>_. cs) (pp_clients priv),
     pp_client_workers := map_option (\<lambda>_. ws) (pp_client_workers priv)\<rparr>"

lemma swap_arrays:
  assumes "resting priv"
    and "length cs = length (array_of (pp_clients priv))" and "\<forall>pc \<in> set cs. slot_rests pc"
    and "(\<Sum>pc\<leftarrow>cs. slot_blocks pc) = (\<Sum>pc\<leftarrow>array_of (pp_clients priv). slot_blocks pc)"
    and "length ws = length (array_of (pp_client_workers priv))" and "\<forall>pw \<in> set ws. rests pw"
    and "(\<Sum>pw\<leftarrow>ws. pw_blocks pw) = (\<Sum>pw\<leftarrow>array_of (pp_client_workers priv). pw_blocks pw)"
  shows "resting (swapped priv cs ws) \<and> proxy_blocks (swapped priv cs ws) = proxy_blocks priv"
proof -
  note rest = assms(1) [unfolded resting_def]
  have "(\<Sum>pw\<leftarrow>ws. pw_blocks pw + client_blocks (held_conn pw)) =
      (\<Sum>pw\<leftarrow>array_of (pp_client_workers priv). pw_blocks pw + client_blocks (held_conn pw))"
    using worker_sum [of ws] worker_sum [of "array_of (pp_client_workers priv)"] assms(6,7) rest by (simp add: rests_def)
  then show ?thesis
    using assms rest
    by (cases "pp_clients priv"; cases "pp_client_workers priv")
       (simp_all add: resting_def base_ok_def proxy_blocks_def opt_block_def)
qed

lemma start_exit_live:
  assumes "start_exit ret s priv started rest = (r, priv', s')" and "resting priv"
    and "started @ rest = array_of (pp_client_workers priv)"
    and "\<forall>pc \<in> set (array_of (pp_clients priv)). pc_priv pc \<noteq> None"
  shows "live s' = live s \<and> proxy_blocks priv' = proxy_blocks priv \<and> resting priv' \<and> r = ret"
proof -
  note rest = assms(2) [unfolded resting_def]
  obtain joined s1 where 1: "join_workers s (rev started) = (joined, s1)" by (metis surj_pair)
  obtain stopped s2 where 2: "stop_slots s1 (rev (array_of (pp_clients priv))) = (stopped, s2)" by (metis surj_pair)
  have f1: "live s1 = live s" "length joined = length started" "\<forall>pw \<in> set joined. rests pw"
    "(\<Sum>pw\<leftarrow>joined. pw_blocks pw) = (\<Sum>pw\<leftarrow>started. pw_blocks pw)"
    using join_workers_live [OF 1] rest unfolding assms(3) [symmetric] by (auto simp: rev_map [symmetric] sum_list_rev)
  have f2: "live s2 = live s1" "length stopped = length (array_of (pp_clients priv))" "\<forall>pc \<in> set stopped. slot_rests pc"
    "(\<Sum>pc\<leftarrow>stopped. slot_blocks pc) = (\<Sum>pc\<leftarrow>array_of (pp_clients priv). slot_blocks pc)"
    using stop_slots_live [OF 2] rest assms(4) by (auto simp: rev_map [symmetric] sum_list_rev)
  have "priv' = swapped priv (rev stopped) (rev joined @ rest)" "s' = s2" "r = ret"
    using assms(1) 1 2 by (auto simp: start_exit_def)
  moreover have "length (rev joined @ rest) = length (array_of (pp_client_workers priv))"
    "\<forall>pw \<in> set (rev joined @ rest). rests pw"
    "(\<Sum>pw\<leftarrow>rev joined @ rest. pw_blocks pw) = (\<Sum>pw\<leftarrow>array_of (pp_client_workers priv). pw_blocks pw)"
    using f1 rest unfolding assms(3) [symmetric] by (auto simp: rev_map [symmetric] sum_list_rev)
  ultimately show ?thesis
    using swap_arrays [OF assms(2), of "rev stopped" "rev joined @ rest"] f1(1) f2
    by (simp add: rev_map [symmetric] sum_list_rev)
qed

text \<open>What the functions called by \<open>proxy_start\<close> keep.\<close>

definition start_keeps :: "os \<Rightarrow> 're proxy_priv \<Rightarrow> 're proxy_priv \<Rightarrow> os \<Rightarrow> bool" where
  "start_keeps s priv priv' s' \<longleftrightarrow>
     live s' - proxy_blocks priv' = live s - proxy_blocks priv \<and> resting priv' \<and>
     pp_pool priv' = pp_pool priv \<and> pp_idle_workers priv' = pp_idle_workers priv \<and> pp_num_clients priv' = pp_num_clients priv"

lemma start_keeps_trans: "start_keeps s p p1 s1 \<Longrightarrow> start_keeps s1 p1 p2 s2 \<Longrightarrow> start_keeps s p p2 s2"
  by (simp add: start_keeps_def)

lemma start_exit_keeps:
  assumes "start_exit ret s priv started rest = (r, priv', s')" and "resting priv"
    and "started @ rest = array_of (pp_client_workers priv)" and "\<forall>pc \<in> set (array_of (pp_clients priv)). pc_priv pc \<noteq> None"
  shows "start_keeps s priv priv' s'"
  using start_exit_live [OF assms] assms(1) by (auto simp: start_keeps_def start_exit_def split: prod.splits)

lemma start_registration_live:
  assumes run: "start_registration ctx s conf priv = Some (r, priv', s')" and rest: "resting priv"
    and first: "\<And>rs. pp_reg_service priv = Some rs \<Longrightarrow> rp_reg_suffix rs = None"
    and all: "\<forall>pc \<in> set (array_of (pp_clients priv)). pc_priv pc \<noteq> None"
  shows "start_keeps s priv priv' s'"
proof -
  define p0 where "p0 = priv\<lparr>pp_usable_clients := pp_num_clients priv\<rparr>"
  have "base_ok p0"
    using rest by (simp add: p0_def resting_def base_ok_def)
  from update_registration_ok [OF this] obtain rs where rs: "proxy_update_registration p0 = Some (p0\<lparr>pp_reg_service := Some rs\<rparr>)"
    "base_ok (p0\<lparr>pp_reg_service := Some rs\<rparr>)" "proxy_blocks (p0\<lparr>pp_reg_service := Some rs\<rparr>) = proxy_blocks p0"
    "rp_reg_suffix rs = rp_reg_suffix (the (pp_reg_service p0))"
    by blast
  obtain r1 rs1 s1 where 1: "registration_service_start ctx s rs conf = Some (r1, rs1, s1)"
    using run rs(1) by (auto simp: start_registration_def p0_def split: bind_splits)
  have "rp_reg_suffix rs = None" "worker_ready (rp_worker rs)"
    using first rs(2,4) rest by (auto simp: p0_def base_ok_def resting_def reg_ready_def)
  note f = registration_start_live [OF 1 this(2,1)]
  define p1 where "p1 = p0\<lparr>pp_reg_service := Some rs1\<rparr>"
  have "start_keeps s priv p1 s1"
    using f rs rest by (simp add: p1_def p0_def start_keeps_def resting_def base_ok_def reg_ready_def proxy_blocks_def)
  moreover have "(if r1 < 0 then start_exit r1 s1 p1 (array_of (pp_client_workers p1)) [] else (0, p1, s1)) = (r, priv', s')"
    using run rs(1) 1 by (cases "r1 < 0") (simp_all add: start_registration_def p1_def p0_def)
  moreover have "pp_clients p1 = pp_clients priv"
    by (simp add: p1_def p0_def)
  ultimately show ?thesis
    using start_exit_keeps [of r1 s1 p1 "array_of (pp_client_workers p1)" "[]" r priv' s'] all
    by (cases "r1 < 0") (auto simp: start_keeps_def)
qed

lemma start_service_live:
  assumes run: "start_service ctx s conf priv = Some (r, priv', s')" and rest: "resting priv"
    and first: "\<And>rs. pp_reg_service priv = Some rs \<Longrightarrow> rp_reg_suffix rs = None"
    and all: "\<forall>pc \<in> set (array_of (pp_clients priv)). pc_priv pc \<noteq> None"
  shows "start_keeps s priv priv' s'"
proof -
  note res = rest [unfolded resting_def]
  obtain r1 st1 re1 s1 where 1: "start_workers s [] (array_of (pp_client_workers priv)) = (r1, st1, re1, s1)"
    by (metis prod_cases4)
  have f: "live s1 = live s" "length (st1 @ re1) = length (array_of (pp_client_workers priv))" "\<forall>pw \<in> set (st1 @ re1). rests pw"
    "(\<Sum>pw\<leftarrow>st1 @ re1. pw_blocks pw) = (\<Sum>pw\<leftarrow>array_of (pp_client_workers priv). pw_blocks pw)" "\<not> r1 < 0 \<Longrightarrow> re1 = []"
    using start_workers_live [OF 1] res by simp_all
  define p1 where "p1 = swapped priv (array_of (pp_clients priv)) (st1 @ re1)"
  have p1: "p1 = priv\<lparr>pp_client_workers := map_option (\<lambda>_. st1 @ re1) (pp_client_workers priv)\<rparr>"
    by (simp add: p1_def split: option.splits)
  have k: "start_keeps s priv p1 s1"
    using swap_arrays [OF rest _ _ _ f(2-4), of "array_of (pp_clients priv)"] res f(1)
    by (simp add: start_keeps_def p1_def)
  have c: "array_of (pp_clients p1) = array_of (pp_clients priv)" "st1 @ re1 = array_of (pp_client_workers p1)"
    using f(2) by (auto simp: p1 split: option.splits)
  have "(if r1 < 0 then Some (start_exit r1 s1 p1 st1 re1) else start_registration ctx s1 conf p1) = Some (r, priv', s')"
    using run 1 by (cases "r1 < 0") (simp_all add: start_service_def p1)
  then have "start_keeps s1 p1 priv' s'"
    using start_exit_keeps [OF _ _ c(2), of r1 s1 r priv' s'] start_registration_live [of ctx s1 conf p1 r priv' s'] k first all c(1)
    by (cases "r1 < 0") (auto simp: start_keeps_def p1)
  with k show ?thesis
    by (rule start_keeps_trans)
qed

text \<open>\<open>proxy_start\<close> for the first time: whether it succeeds or not, the proxy keeps its parts.\<close>

lemma proxy_start_live:
  assumes run: "proxy_start ctx s conf priv = Some (r, priv', s')" and rest: "resting priv"
    and first: "\<And>rs. pp_reg_service priv = Some rs \<Longrightarrow> rp_reg_suffix rs = None"
  shows "start_keeps s priv priv' s'"
proof -
  note res = rest [unfolded resting_def]
  obtain r1 st1 re1 s1 where 1: "start_slots s [] (array_of (pp_clients priv)) = Some (r1, st1, re1, s1)"
    using run by (auto simp: proxy_start_def split: bind_splits if_splits)
  have f: "live s1 = live s" "length (st1 @ re1) = length (array_of (pp_clients priv))" "\<forall>pc \<in> set (st1 @ re1). slot_rests pc"
    "(\<Sum>pc\<leftarrow>st1 @ re1. slot_blocks pc) = (\<Sum>pc\<leftarrow>array_of (pp_clients priv). slot_blocks pc)"
    "\<forall>pc \<in> set st1. pc_priv pc \<noteq> None" "\<not> r1 < 0 \<Longrightarrow> re1 = []"
    using start_slots_live [OF 1] res by simp_all
  have keep: "start_keeps s priv (priv\<lparr>pp_clients := map_option (\<lambda>_. cs) (pp_clients priv)\<rparr>) t"
    if "length cs = length (array_of (pp_clients priv))" "\<forall>pc \<in> set cs. slot_rests pc"
      "(\<Sum>pc\<leftarrow>cs. slot_blocks pc) = (\<Sum>pc\<leftarrow>array_of (pp_clients priv). slot_blocks pc)" "live t = live s" for cs t
  proof -
    have "priv\<lparr>pp_clients := map_option (\<lambda>_. cs) (pp_clients priv)\<rparr> = swapped priv cs (array_of (pp_client_workers priv))"
      by (simp split: option.splits)
    then show ?thesis
      using swap_arrays [OF rest that(1-3), of "array_of (pp_client_workers priv)"] res that(4)
      by (simp add: start_keeps_def)
  qed
  show ?thesis
  proof (cases "r1 < 0")
    case True
    obtain stopped s2 where 2: "stop_slots s1 (rev st1) = (stopped, s2)" by (metis surj_pair)
    have g: "live s2 = live s1" "length stopped = length st1" "\<forall>pc \<in> set stopped. slot_rests pc"
      "(\<Sum>pc\<leftarrow>stopped. slot_blocks pc) = (\<Sum>pc\<leftarrow>st1. slot_blocks pc)"
      using stop_slots_live [OF 2] f(3,5) by (auto simp: rev_map [symmetric] sum_list_rev)
    have "priv' = priv\<lparr>pp_clients := map_option (\<lambda>_. rev stopped @ re1) (pp_clients priv)\<rparr>" "s' = s2"
      using run 1 2 True by (auto simp: proxy_start_def comp_def option.map_comp split: if_splits)
    then show ?thesis
      using keep [of "rev stopped @ re1" s2] f g by (auto simp: rev_map [symmetric] sum_list_rev ball_Un)
  next
    case False
    define p1 where "p1 = priv\<lparr>pp_clients := map_option (\<lambda>_. st1 @ re1) (pp_clients priv)\<rparr>"
    have k: "start_keeps s priv p1 s1"
      unfolding p1_def by (rule keep [OF f(2-4,1)])
    have run': "start_service ctx s1 conf p1 = Some (r, priv', s')"
      using run 1 False by (auto simp: proxy_start_def p1_def split: if_splits)
    have "\<forall>pc \<in> set (array_of (pp_clients p1)). pc_priv pc \<noteq> None"
      using f(5,6) False by (auto simp: p1_def split: option.splits)
    then have "start_keeps s1 p1 priv' s'"
      using k first by (intro start_service_live [OF run']) (auto simp: start_keeps_def p1_def)
    with k show ?thesis
      by (rule start_keeps_trans)
  qed
qed

lemma proxy_drop_resting: "resting priv \<Longrightarrow> proxy_drop s priv = Some (priv, s)"
proof -
  assume rest: "resting priv"
  have "fold (\<lambda>k (priv, s). proxy_worker_drop s priv k) ks (priv, s) = (priv, s)"
    if "set ks \<subseteq> {..<nat (pp_num_clients priv)}" for ks
    using that
  proof (induction ks)
    case (Cons k ks)
    then have "pw_conn_client (worker_of priv k) = None"
      using rest by (cases "pp_client_workers priv") (auto simp: resting_def rests_def)
    with Cons show ?case
      by (simp add: proxy_worker_drop_def)
  qed simp
  from this [of "[0..<nat (pp_num_clients priv)]"] show ?thesis
    using rest by (cases "pp_client_workers priv") (auto simp: proxy_drop_def resting_def atLeast_upt)
qed

lemma proxy_shutdown_resting:
  assumes "resting priv"
  shows "\<exists>priv' s'. proxy_shutdown s priv = Some (priv', s') \<and> live s' = live s \<and> resting priv' \<and>
    proxy_blocks priv' = proxy_blocks priv \<and> pp_clients priv' = pp_clients priv \<and>
    pp_client_workers priv' = pp_client_workers priv \<and> pp_num_clients priv' = pp_num_clients priv"
proof -
  let ?p = "priv\<lparr>pp_usable_clients := 0\<rparr>"
  have "base_ok ?p" "proxy_blocks ?p = proxy_blocks priv" "pp_usable_clients_mutex priv \<noteq> None"
    using assms by (simp_all add: resting_def base_ok_def proxy_blocks_def)
  then obtain rs where rs: "proxy_update_registration ?p = Some (?p\<lparr>pp_reg_service := Some rs\<rparr>)"
    "base_ok (?p\<lparr>pp_reg_service := Some rs\<rparr>)" "proxy_blocks (?p\<lparr>pp_reg_service := Some rs\<rparr>) = proxy_blocks priv"
    using update_registration_ok by metis
  then show ?thesis
    using assms by (simp add: proxy_shutdown_def resting_def base_ok_def)
qed

text \<open>\<open>proxy_close\<close> on a proxy that serves nobody is defined and gives the slots and workers back.\<close>

lemma proxy_close_live:
  assumes "resting priv"
  shows "\<exists>priv' s'. proxy_close s sys priv = Some (priv', sys, s') \<and> live s' - proxy_blocks priv' = live s - proxy_blocks priv \<and>
    base_ok priv' \<and> closed_service priv' \<and> pp_idle_workers priv' = []"
proof -
  obtain rs where rs: "pp_reg_service priv = Some rs" "worker_ready (rp_worker rs)"
    using assms by (auto simp: resting_def base_ok_def reg_ready_def)
  obtain r1 rs1 s1 where 1: "registration_service_stop s rs = (r1, rs1, s1)" by (metis prod_cases3)
  note f1 = registration_stop_live [OF 1 rs(2)]
  define p1 where "p1 = priv\<lparr>pp_reg_service := Some rs1\<rparr>"
  have p1: "resting p1" "proxy_blocks p1 = proxy_blocks priv"
    using assms f1 rs(1) by (simp_all add: p1_def resting_def base_ok_def reg_ready_def proxy_blocks_def)
  from proxy_shutdown_resting [OF p1(1), of s1] obtain p2 s2 where 2: "proxy_shutdown s1 p1 = Some (p2, s2)"
    and f2: "live s2 = live s1" "resting p2" "proxy_blocks p2 = proxy_blocks p1"
    by blast
  note res = f2(2) [unfolded resting_def]
  obtain ws s3 where 3: "free_workers s2 (array_of (pp_client_workers p2)) = (ws, s3)" by (metis surj_pair)
  have f3: "live s3 = live s2 - (\<Sum>pw\<leftarrow>array_of (pp_client_workers p2). pw_blocks pw)"
    using free_workers_live [OF 3] res worker_ready_usable by (auto simp: rests_def)
  obtain cs s4 where 4: "free_slots s3 (array_of (pp_clients p2)) = (cs, s4)" by (metis surj_pair)
  have f4: "live s4 = live s3 - (\<Sum>pc\<leftarrow>array_of (pp_clients p2). slot_blocks pc)"
    using free_slots_live [OF 4] res by auto
  define s5 where "s5 = free_opt (free_opt s4 (pp_client_workers p2)) (pp_clients p2)"
  obtain conn s6 where 6: "conn_close s5 (pp_conn_listen p2) = (conn, s6)" by (metis surj_pair)
  obtain cp where cp: "c_priv (pp_conn_listen p2) = Some cp"
    using res by (auto simp: base_ok_def)
  note f6 = conn_close_frame [OF cp 6]
  define p3 where "p3 = p2\<lparr>pp_idle_workers := [], pp_pool := pool_close (pp_pool p2), pp_client_workers := None,
    pp_clients := None, pp_num_clients := 0, pp_conn_listen := conn, pp_log := (pp_log p2)\<lparr>lh_medium := LOG_MEDIUM_NONE\<rparr>\<rparr>"
  have "proxy_close s sys priv = Some (p3, sys, s6)"
    using rs(1) 1 2 3 4 6 res proxy_drop_resting [OF f2(2)]
    by (simp add: proxy_close_def p3_def s5_def flip: p1_def)
  moreover have "live s6 - proxy_blocks p3 = live s2 - proxy_blocks p2"
    using f3 f4 f6 cp worker_sum [of "array_of (pp_client_workers p2)"] res
    by (simp add: p3_def s5_def proxy_blocks_def opt_block_def log_blocks_def conn_blocks_def rests_def)
  moreover have "base_ok p3" "closed_service p3" "pp_idle_workers p3 = []"
    using res f6 by (auto simp: p3_def base_ok_def closed_service_def)
  ultimately show ?thesis
    using f1 f2(1,3) p1(2) by auto
qed

text \<open>\<open>proxy_free\<close> on a proxy that serves nobody is defined and gives everything back.\<close>

lemma proxy_free_live:
  assumes "ph_priv ph = Some priv" and "resting priv" and "conf_wf (ph_conf ph)"
  shows "\<exists>ph' s'. proxy_free s ph = Some (ph', s') \<and> ph_priv ph' = None \<and> conf_blocks (ph_conf ph') = 0 \<and>
    live s' = live s - proxy_blocks priv - conf_blocks (ph_conf ph)"
proof -
  obtain p1 s1 where 1: "proxy_close s (ph_syslog ph) priv = Some (p1, ph_syslog ph, s1)"
    and f1: "live s1 - proxy_blocks p1 = live s - proxy_blocks priv" "base_ok p1" "closed_service p1"
    using proxy_close_live [OF assms(2)] by blast
  obtain m2 s2 where 2: "mutex_free s1 (pp_idle_workers_mutex p1) = (m2, s2)" by (metis surj_pair)
  obtain m3 s3 where 3: "mutex_free s2 (pp_idle_clients_mutex p1) = (m3, s3)" by (metis surj_pair)
  obtain m4 s4 where 4: "mutex_free s3 (pp_usable_clients_mutex p1) = (m4, s4)" by (metis surj_pair)
  obtain rs s5 where 5: "registration_service_free s4 (pp_reg_service p1) = (rs, s5)" by (metis surj_pair)
  obtain conn s6 where 6: "conn_free s5 (pp_conn_listen p1) = (conn, s6)" by (metis surj_pair)
  obtain conf s7 where 7: "conf_free s6 (ph_conf ph) = (conf, s7)" by (metis surj_pair)
  obtain log sys s8 where 8: "log_free s7 (ph_syslog ph) (pp_log p1) = (log, sys, s8)" by (metis prod_cases3)
  have "reg_ready (pp_reg_service p1)" "lh_priv (pp_log p1) \<noteq> None" "log_blocks (pp_log p1) = 1"
    using f1(2) by (auto simp: base_ok_def log_blocks_def)
  note f = mutex.free_blocks [OF 2] mutex.free_blocks [OF 3] mutex.free_blocks [OF 4]
    registration_free_managed [OF this(1) 5] conn.free_blocks [OF 6] conf_free_live [OF 7 assms(3)] log_free_live [OF 8 this(2)]
  have "proxy_free s ph = Some (\<lparr>ph_priv = None, ph_conf = conf, ph_syslog = sys\<rparr>,
      os_free (free_regex (free_regex s8 (re_calls_allowed (pp_res p1))) (re_calls_denied (pp_res p1))))"
    using assms(1) 1 2 3 4 5 6 7 8 by (simp add: proxy_free_def)
  then show ?thesis
    using f f1 \<open>log_blocks (pp_log p1) = 1\<close>
    by (simp add: proxy_blocks_def closed_service_def opt_block_def os_free_def)
qed

text \<open>\<open>proxy_init\<close> gives a proxy with all its parts.  When anything but the first allocation fails, it
  calls \<open>proxy_free\<close>, which uses what has not been set up.\<close>

lemma mutex_init_new: "mutex_init s None = (r, m, s') \<Longrightarrow> (m = None \<longleftrightarrow> r \<noteq> 0) \<and> r \<le> 0"
  by (auto simp: mutex_init_def Let_def os_try_def split: prod.splits if_splits list.splits)

lemma proxy_close_undefined:
  "pp_reg_service priv = None \<or> pp_usable_clients_mutex priv = None \<or> pp_idle_workers_mutex priv = None \<Longrightarrow>
   proxy_close s sys priv = None"
  by (cases "pp_reg_service priv")
     (auto simp: proxy_close_def proxy_shutdown_def proxy_update_registration_def split: prod.splits)

lemma registration_init_new: "registration_service_init s None = (0, Some rs, s') \<Longrightarrow> rp_reg_suffix rs = None"
  by (auto simp: registration_service_init_def registration_init_exit_def new_reg_priv_def Let_def split: prod.splits if_splits)

lemma init_parts_live:
  assumes run: "init_parts s conf (new_proxy_priv :: 're proxy_priv) = (r, conf', priv', s')"
  shows "if r = 0
    then live s' = live s + proxy_blocks priv' - 1 \<and> resting priv' \<and> closed_service priv' \<and> pp_idle_workers priv' = [] \<and>
      (\<forall>rs. pp_reg_service priv' = Some rs \<longrightarrow> rp_reg_suffix rs = None) \<and> conf' = snd (conf_init conf)
    else r < 0 \<and> (pp_reg_service priv' = None \<or> pp_usable_clients_mutex priv' = None \<or> pp_idle_workers_mutex priv' = None)"
proof -
  obtain r1 log s1 where 1: "log_init s zero_log = (r1, log, s1)" by (metis prod_cases3)
  obtain r2 conn s2 where 2: "conn_init s1 (new_conn\<lparr>c_type := CONN_TYPE_TCP\<rparr>) = (r2, conn, s2)" by (metis prod_cases3)
  obtain r3 rs s3 where 3: "registration_service_init s2 None = (r3, rs, s3)" by (metis prod_cases3)
  obtain r4 m4 s4 where 4: "mutex_init s3 None = (r4, m4, s4)" by (metis prod_cases3)
  obtain r5 m5 s5 where 5: "mutex_init s4 None = (r5, m5, s5)" by (metis prod_cases3)
  obtain r6 m6 s6 where 6: "mutex_init s5 None = (r6, m6, s6)" by (metis prod_cases3)
  note f1 = log_init_live [OF 1] log_init_ok [of s zero_log log s1 False]
    and f2 = conn_init_managed [OF 2] and f3 = registration_init_managed [OF 3] registration_init_new
    and new = mutex_init_new [OF 4] mutex_init_new [OF 5] mutex_init_new [OF 6]
    and blk = mutex.init_blocks [OF 4] mutex.init_blocks [OF 5] mutex.init_blocks [OF 6]
  let ?p = "new_proxy_priv :: 're proxy_priv"
  let ?q = "?p\<lparr>pp_log := log, pp_conn_listen := conn, pp_reg_service := rs, pp_usable_clients_mutex := m4,
    pp_idle_clients_mutex := m5, pp_idle_workers_mutex := m6\<rparr>"
  have run': "(r, conf', priv', s') =
      (if r1 < 0 then (r1, conf, ?p\<lparr>pp_log := log\<rparr>, s1)
       else if r2 < 0 then (r2, snd (conf_init conf), ?p\<lparr>pp_log := log, pp_conn_listen := conn\<rparr>, s2)
       else if r3 < 0 then (r3, snd (conf_init conf), ?p\<lparr>pp_log := log, pp_conn_listen := conn, pp_reg_service := rs\<rparr>, s3)
       else if r4 < 0 then (r4, snd (conf_init conf), ?p\<lparr>pp_log := log, pp_conn_listen := conn, pp_reg_service := rs,
         pp_usable_clients_mutex := m4\<rparr>, s4)
       else if r5 < 0 then (r5, snd (conf_init conf), ?p\<lparr>pp_log := log, pp_conn_listen := conn, pp_reg_service := rs,
         pp_usable_clients_mutex := m4, pp_idle_clients_mutex := m5\<rparr>, s5)
       else (r6, snd (conf_init conf), ?q, s6))"
    using run 1 2 3 4 5 6
    by (simp add: init_parts_def new_proxy_priv_def conf_init_def Let_def split del: if_split cong: if_cong)
  have none: "pp_reg_service ?p = None" "pp_usable_clients_mutex ?p = None" "pp_idle_workers_mutex ?p = None"
    by (simp_all add: new_proxy_priv_def)
  have le: "r1 \<le> 0" "r2 \<le> 0" "r3 \<le> 0" "r4 \<le> 0" "r5 \<le> 0" "r6 \<le> 0" "r3 \<noteq> 0 \<Longrightarrow> rs = None" "r4 \<noteq> 0 \<Longrightarrow> m4 = None"
    "r6 \<noteq> 0 \<Longrightarrow> m6 = None"
    using f1(1) f2 f3(1) new by (auto simp: zero_log_def)
  have good: ?thesis if ok: "r1 = 0" "r2 = 0" "r3 = 0" "r4 = 0" "r5 = 0" "r6 = 0" "r = 0" "priv' = ?q" "s' = s6"
    "conf' = snd (conf_init conf)"
  proof -
    have "live s6 = live s + log_blocks log + conn_blocks conn + reg_blocks rs + handle_blocks m4 + handle_blocks m5 + handle_blocks m6"
      using f1(1) f2 f3(1) blk by (simp add: zero_log_def conn_blocks_def new_conn_def handle_blocks_def)
    moreover have "\<exists>lp. lh_priv log = Some lp \<and> lp_fp lp = None"
      using 1 ok(1) by (auto simp: log_init_def Let_def split: if_splits prod.splits)
    moreover have "c_priv conn \<noteq> None"
      using f2 ok(2) conn_closed_fds by blast
    ultimately show ?thesis
      using ok f3 3 new
      by (auto simp: new_proxy_priv_def proxy_blocks_def resting_def base_ok_def closed_service_def opt_block_def regex_blocks_def)
  qed
  consider "r1 < 0" | "\<not> r1 < 0" "r2 < 0" | "\<not> r1 < 0" "\<not> r2 < 0" "r3 < 0"
    | "\<not> r1 < 0" "\<not> r2 < 0" "\<not> r3 < 0" "r4 < 0" | "\<not> r1 < 0" "\<not> r2 < 0" "\<not> r3 < 0" "\<not> r4 < 0" "r5 < 0 \<or> r6 < 0"
    | "\<not> r1 < 0" "\<not> r2 < 0" "\<not> r3 < 0" "\<not> r4 < 0" "\<not> r5 < 0" "\<not> r6 < 0"
    by blast
  then show ?thesis
  proof cases
    case 5
    then show ?thesis
      using run' le none by (cases "r5 < 0") simp_all
  next
    case 6
    then show ?thesis
      using run' le by (intro good) simp_all
  qed (use run' le none in simp_all)
qed

end
