(* ===== verification/ProxyRelay.thy ===== *)
theory ProxyRelay
  imports ProxyConn
begin

text \<open>
  What passes through a slot (src/proxy_conn.c, the definitions are in theory ProxyConn).

  Towards the network: the data of a message reaches its destination in pieces of at most 4096
  bytes and in order, and the next message of the client is read from where this one ends, whatever
  fails on the network side.  Towards the client: a forwarder turns what its socket delivers into
  messages, one per datagram or segment, in order.  \<open>serve_step\<close> interleaves the client's messages
  with the turns of the three forwarders; as every message is sent whole under
  \<open>mutex_client_send\<close>, the client always gets a sequence of complete messages.
\<close>

section \<open>Specification\<close>

text \<open>A list cut into pieces of \<open>n\<close> elements.\<close>

function chunks :: "nat \<Rightarrow> 'a list \<Rightarrow> 'a list list" where
  "chunks n xs = (if n = 0 \<or> xs = [] then [] else take n xs # chunks n (drop n xs))"
  by pat_completeness auto

termination
  by (relation "measure (\<lambda>(n, xs). length xs)") auto

text \<open>The messages that a forwarder makes of what its socket delivers.\<close>

definition fwd_msg :: "PROXY_MSG_TYPE \<Rightarrow> u32 \<Rightarrow> bytes \<Rightarrow> proxy_msg \<times> bytes" where
  "fwd_msg ty addr d = (\<lparr>msg_type = type_byte ty, msg_address = addr, msg_size = of_nat (length d)\<rparr>, d)"

fun fwd_msgs :: "PROXY_MSG_TYPE \<Rightarrow> bool \<Rightarrow> rx_event list \<Rightarrow> (proxy_msg \<times> bytes) list" where
  "fwd_msgs ty udp (RxDgram a d # rx) =
     (if d = [] then []
      else fwd_msg ty (if udp then fst (sin_of a) else 0) (take CONN_BUFF_LEN_HEADERLESS d) # fwd_msgs ty udp rx)"
| "fwd_msgs ty udp (RxData d # rx) =
     (if d = [] then [] else map (fwd_msg ty 0) (chunks CONN_BUFF_LEN_HEADERLESS d) @ fwd_msgs ty udp rx)"
| "fwd_msgs ty udp _ = []"

text \<open>The events of a socket of the kind: datagrams come with their source, a stream without.\<close>

definition kind_ok :: "bool \<Rightarrow> rx_event list \<Rightarrow> bool" where
  "kind_ok udp rx \<longleftrightarrow> (if udp then (\<forall>d. RxData d \<notin> set rx) else no_dgram rx)"

text \<open>A connection of the slot that is open and can be used in both directions, and connections
  that do not share a descriptor.\<close>

definition open_conn :: "os \<Rightarrow> conn_handle \<Rightarrow> sock \<Rightarrow> bool" where
  "open_conn s conn k \<longleftrightarrow>
     cp_fd (cpriv conn) \<noteq> - 1 \<and> socks s (cp_fd (cpriv conn)) = Some k \<and> \<not> sk_shut k \<and> sk_tx k = []"

definition apart :: "conn_handle \<Rightarrow> conn_handle \<Rightarrow> bool" where
  "apart client conn \<longleftrightarrow>
     c_priv conn \<noteq> None \<and> cp_fd (cpriv client) \<notin> conn_fds conn \<and> cp_fd (cpriv conn) \<noteq> cp_fd (cpriv client)"

text \<open>A slot that serves a client whose connection is good.\<close>

definition serving :: "os \<Rightarrow> proxy_conn_priv \<Rightarrow> conn_handle \<Rightarrow> sock \<Rightarrow> bool" where
  "serving s priv client k \<longleftrightarrow>
     os_wf s \<and> slot_ready priv \<and> pv_conn_client priv = Some client \<and> conn_good s client k \<and>
     apart client (pv_conn_control priv) \<and> apart client (pv_conn_data priv) \<and> apart client (pv_conn_tcp priv)"

text \<open>The state of a slot in service that has written only complete messages after \<open>w\<close>.\<close>

definition wrote :: "os \<Rightarrow> proxy_conn_priv \<Rightarrow> conn_handle \<Rightarrow> bytes \<Rightarrow> bool" where
  "wrote s priv client w \<longleftrightarrow>
     (\<exists>k ms. serving s priv client k \<and> sk_wire k = w @ frames ms \<and> (\<forall>m \<in> set ms. sized m))"

text \<open>The interleaving of the client's messages with the forwarders, until the client is dropped: a
  message of the client, a turn of a forwarder, and the end of a forwarder.  What a step does is
  atomic for the client because \<open>mutex_client_send\<close> is held for every message.\<close>

inductive serve_step :: "proxy_conn_priv \<times> os \<Rightarrow> proxy_conn_priv \<times> os \<Rightarrow> bool" where
  message: "proxy_conn_process s priv = (r, priv', s') \<Longrightarrow> serve_step (priv, s) (priv', s')"
| control: "forward_turn PROXY_MSG_TYPE_UDP_CONTROL True s (pv_conn_control priv) (the (pv_conn_client priv)) = (None, conn, s') \<Longrightarrow>
    serve_step (priv, s) (priv\<lparr>pv_conn_control := conn\<rparr>, s')"
| data: "forward_turn PROXY_MSG_TYPE_UDP_DATA True s (pv_conn_data priv) (the (pv_conn_client priv)) = (None, conn, s') \<Longrightarrow>
    serve_step (priv, s) (priv\<lparr>pv_conn_data := conn\<rparr>, s')"
| tcp: "forward_turn PROXY_MSG_TYPE_TCP_DATA False s (pv_conn_tcp priv) (the (pv_conn_client priv)) = (None, conn, s') \<Longrightarrow>
    serve_step (priv, s) (priv\<lparr>pv_conn_tcp := conn\<rparr>, s')"
| control_end: "forward_turn PROXY_MSG_TYPE_UDP_CONTROL True s (pv_conn_control priv) (the (pv_conn_client priv)) =
      (Some (RecvError e), conn, s1) \<Longrightarrow> benign e \<Longrightarrow> conn_close s1 conn = (conn', s') \<Longrightarrow>
    serve_step (priv, s) (priv\<lparr>pv_conn_control := conn'\<rparr>, s')"
| data_end: "forward_turn PROXY_MSG_TYPE_UDP_DATA True s (pv_conn_data priv) (the (pv_conn_client priv)) =
      (Some (RecvError e), conn, s1) \<Longrightarrow> benign e \<Longrightarrow> conn_close s1 conn = (conn', s') \<Longrightarrow>
    serve_step (priv, s) (priv\<lparr>pv_conn_data := conn'\<rparr>, s')"
| tcp_end: "forward_turn PROXY_MSG_TYPE_TCP_DATA False s (pv_conn_tcp priv) (the (pv_conn_client priv)) =
      (Some (RecvError e), conn, s1) \<Longrightarrow> conn_close s1 conn = (conn', s2) \<Longrightarrow>
    send_tcp_close s2 (priv\<lparr>pv_conn_tcp := conn'\<rparr>) = (r, s') \<Longrightarrow>
    serve_step (priv, s) (priv\<lparr>pv_conn_tcp := conn'\<rparr>, s')"

inductive_cases serve_stepE [consumes 1, case_names message control data tcp control_end data_end tcp_end]:
  "serve_step (priv, s) (priv', s')"

text \<open>One turn as a relation, to count the turns.\<close>

definition turns :: "PROXY_MSG_TYPE \<Rightarrow> bool \<Rightarrow> conn_handle \<Rightarrow> os \<times> conn_handle \<Rightarrow> os \<times> conn_handle \<Rightarrow> bool" where
  "turns ty udp client a b \<longleftrightarrow> (case a of (s, conn) \<Rightarrow> case b of (s', conn') \<Rightarrow>
     forward_turn ty udp s conn client = (None, conn', s'))"

text \<open>The messages the proxy itself sends.\<close>

definition close_msg :: "proxy_msg \<times> bytes" where
  "close_msg = (\<lparr>msg_type = type_byte PROXY_MSG_TYPE_TCP_CLOSE, msg_address = 0, msg_size = 0\<rparr>, [])"

definition status_msg :: "int \<Rightarrow> proxy_msg \<times> bytes" where
  "status_msg ret =
     (\<lparr>msg_type = type_byte PROXY_MSG_TYPE_TCP_STATUS, msg_address = 0, msg_size = 4\<rparr>, le32_bytes (of_int ret))"

text \<open>A slot in service, for the witnesses.\<close>

definition wit_udp :: "int \<Rightarrow> conn_handle" where
  "wit_udp fd = with_priv (wit_closed CONN_TYPE_UDP) ((cpriv (wit_closed CONN_TYPE_UDP))\<lparr>cp_sock_fd := fd, cp_fd := fd\<rparr>)"

definition wit_tcp :: "int \<Rightarrow> conn_handle" where
  "wit_tcp fd = with_priv (wit_closed CONN_TYPE_TCP) ((cpriv (wit_closed CONN_TYPE_TCP))\<lparr>cp_sock_fd := fd, cp_fd := fd\<rparr>)"

definition wit_service :: proxy_conn_priv where
  "wit_service = wit_slot\<lparr>pv_conn_client := Some wit_client_conn, pv_conn_control := wit_udp 4, pv_conn_data := wit_udp 5,
     pv_conn_tcp := wit_tcp 6\<rparr>"

definition wit_service_os :: "sock \<Rightarrow> sock \<Rightarrow> os" where
  "wit_service_os k kt = \<lparr>script = [], live = 2, threads = 0, next_fd = 7,
     socks = [3 \<mapsto> k, 4 \<mapsto> no_peer, 5 \<mapsto> no_peer, 6 \<mapsto> kt], peers = []\<rparr>"

section \<open>Lemmas\<close>

declare chunks.simps [simp del] relay_udp.simps [simp del] relay_tcp.simps [simp del] forward_loop.simps [simp del]

lemma chunks_short: "xs \<noteq> [] \<Longrightarrow> length xs \<le> n \<Longrightarrow> chunks n xs = [xs]"
  by (subst chunks.simps) (auto simp: chunks.simps [of n "[]"] neq_Nil_conv)

lemma chunks_Nil [simp]: "chunks n [] = []"
  by (simp add: chunks.simps)

lemma chunks_step: "0 < n \<Longrightarrow> xs \<noteq> [] \<Longrightarrow> chunks n xs = take n xs # chunks n (drop n xs)"
  by (simp add: chunks.simps [of n xs])

lemma concat_chunks: "0 < n \<Longrightarrow> concat (chunks n xs) = xs"
proof (induction n xs rule: chunks.induct)
  case (1 n xs)
  then show ?case
    by (cases "xs = []") (simp_all add: chunks_step)
qed

lemma chunks_length: "c \<in> set (chunks n xs) \<Longrightarrow> length c \<le> n \<and> c \<noteq> []"
proof (induction n xs rule: chunks.induct)
  case (1 n xs)
  then show ?case
    by (cases "n = 0 \<or> xs = []") (auto simp: chunks.simps [of n xs])
qed

lemma conn_good_other: "conn_good s c k \<Longrightarrow> only_fd fd s s' \<Longrightarrow> fd \<noteq> cp_fd (cpriv c) \<Longrightarrow> conn_good s' c k"
  by (simp add: conn_good_def conn_up_def only_fd_def)

lemma conn_good_close:
  assumes "conn_good s client k" and "apart client conn" and "conn_close s conn = (conn', s')"
  shows "conn_good s' client k" and "apart client conn'" and "cp_fd (cpriv conn') = - 1"
proof -
  obtain priv where p: "c_priv conn = Some priv"
    using assms(2) by (auto simp: apart_def)
  note f = conn_close_frame [OF p assms(3)]
  show "conn_good s' client k"
    using assms(1,2) f(2) by (simp add: conn_good_def conn_up_def apart_def)
  show "cp_fd (cpriv conn') = - 1"
    using f(1) by simp
  show "apart client conn'"
    using f(1) assms(1) by (simp add: apart_def conn_fds_def conn_good_def conn_up_def)
qed

lemma conn_close_closed:
  assumes "conn_closed conn"
  shows "conn_close s conn = (conn, s)"
proof -
  obtain priv where p: "c_priv conn = Some priv" "cp_sock_fd priv = - 1" "cp_conn_fd priv = - 1" "cp_fd priv = - 1"
    using conn_closed_priv [OF assms] by blast
  have "with_priv conn (priv\<lparr>cp_fd := - 1\<rparr>) = conn"
    using p by (cases conn; cases priv) simp
  then show ?thesis
    using p by (simp add: conn_close_def conn_shutdown_def Let_def)
qed

lemma conn_close_wf: "conn_close s conn = (conn', s') \<Longrightarrow> os_wf s \<Longrightarrow> c_priv conn \<noteq> None \<Longrightarrow> os_wf s'"
  using conn_close_frame(2,5) [of conn _ s conn' s'] by (auto simp: os_wf_def split: if_splits)

text \<open>One piece of a relayed message.\<close>

lemma relay_piece:
  assumes "conn_good s client k" and "sk_stream k = x @ y" and "x \<noteq> []"
  obtains s1 k1 where "conn_recv s client (min CONN_BUFF_LEN (length x)) =
      (int (length (take CONN_BUFF_LEN x)), take CONN_BUFF_LEN x, s1)"
    and "conn_good s1 client k1" and "sk_stream k1 = drop CONN_BUFF_LEN x @ y" and "sk_wire k1 = sk_wire k"
    and "only_fd (cp_fd (cpriv client)) s s1"
proof -
  have "sk_stream k = take 4096 x @ drop 4096 x @ y"
    using assms(2) by simp
  from conn_good_recv [OF assms(1) this] obtain s1 k1 where
    "conn_recv s client (length (take 4096 x)) = (int (length (take 4096 x)), take 4096 x, s1)"
    "conn_good s1 client k1" "sk_stream k1 = drop 4096 x @ y" "sk_wire k1 = sk_wire k"
    by auto
  moreover have "length (take 4096 x) = min 4096 (length x)"
    by simp
  ultimately show ?thesis
    using that [of s1 k1] conn_transfer_only(1) by metis
qed

lemma relay_udp_step:
  assumes "conn_recv s client (min CONN_BUFF_LEN (length x)) =
      (int (length (take CONN_BUFF_LEN x)), take CONN_BUFF_LEN x, s1)"
    and "x \<noteq> []" and "conn_send_to s1 out (take CONN_BUFF_LEN x) a p = (r, s2)"
  shows "relay_udp s client out (length x) a p = relay_udp s2 client out (length (drop CONN_BUFF_LEN x)) a p"
proof -
  have m: "(if length x > 4096 then 4096 else length x) = min 4096 (length x)"
    and d: "length x - min (length x) 4096 = length x - 4096"
    by simp_all
  have z: "min (length x) 4096 \<noteq> 0"
    using assms(2) by (simp add: min_def)
  show ?thesis
    using assms d by (subst relay_udp.simps) (simp add: m z Let_def)
qed

text \<open>Reading stays in step with the client, whatever happens to the datagrams.\<close>

lemma relay_udp_sync:
  assumes "conn_good s client k" and "sk_stream k = x @ y" and "cp_fd (cpriv out) \<noteq> cp_fd (cpriv client)" and "os_wf s"
  shows "\<exists>s' k'. relay_udp s client out (length x) a p = (0, s') \<and> conn_good s' client k' \<and>
    sk_stream k' = y \<and> sk_wire k' = sk_wire k \<and> os_wf s'"
  using assms
proof (induction x arbitrary: s k rule: length_induct)
  case (1 x)
  show ?case
  proof (cases "x = []")
    case True
    with 1 show ?thesis
      by (auto simp: relay_udp.simps)
  next
    case False
    obtain s1 k1 where p1: "conn_recv s client (min 4096 (length x)) = (int (length (take 4096 x)), take 4096 x, s1)"
      "conn_good s1 client k1" "sk_stream k1 = drop 4096 x @ y" "sk_wire k1 = sk_wire k" "only_fd (cp_fd (cpriv client)) s s1"
      using relay_piece [OF 1(2,3) False] by metis
    obtain r s2 where s2: "conn_send_to s1 out (take 4096 x) a p = (r, s2)"
      by (metis surj_pair)
    have g: "conn_good s2 client k1"
      using conn_good_other [OF p1(2) conn_transfer_only(3) [OF s2] 1(4)] .
    have "os_wf s2"
      using only_fd_wf [OF conn_transfer_only(3) [OF s2]] only_fd_wf [OF p1(5) 1(5)] .
    moreover have "length (drop 4096 x) < length x"
      using False by simp
    ultimately obtain s' k' where
      "relay_udp s2 client out (length (drop 4096 x)) a p = (0, s')" "conn_good s' client k'" "sk_stream k' = y"
      "sk_wire k' = sk_wire k1" "os_wf s'"
      using 1(1) [rule_format, of "drop 4096 x" s2 k1] g p1(3) 1(4) by blast
    then show ?thesis
      using relay_udp_step [OF p1(1) False s2] p1(4) by auto
  qed
qed

text \<open>When the network takes them, the datagrams are the pieces of the data.\<close>

lemma relay_udp_good:
  assumes "conn_good s client k" and "sk_stream k = x @ y"
    and "c_type out = CONN_TYPE_UDP" and "open_conn s out ko" and "cp_fd (cpriv out) \<noteq> cp_fd (cpriv client)"
  shows "\<exists>s'. relay_udp s client out (length x) a p = (0, s') \<and>
    open_conn s' out (ko\<lparr>sk_dgrams := sk_dgrams ko @ map (\<lambda>d. (a, htons p, d)) (chunks CONN_BUFF_LEN x)\<rparr>)"
  using assms
proof (induction x arbitrary: s k ko rule: length_induct)
  case (1 x)
  show ?case
  proof (cases "x = []")
    case True
    have "ko\<lparr>sk_dgrams := sk_dgrams ko\<rparr> = ko"
      by simp
    with True 1(5) show ?thesis
      by (auto simp: relay_udp.simps)
  next
    case False
    obtain s1 k1 where p1: "conn_recv s client (min 4096 (length x)) = (int (length (take 4096 x)), take 4096 x, s1)"
      "conn_good s1 client k1" "sk_stream k1 = drop 4096 x @ y" "only_fd (cp_fd (cpriv client)) s s1"
      using relay_piece [OF 1(2,3) False] by metis
    define ko1 where "ko1 = ko\<lparr>sk_dgrams := sk_dgrams ko @ [(a, htons p, take 4096 x)]\<rparr>"
    define s2 where "s2 = set_sock s1 (cp_fd (cpriv out)) ko1"
    have "socks s1 (cp_fd (cpriv out)) = Some ko"
      using 1(5,6) p1(4) by (simp add: open_conn_def only_fd_def)
    then have s2: "conn_send_to s1 out (take 4096 x) a p = (0, s2)"
      using conn_send_to_loop_all [of s1 "cp_fd (cpriv out)" ko "take 4096 x" a "htons p"] 1(4,5) False
      by (simp add: conn_send_to_def Let_def open_conn_def s2_def ko1_def)
    have g: "conn_good s2 client k1"
      using conn_good_other [OF p1(2) conn_transfer_only(3) [OF s2] 1(6)] .
    moreover have "open_conn s2 out ko1"
      using 1(5) by (simp add: open_conn_def s2_def ko1_def)
    moreover have "length (drop 4096 x) < length x"
      using False by simp
    ultimately obtain s' where "relay_udp s2 client out (length (drop 4096 x)) a p = (0, s')"
      "open_conn s' out (ko1\<lparr>sk_dgrams := sk_dgrams ko1 @ map (\<lambda>d. (a, htons p, d)) (chunks 4096 (drop 4096 x))\<rparr>)"
      using 1(1) [rule_format, of "drop 4096 x" s2 k1 ko1] p1(3) 1(4,6) by auto
    then show ?thesis
      using relay_udp_step [OF p1(1) False s2] False by (simp add: ko1_def chunks_step)
  qed
qed

text \<open>The same for the TCP connection: \<open>tcp_ret\<close> stays 0 as long as the remote host takes the data.\<close>

lemma relay_tcp_step:
  assumes "conn_recv s client (min CONN_BUFF_LEN (length x)) =
      (int (length (take CONN_BUFF_LEN x)), take CONN_BUFF_LEN x, s1)"
    and "x \<noteq> []"
    and "(if tr = 0
        then case conn_send s1 tcp (take CONN_BUFF_LEN x) of (tr, s) \<Rightarrow>
          if tr < 0 then (case conn_close s tcp of (tcp, s) \<Rightarrow> (tr, tcp, s)) else (tr, tcp, s)
        else (tr, tcp, s1)) = (tr2, tcp2, s2)"
  shows "relay_tcp s client tcp (length x) tr = relay_tcp s2 client tcp2 (length (drop CONN_BUFF_LEN x)) tr2"
proof -
  have m: "(if length x > 4096 then 4096 else length x) = min 4096 (length x)"
    and d: "length x - min (length x) 4096 = length x - 4096"
    by simp_all
  have z: "min (length x) 4096 \<noteq> 0"
    using assms(2) by (simp add: min_def)
  show ?thesis
    using assms d by (subst relay_tcp.simps) (simp add: m z Let_def)
qed

lemma relay_tcp_sync:
  assumes "conn_good s client k" and "sk_stream k = x @ y" and "apart client tcp" and "os_wf s"
  shows "\<exists>tr' tcp' s' k'. relay_tcp s client tcp (length x) tr = (0, tr', tcp', s') \<and> conn_good s' client k' \<and>
    sk_stream k' = y \<and> sk_wire k' = sk_wire k \<and> apart client tcp' \<and> os_wf s'"
  using assms
proof (induction x arbitrary: s k tcp tr rule: length_induct)
  case (1 x)
  show ?case
  proof (cases "x = []")
    case True
    with 1 show ?thesis
      by (auto simp: relay_tcp.simps)
  next
    case False
    obtain s1 k1 where p1: "conn_recv s client (min 4096 (length x)) = (int (length (take 4096 x)), take 4096 x, s1)"
      "conn_good s1 client k1" "sk_stream k1 = drop 4096 x @ y" "sk_wire k1 = sk_wire k" "only_fd (cp_fd (cpriv client)) s s1"
      using relay_piece [OF 1(2,3) False] by metis
    obtain tr2 tcp2 s2 where s2: "(if tr = 0
        then case conn_send s1 tcp (take 4096 x) of (tr, s) \<Rightarrow>
          if tr < 0 then (case conn_close s tcp of (tcp, s) \<Rightarrow> (tr, tcp, s)) else (tr, tcp, s)
        else (tr, tcp, s1)) = (tr2, tcp2, s2)"
      by (rule prod_cases3)
    obtain r s1' where snd: "conn_send s1 tcp (take 4096 x) = (r, s1')"
      by (metis surj_pair)
    have fd: "cp_fd (cpriv tcp) \<noteq> cp_fd (cpriv client)"
      using 1(4) by (simp add: apart_def)
    have g1: "conn_good s1' client k1"
      using conn_good_other [OF p1(2) conn_transfer_only(2) [OF snd] fd] .
    have wf: "os_wf s1" "os_wf s1'"
      using only_fd_wf [OF p1(5) 1(5)] only_fd_wf [OF conn_transfer_only(2) [OF snd]] by blast+
    have g: "conn_good s2 client k1 \<and> apart client tcp2 \<and> os_wf s2"
      using s2 snd p1(2) g1 1(4) conn_good_close [OF g1 1(4)] conn_close_wf [OF _ wf(2), of tcp] wf
      by (auto simp: apart_def split: if_splits prod.splits)
    have "length (drop 4096 x) < length x"
      using False by simp
    with 1(1) [rule_format, of "drop 4096 x" s2 k1 tcp2 tr2] g p1(3) obtain tr' tcp' s' k' where
      "relay_tcp s2 client tcp2 (length (drop 4096 x)) tr2 = (0, tr', tcp', s')" "conn_good s' client k'"
      "sk_stream k' = y" "sk_wire k' = sk_wire k1" "apart client tcp'" "os_wf s'"
      by blast
    then show ?thesis
      using relay_tcp_step [OF p1(1) False s2] p1(4) by auto
  qed
qed

lemma relay_tcp_skip:
  assumes "conn_good s client k" and "sk_stream k = x @ y" and "tr \<noteq> 0" and "os_wf s"
  shows "\<exists>s' k'. relay_tcp s client tcp (length x) tr = (0, tr, tcp, s') \<and> conn_good s' client k' \<and>
    sk_stream k' = y \<and> sk_wire k' = sk_wire k \<and> os_wf s'"
  using assms
proof (induction x arbitrary: s k rule: length_induct)
  case (1 x)
  show ?case
  proof (cases "x = []")
    case True
    with 1 show ?thesis
      by (auto simp: relay_tcp.simps)
  next
    case False
    obtain s1 k1 where p1: "conn_recv s client (min 4096 (length x)) = (int (length (take 4096 x)), take 4096 x, s1)"
      "conn_good s1 client k1" "sk_stream k1 = drop 4096 x @ y" "sk_wire k1 = sk_wire k" "only_fd (cp_fd (cpriv client)) s s1"
      using relay_piece [OF 1(2,3) False] by metis
    have "length (drop 4096 x) < length x"
      using False by simp
    with 1(1) [rule_format, of "drop 4096 x" s1 k1] p1(2,3) 1(4) only_fd_wf [OF p1(5) 1(5)] obtain s' k' where
      "relay_tcp s1 client tcp (length (drop 4096 x)) tr = (0, tr, tcp, s')" "conn_good s' client k'"
      "sk_stream k' = y" "sk_wire k' = sk_wire k1" "os_wf s'"
      by blast
    then show ?thesis
      using relay_tcp_step [OF p1(1) False, of tr tcp tr tcp s1] p1(4) 1(4) by auto
  qed
qed

text \<open>A message for a remote host that is gone.\<close>

lemma relay_tcp_gone:
  assumes "conn_good s client k" and "sk_stream k = x @ y" and "x \<noteq> []" and "conn_closed tcp"
    and "c_type tcp = CONN_TYPE_TCP" and "os_wf s"
  shows "\<exists>s' k'. relay_tcp s client tcp (length x) 0 = (0, - ENOTCONN, tcp, s') \<and> conn_good s' client k' \<and>
    sk_stream k' = y \<and> sk_wire k' = sk_wire k \<and> os_wf s'"
proof -
  obtain s1 k1 where p1: "conn_recv s client (min 4096 (length x)) = (int (length (take 4096 x)), take 4096 x, s1)"
    "conn_good s1 client k1" "sk_stream k1 = drop 4096 x @ y" "sk_wire k1 = sk_wire k" "only_fd (cp_fd (cpriv client)) s s1"
    using relay_piece [OF assms(1-3)] by metis
  have "conn_send s1 tcp (take 4096 x) = (- 107, s1)"
    using conn_closed_priv [OF assms(4)] assms(5) by (auto simp: conn_send_def)
  then have "relay_tcp s client tcp (length x) 0 = relay_tcp s1 client tcp (length (drop 4096 x)) (- 107)"
    using relay_tcp_step [OF p1(1) assms(3), of 0 tcp "- 107" tcp s1] conn_close_closed [OF assms(4)] by simp
  then show ?thesis
    using relay_tcp_skip [OF p1(2,3), of "- 107" tcp] only_fd_wf [OF p1(5) assms(6)] p1(4) by auto
qed

lemma relay_tcp_good:
  assumes "conn_good s client k" and "sk_stream k = x @ y" and "conn_good s tcp kt" and "apart client tcp"
  shows "\<exists>s' kt'. relay_tcp s client tcp (length x) 0 = (0, 0, tcp, s') \<and>
    conn_good s' tcp kt' \<and> sk_wire kt' = sk_wire kt @ x"
  using assms
proof (induction x arbitrary: s k kt rule: length_induct)
  case (1 x)
  show ?case
  proof (cases "x = []")
    case True
    with 1 show ?thesis
      by (auto simp: relay_tcp.simps)
  next
    case False
    obtain s1 k1 where p1: "conn_recv s client (min 4096 (length x)) = (int (length (take 4096 x)), take 4096 x, s1)"
      "conn_good s1 client k1" "sk_stream k1 = drop 4096 x @ y" "only_fd (cp_fd (cpriv client)) s s1"
      using relay_piece [OF 1(2,3) False] by metis
    have fd: "cp_fd (cpriv tcp) \<noteq> cp_fd (cpriv client)"
      using 1(5) by (simp add: apart_def)
    have "conn_good s1 tcp kt"
      using conn_good_other [OF 1(4) p1(4)] fd by simp
    from conn_good_send [OF this, of "take 4096 x"] obtain s2 where
      s2: "conn_send s1 tcp (take 4096 x) = (0, s2)" "conn_good s2 tcp (kt\<lparr>sk_wire := sk_wire kt @ take 4096 x\<rparr>)"
      by blast
    have g: "conn_good s2 client k1"
      using conn_good_other [OF p1(2) conn_transfer_only(2) [OF s2(1)] fd] .
    have "length (drop 4096 x) < length x"
      using False by simp
    with 1(1) [rule_format, of "drop 4096 x" s2 k1 "kt\<lparr>sk_wire := sk_wire kt @ take 4096 x\<rparr>"] g s2(2) p1(3) 1(5)
    obtain s' kt' where
      "relay_tcp s2 client tcp (length (drop 4096 x)) 0 = (0, 0, tcp, s')" "conn_good s' tcp kt'"
      "sk_wire kt' = sk_wire (kt\<lparr>sk_wire := sk_wire kt @ take 4096 x\<rparr>) @ drop 4096 x"
      by blast
    then show ?thesis
      using relay_tcp_step [OF p1(1) False, of 0 tcp 0 tcp s2] s2(1) by auto
  qed
qed

section \<open>Messages of the client\<close>

lemma sized_close [simp]: "sized close_msg" and sized_status [simp]: "sized (status_msg r)"
  by (simp_all add: close_msg_def status_msg_def sized_def)

lemma send_tcp_close_good:
  assumes "serving s priv client k"
  shows "\<exists>s'. send_tcp_close s priv = (0, s') \<and>
    serving s' priv client (k\<lparr>sk_wire := sk_wire k @ frames [close_msg]\<rparr>)"
proof -
  have "conn_good s client k" "pv_conn_client priv = Some client"
    using assms by (simp_all add: serving_def)
  moreover from conn_good_send [OF this(1), of "frames [close_msg]"] obtain s' where
    s': "conn_send s client (frames [close_msg]) = (0, s')"
    "conn_good s' client (k\<lparr>sk_wire := sk_wire k @ frames [close_msg]\<rparr>)"
    by blast
  ultimately show ?thesis
    using assms only_fd_wf [OF conn_transfer_only(2) [OF s'(1)]]
    by (auto simp: send_tcp_close_def close_msg_def serving_def)
qed

lemma process_udp_sync:
  assumes "serving s priv client k" and "sk_stream k = d @ rest" and "sized (msg, d)"
  shows "\<exists>s' k'. process_data_message s priv msg = (0, s') \<and> serving s' priv client k' \<and> sk_stream k' = rest \<and>
      sk_wire k' = sk_wire k"
    and "\<exists>s' k'. process_control_data_message s priv msg = (0, s') \<and> serving s' priv client k' \<and> sk_stream k' = rest \<and>
      sk_wire k' = sk_wire k"
proof -
  have sv: "conn_good s client k" "os_wf s" "pv_conn_client priv = Some client"
    "cp_fd (cpriv (pv_conn_data priv)) \<noteq> cp_fd (cpriv client)" "cp_fd (cpriv (pv_conn_control priv)) \<noteq> cp_fd (cpriv client)"
    and len: "unat (msg_size msg) = length d"
    using assms by (simp_all add: serving_def apart_def sized_def)
  show "\<exists>s' k'. process_data_message s priv msg = (0, s') \<and> serving s' priv client k' \<and> sk_stream k' = rest \<and>
      sk_wire k' = sk_wire k"
    using relay_udp_sync [OF sv(1) assms(2) sv(4,2), of "msg_address msg" 5198] assms(1) sv(3)
    by (auto simp: process_data_message_def len serving_def)
  show "\<exists>s' k'. process_control_data_message s priv msg = (0, s') \<and> serving s' priv client k' \<and> sk_stream k' = rest \<and>
      sk_wire k' = sk_wire k"
    using relay_udp_sync [OF sv(1) assms(2) sv(5,2), of "msg_address msg" 5199] assms(1) sv(3)
    by (auto simp: process_control_data_message_def len serving_def)
qed

lemma serving_tcp: "serving s priv client k \<Longrightarrow> apart client tcp \<Longrightarrow> serving s (priv\<lparr>pv_conn_tcp := tcp\<rparr>) client k"
  by (auto simp: serving_def slot_ready_def apart_def)

lemma serving_cong: "serving s priv client k \<Longrightarrow> conn_good s' client k' \<Longrightarrow> os_wf s' \<Longrightarrow> serving s' priv client k'"
  by (simp add: serving_def)

lemma process_tcp_data_sync:
  assumes "serving s priv client k" and "sk_stream k = d @ rest" and "sized (msg, d)"
  shows "\<exists>priv' s' k' ms. process_tcp_data_message s priv msg = (0, priv', s') \<and> serving s' priv' client k' \<and>
    sk_stream k' = rest \<and> sk_wire k' = sk_wire k @ frames ms \<and> (ms = [] \<or> ms = [close_msg])"
proof -
  have sv: "conn_good s client k" "os_wf s" "pv_conn_client priv = Some client" "apart client (pv_conn_tcp priv)"
    and len: "unat (msg_size msg) = length d"
    using assms by (simp_all add: serving_def sized_def)
  obtain tr tcp s1 k1 where 1: "relay_tcp s client (pv_conn_tcp priv) (length d) 0 = (0, tr, tcp, s1)"
    "conn_good s1 client k1" "sk_stream k1 = rest" "sk_wire k1 = sk_wire k" "apart client tcp" "os_wf s1"
    using relay_tcp_sync [OF sv(1) assms(2) sv(4,2)] by blast
  define p1 where "p1 = priv\<lparr>pv_conn_tcp := tcp\<rparr>"
  have s1: "serving s1 p1 client k1"
    using serving_tcp [OF serving_cong [OF assms(1) 1(2,6)] 1(5)] by (simp add: p1_def)
  show ?thesis
  proof (cases "tr = 0")
    case True
    then have "process_tcp_data_message s priv msg = (0, p1, s1)"
      using 1(1) sv(3) by (simp add: process_tcp_data_message_def len p1_def)
    then show ?thesis
      using s1 1(3,4) by (intro exI [of _ p1] exI [of _ s1] exI [of _ k1] exI [of _ "[]"]) simp
  next
    case False
    obtain s2 where 2: "send_tcp_close s1 p1 = (0, s2)"
      "serving s2 p1 client (k1\<lparr>sk_wire := sk_wire k1 @ frames [close_msg]\<rparr>)"
      using send_tcp_close_good [OF s1] by blast
    have "process_tcp_data_message s priv msg = (0, p1, s2)"
      using 1(1) 2(1) sv(3) False by (simp add: process_tcp_data_message_def len p1_def)
    then show ?thesis
      using 2(2) 1(3,4)
      by (intro exI [of _ p1] exI [of _ s2] exI [of _ "k1\<lparr>sk_wire := sk_wire k1 @ frames [close_msg]\<rparr>"] exI [of _ "[close_msg]"])
         (simp add: conn_good_wire)
  qed
qed

lemma process_tcp_close_sync:
  assumes "serving s priv client k"
  shows "\<exists>priv' s'. process_tcp_close_message s priv = (0, priv', s') \<and> serving s' priv' client k \<and>
    conn_closed (pv_conn_tcp priv')"
proof -
  obtain tcp s1 where c: "conn_close s (pv_conn_tcp priv) = (tcp, s1)"
    by (metis surj_pair)
  have sv: "conn_good s client k" "os_wf s" "apart client (pv_conn_tcp priv)" "c_priv (pv_conn_tcp priv) \<noteq> None"
    using assms by (simp_all add: serving_def slot_ready_def)
  have "serving s1 (priv\<lparr>pv_conn_tcp := tcp\<rparr>) client k"
    using serving_tcp [OF serving_cong [OF assms]] conn_good_close [OF sv(1,3) c] conn_close_wf [OF c sv(2,4)] by blast
  then show ?thesis
    using c conn_closed_close [OF sv(4) c] by (auto simp: process_tcp_close_message_def)
qed

lemma os_socket_fd:
  assumes "same_fds s s1" and "os_socket s1 = (Inr fd, s2)"
  shows "fd = next_fd s"
  using assms by (auto simp: os_socket_def same_fds_def Let_def dest: os_try_keeps split: prod.splits if_splits)

lemma conn_connect_frame:
  assumes l: "conn_connect s conn a p = (r, conn', s')" and c: "c_priv conn \<noteq> None" and wf: "os_wf s"
  shows "os_wf s' \<and> live s' = live s \<and> r \<le> 0 \<and> (\<forall>x. x \<noteq> next_fd s \<longrightarrow> socks s' x = socks s x)"
    and "c_priv conn' \<noteq> None \<and> conn_fds conn' \<subseteq> insert (next_fd s) (conn_fds conn) \<and>
      cp_fd (cpriv conn') \<in> {cp_fd (cpriv conn), next_fd s}"
proof -
  obtain priv where p: "c_priv conn = Some priv"
    using c by auto
  obtain r0 s0 where 0: "os_try s = (r0, s0)" by (metis surj_pair)
  note f0 = same_fds_calls(1) [OF 0]
  obtain r1 s1 where 1: "os_try s0 = (r1, s1)" by (metis surj_pair)
  note f1 = same_fds_try [OF f0 1]
  obtain x s2 where 2: "os_socket s1 = (x, s2)" by (metis surj_pair)
  have same: "os_wf t \<and> live t = live s \<and> (\<forall>x. x \<noteq> next_fd s \<longrightarrow> socks t x = socks s x)" if "same_fds s t" for t
    using that wf by (auto simp: same_fds_def os_wf_def)
  have opn: "os_wf t \<and> live t = live s \<and> (\<forall>x. x \<noteq> next_fd s \<longrightarrow> socks t x = socks s x)" if "opened s (next_fd s) t" for t
    using that by (auto simp: opened_def)
  have "(os_wf s' \<and> live s' = live s \<and> r \<le> 0 \<and> (\<forall>x. x \<noteq> next_fd s \<longrightarrow> socks s' x = socks s x)) \<and>
      (c_priv conn' \<noteq> None \<and> conn_fds conn' \<subseteq> insert (next_fd s) (conn_fds conn) \<and>
      cp_fd (cpriv conn') \<in> {cp_fd (cpriv conn), next_fd s})"
  proof (cases "c_type conn \<noteq> CONN_TYPE_TCP \<or> r0 \<noteq> 0 \<or> r1 \<noteq> 0")
    case True
    with l 0 1 p same [OF same_fds_refl] same [OF f0] same [OF f1] show ?thesis
      by (auto simp: conn_connect_def conn_fds_def split: if_splits)
  next
    case ok: False
    show ?thesis
    proof (cases x)
      case (Inl e)
      with l 0 1 2 p ok same_fds_socket_failed [OF f1, of e s2] same [of s2] show ?thesis
        by (auto simp: conn_connect_def conn_fds_def)
    next
      case (Inr fd)
      have fd: "fd = next_fd s"
        using os_socket_fd [OF f1] 2 Inr by simp
      have f2: "opened s fd s2"
        using opened_socket [OF wf f1] 2 Inr by simp
      obtain r3 s3 where 3: "os_fdcall s2 fd = (r3, s3)" by (metis surj_pair)
      note f3 = opened_fdcall [OF f2 3]
      obtain r4 s4 where 4: "os_fdcall s3 fd = (r4, s4)" by (metis surj_pair)
      note f4 = opened_fdcall [OF conjunct1 [OF f3] 4]
      obtain r5 s5 where 5: "os_fdcall s4 fd = (r5, s5)" by (metis surj_pair)
      note f5 = opened_fdcall [OF conjunct1 [OF f4] 5]
      note o = f3 f4 f5 opened_closed [OF conjunct1 [OF f4]] opened_closed [OF conjunct1 [OF f5]]
      have "opened s fd s' \<and> r \<le> 0"
        using l 0 1 2 3 4 5 Inr ok p o by (auto simp: conn_connect_def Let_def split: if_splits)
      moreover have "c_priv conn' \<noteq> None \<and> conn_fds conn' \<subseteq> insert fd (conn_fds conn) \<and>
          cp_fd (cpriv conn') \<in> {cp_fd (cpriv conn), fd}"
        using l 0 1 2 3 4 5 Inr ok p by (auto simp: conn_connect_def conn_fds_def Let_def split: if_splits)
      ultimately show ?thesis
        using opn [of s'] by (simp add: fd)
    qed
  qed
  then show "os_wf s' \<and> live s' = live s \<and> r \<le> 0 \<and> (\<forall>x. x \<noteq> next_fd s \<longrightarrow> socks s' x = socks s x)"
    and "c_priv conn' \<noteq> None \<and> conn_fds conn' \<subseteq> insert (next_fd s) (conn_fds conn) \<and>
      cp_fd (cpriv conn') \<in> {cp_fd (cpriv conn), next_fd s}"
    by blast+
qed

lemma inet_ntop4_min: "7 \<le> length (inet_ntop4 a)"
  using dec_nonempty [of "unat (ucast a :: u8)"] dec_nonempty [of "unat (ucast (drop_bit 8 a) :: u8)"]
    dec_nonempty [of "unat (ucast (drop_bit 16 a) :: u8)"] dec_nonempty [of "unat (ucast (drop_bit 24 a) :: u8)"]
  by (simp add: inet_ntop4_def le32_bytes_def del: length_greater_0_conv)

lemma process_tcp_open_sync:
  assumes "serving s priv client k"
  shows "\<exists>priv' s' ret. process_tcp_open_message s priv msg = (0, priv', s') \<and>
    serving s' priv' client (k\<lparr>sk_wire := sk_wire k @ frames [status_msg ret]\<rparr>)"
proof -
  have sv: "conn_good s client k" "os_wf s" "pv_conn_client priv = Some client" "apart client (pv_conn_tcp priv)"
    "c_priv (pv_conn_tcp priv) \<noteq> None" "worker_ready (pv_worker_tcp priv)"
    using assms by (simp_all add: serving_def slot_ready_def)
  have new: "cp_fd (cpriv client) \<noteq> next_fd s"
    using sv(1,2) by (auto simp: conn_good_def conn_up_def os_wf_def)
  have addr: "\<not> (length (inet_ntop4 (msg_address msg)) < 7 \<or> length (inet_ntop4 (msg_address msg)) > 15)"
    using length_inet_ntop4 [of "msg_address msg"] inet_ntop4_min [of "msg_address msg"] by simp
  obtain r1 tcp s1 where 1: "conn_connect s (pv_conn_tcp priv) (inet_ntop4 (msg_address msg)) ''5200'' = (r1, tcp, s1)"
    by (metis prod_cases3)
  note f1 = conn_connect_frame [OF 1 sv(5,2)]
  have g1: "conn_good s1 client k" and a1: "apart client tcp"
    using f1 sv(1,4) new by (auto simp: conn_good_def conn_up_def apart_def)
  obtain r2 w where 2: "worker_wake (pv_worker_tcp priv) = (r2, w)" by (metis surj_pair)
  obtain tcp3 s3 where 3: "conn_close s1 tcp = (tcp3, s3)" by (metis surj_pair)
  define R where "R = (if r1 < 0 then (r1, priv\<lparr>pv_conn_tcp := tcp\<rparr>, s1)
      else if r2 < 0 then (r2, priv\<lparr>pv_conn_tcp := tcp3, pv_worker_tcp := w\<rparr>, s3)
      else (r2, priv\<lparr>pv_conn_tcp := tcp, pv_worker_tcp := w\<rparr>, s1))"
  obtain ret p4 s4 where R: "R = (ret, p4, s4)"
    by (metis prod_cases3)
  have "serving s4 p4 client k"
  proof -
    have "worker_ready w"
      using worker_wake_ready [OF 2 sv(6)] .
    moreover have "serving s1 (priv\<lparr>pv_conn_tcp := tcp\<rparr>) client k"
      using serving_tcp [OF serving_cong [OF assms g1] a1] f1(1) by blast
    moreover have "serving s3 (priv\<lparr>pv_conn_tcp := tcp3\<rparr>) client k"
      using serving_tcp [OF serving_cong [OF assms conn_good_close(1) [OF g1 a1 3]] conn_good_close(2) [OF g1 a1 3]]
        conn_close_wf [OF 3] f1 by blast
    ultimately show ?thesis
      using R by (auto simp: R_def serving_def slot_ready_def split: if_splits)
  qed
  moreover from this have "conn_good s4 client k" "pv_conn_client p4 = Some client"
    by (simp_all add: serving_def)
  moreover from conn_good_send [OF this(1), of "frames [status_msg ret]"] obtain s5 where
    5: "conn_send s4 client (frames [status_msg ret]) = (0, s5)"
    "conn_good s5 client (k\<lparr>sk_wire := sk_wire k @ frames [status_msg ret]\<rparr>)" by blast
  moreover have "process_tcp_open_message s priv msg = (0, p4, s5)"
    using 1 2 3 R 5(1) addr \<open>pv_conn_client p4 = Some client\<close>
    by (auto simp: process_tcp_open_message_def Let_def R_def status_msg_def split: if_splits)
  ultimately show ?thesis
    using serving_cong [OF _ 5(2) only_fd_wf [OF conn_transfer_only(2) [OF 5(1)]]] by (auto simp: serving_def)
qed

section \<open>Forwarders\<close>

lemma sized_fwd_msg: "length d < 2 ^ 32 \<Longrightarrow> sized (fwd_msg ty a d)"
  by (simp add: fwd_msg_def sized_def unat_of_nat)

lemma fwd_msgs_sized: "\<forall>m \<in> set (fwd_msgs ty udp rx). sized m \<and> msg_type (fst m) = type_byte ty \<and> snd m \<noteq> [] \<and>
    length (snd m) \<le> CONN_BUFF_LEN_HEADERLESS"
proof (induction ty udp rx rule: fwd_msgs.induct)
  case (1 ty udp a d rx)
  have "sized (fwd_msg ty b (take 4087 d))" for b
    by (intro sized_fwd_msg) simp
  then show ?case
    using 1 by (auto simp: fwd_msg_def)
next
  case (2 ty udp d rx)
  have "sized (fwd_msg ty 0 c)" if "c \<in> set (chunks 4087 d)" for c
    using chunks_length [OF that] by (intro sized_fwd_msg) simp
  then show ?case
    using 2 by (auto simp: fwd_msg_def dest: chunks_length)
qed simp_all

text \<open>The data of the messages made of a stream is the stream.\<close>

lemma fwd_msgs_stream: "no_dgram rx \<Longrightarrow> concat (map snd (fwd_msgs ty False rx)) = rx_stream rx"
proof (induction ty False rx rule: fwd_msgs.induct)
  case (2 ty d rx)
  have "map snd (map (fwd_msg ty 0) (chunks 4087 d)) = chunks 4087 d"
    by (simp add: fwd_msg_def comp_def)
  then show ?case
    using 2 concat_chunks [of 4087 d] by (auto simp: no_dgram_def simp del: map_map)
qed (auto simp: no_dgram_def)

text \<open>A turn that received the bytes \<open>d\<close>.\<close>

lemma forward_turn_some:
  assumes "os_recvfrom s (cp_fd (cpriv conn)) CONN_BUFF_LEN_HEADERLESS = (Inr (d, a), s1)" and "cp_fd (cpriv conn) \<noteq> - 1"
    and "d \<noteq> []" and "c_priv conn \<noteq> None" and "conn_good s1 client kc"
    and "addr = (if udp then fst (sin_of (case a of None \<Rightarrow> cp_remote_addr (cpriv conn) | Some a \<Rightarrow> a)) else 0)"
  shows "\<exists>conn' s'. forward_turn ty udp s conn client = (None, conn', s') \<and>
    conn_good s' client (kc\<lparr>sk_wire := sk_wire kc @ frames [fwd_msg ty addr d]\<rparr>) \<and>
    cp_fd (cpriv conn') = cp_fd (cpriv conn) \<and> c_priv conn' \<noteq> None \<and> conn_fds conn' = conn_fds conn \<and>
    only_fd (cp_fd (cpriv client)) s1 s'"
proof -
  define conn' where "conn' = (case a of None \<Rightarrow> conn | Some a \<Rightarrow> with_priv conn ((cpriv conn)\<lparr>cp_remote_addr := a\<rparr>))"
  have c: "cp_fd (cpriv conn') = cp_fd (cpriv conn)" "c_priv conn' \<noteq> None" "conn_fds conn' = conn_fds conn"
    "cp_remote_addr (cpriv conn') = (case a of None \<Rightarrow> cp_remote_addr (cpriv conn) | Some a \<Rightarrow> a)"
    using assms(4) by (auto simp: conn'_def conn_fds_def split: option.splits)
  obtain s' where s': "conn_send s1 client (frames [fwd_msg ty addr d]) = (0, s')"
    "conn_good s' client (kc\<lparr>sk_wire := sk_wire kc @ frames [fwd_msg ty addr d]\<rparr>)"
    using conn_good_send [OF assms(5)] by blast
  have "forward_turn ty udp s conn client = (None, conn', s')"
    using assms(1-3,6) s'(1) c(4)
    by (auto simp: forward_turn_def conn_recv_any_def Let_def conn'_def [symmetric] fwd_msg_def split_beta)
  then show ?thesis
    using s'(2) c conn_transfer_only(2) [OF s'(1)] by blast
qed

text \<open>A turn that received nothing.\<close>

lemma forward_turn_none:
  assumes "os_recvfrom s (cp_fd (cpriv conn)) CONN_BUFF_LEN_HEADERLESS = (x, s1)" and "cp_fd (cpriv conn) \<noteq> - 1"
    and "c_priv conn \<noteq> None" and "(\<exists>e > 0. x = Inl e) \<or> (\<exists>a. x = Inr ([], a))"
  shows "\<exists>e conn'. forward_turn ty udp s conn client = (Some (RecvError e), conn', s1) \<and> e < 0 \<and>
    cp_fd (cpriv conn') = cp_fd (cpriv conn) \<and> c_priv conn' \<noteq> None \<and> conn_fds conn' = conn_fds conn"
  using assms(4)
proof (elim disjE exE conjE)
  fix e :: int
  assume "e > 0" "x = Inl e"
  then show ?thesis
    using assms(1-3) by (intro exI [of _ "- e"] exI [of _ conn]) (simp add: forward_turn_def conn_recv_any_def)
next
  fix a
  assume x: "x = Inr ([], a)"
  define conn' where "conn' = (case a of None \<Rightarrow> conn | Some a \<Rightarrow> with_priv conn ((cpriv conn)\<lparr>cp_remote_addr := a\<rparr>))"
  have "cp_fd (cpriv conn') = cp_fd (cpriv conn)" "c_priv conn' \<noteq> None" "conn_fds conn' = conn_fds conn"
    using assms(3) by (auto simp: conn'_def conn_fds_def split: option.splits)
  then show ?thesis
    using assms(1,2) x
    by (intro exI [of _ "- 32"] exI [of _ conn'])
       (simp add: forward_turn_def conn_recv_any_def Let_def conn'_def [symmetric])
qed

lemma forward_loop_None:
  "forward_turn ty udp s conn client = (None, conn', s') \<Longrightarrow>
   forward_loop ty udp s conn client = forward_loop ty udp s' conn' client"
  by (subst forward_loop.simps) simp

lemma forward_loop_Some:
  "forward_turn ty udp s conn client = (Some e, conn', s') \<Longrightarrow> forward_loop ty udp s conn client = (e, conn', s')"
  by (subst forward_loop.simps) simp

text \<open>What one call of \<open>recvfrom\<close> gets, and which messages it leaves to be made.\<close>

lemma recv_fwd_msgs:
  assumes "kind_ok udp (sk_rx k)" and "\<not> sk_shut k"
  shows "(\<exists>x k'. sk_recv k CONN_BUFF_LEN_HEADERLESS = (x, k') \<and> fwd_msgs ty udp (sk_rx k) = [] \<and>
      ((\<exists>e > 0. x = Inl e) \<or> (\<exists>a. x = Inr ([], a)))) \<or>
    (\<exists>d a rx. sk_recv k CONN_BUFF_LEN_HEADERLESS = (Inr (d, a), k\<lparr>sk_rx := rx\<rparr>) \<and> d \<noteq> [] \<and> kind_ok udp rx \<and>
      (udp \<longrightarrow> a \<noteq> None) \<and> rx_weight rx < rx_weight (sk_rx k) \<and>
      fwd_msgs ty udp (sk_rx k) = fwd_msg ty (if udp then fst (sin_of (the a)) else 0) d # fwd_msgs ty udp rx)"
proof (cases "sk_rx k")
  case Nil
  with assms(2) show ?thesis
    by (simp add: sk_recv_def)
next
  case (Cons e rx)
  show ?thesis
  proof (cases e)
    case (RxErr n)
    with Cons assms(2) show ?thesis
      by (simp add: sk_recv_def errno_of_def)
  next
    case (RxDgram a d)
    with Cons assms show ?thesis
      by (cases "d = []") (auto simp: sk_recv_def kind_ok_def no_dgram_def)
  next
    case (RxData d)
    then have udp: "\<not> udp" "no_dgram rx"
      using assms(1) Cons by (auto simp: kind_ok_def no_dgram_def split: if_splits)
    consider "d = []" | "d \<noteq> []" "length d \<le> 4087" | "length d > 4087"
      by linarith
    then show ?thesis
    proof cases
      case 3
      then have "chunks 4087 d = take 4087 d # chunks 4087 (drop 4087 d)" "drop 4087 d \<noteq> []" "d \<noteq> []"
        by (auto intro: chunks_step)
      then show ?thesis
        using 3 Cons RxData assms(2) udp by (auto simp: sk_recv_def kind_ok_def no_dgram_def)
    qed (use Cons RxData assms(2) udp in \<open>auto simp: sk_recv_def kind_ok_def chunks_short\<close>)
  qed
qed

lemma forward_loop_frames:
  assumes "cp_fd (cpriv conn) \<noteq> - 1" and "c_priv conn \<noteq> None" and "socks s (cp_fd (cpriv conn)) = Some k" and "\<not> sk_shut k"
    and "kind_ok udp (sk_rx k)" and "conn_good s client kc" and "cp_fd (cpriv conn) \<noteq> cp_fd (cpriv client)" and "os_wf s"
  shows "\<exists>e conn' s'. forward_loop ty udp s conn client = (RecvError e, conn', s') \<and> e < 0 \<and> os_wf s' \<and>
    conn_good s' client (kc\<lparr>sk_wire := sk_wire kc @ frames (fwd_msgs ty udp (sk_rx k))\<rparr>) \<and>
    cp_fd (cpriv conn') = cp_fd (cpriv conn) \<and> c_priv conn' \<noteq> None \<and> conn_fds conn' = conn_fds conn"
  using assms
proof (induction "rx_weight (sk_rx k)" arbitrary: s conn k kc rule: less_induct)
  case less
  let ?fd = "cp_fd (cpriv conn)"
  consider x k' where "sk_recv k 4087 = (x, k')" "fwd_msgs ty udp (sk_rx k) = []"
      "(\<exists>e > 0. x = Inl e) \<or> (\<exists>a. x = Inr ([], a))"
    | d a rx where "sk_recv k 4087 = (Inr (d, a), k\<lparr>sk_rx := rx\<rparr>)" "d \<noteq> []" "kind_ok udp rx" "udp \<longrightarrow> a \<noteq> None"
      "rx_weight rx < rx_weight (sk_rx k)"
      "fwd_msgs ty udp (sk_rx k) = fwd_msg ty (if udp then fst (sin_of (the a)) else 0) d # fwd_msgs ty udp rx"
    using recv_fwd_msgs [OF less(6,5), of ty] by blast
  then show ?case
  proof cases
    case 1
    have r: "os_recvfrom s ?fd 4087 = (x, set_sock s ?fd k')"
      using 1(1) less(4) by (simp add: os_recvfrom_def)
    note o = only_fd_calls(1) [OF r]
    from forward_turn_none [OF r less(2,3) 1(3)] obtain e conn' where
      "forward_turn ty udp s conn client = (Some (RecvError e), conn', set_sock s ?fd k')" "e < 0"
      "cp_fd (cpriv conn') = ?fd" "c_priv conn' \<noteq> None" "conn_fds conn' = conn_fds conn"
      by blast
    moreover have "conn_good (set_sock s ?fd k') client kc" "os_wf (set_sock s ?fd k')"
      using conn_good_other [OF less(7) o less(8)] only_fd_wf [OF o less(9)] .
    moreover have "kc\<lparr>sk_wire := sk_wire kc @ frames (fwd_msgs ty udp (sk_rx k))\<rparr> = kc"
      by (simp add: 1(2))
    ultimately show ?thesis
      using forward_loop_Some [of ty udp s conn client] by metis
  next
    case 2
    define s1 where "s1 = set_sock s ?fd (k\<lparr>sk_rx := rx\<rparr>)"
    have r: "os_recvfrom s ?fd 4087 = (Inr (d, a), s1)"
      using 2(1) less(4) by (simp add: os_recvfrom_def s1_def)
    note o = only_fd_calls(1) [OF r]
    define addr where "addr = (if udp then fst (sin_of (the a)) else 0)"
    have ad: "addr = (if udp then fst (sin_of (case a of None \<Rightarrow> cp_remote_addr (cpriv conn) | Some a \<Rightarrow> a)) else 0)"
      using 2(4) by (auto simp: addr_def split: option.splits)
    define kc1 where "kc1 = kc\<lparr>sk_wire := sk_wire kc @ frames [fwd_msg ty addr d]\<rparr>"
    from forward_turn_some [OF r less(2) 2(2) less(3) conn_good_other [OF less(7) o less(8)] ad, of ty]
    obtain conn2 s2 where t: "forward_turn ty udp s conn client = (None, conn2, s2)" "conn_good s2 client kc1"
      "cp_fd (cpriv conn2) = ?fd" "c_priv conn2 \<noteq> None" "conn_fds conn2 = conn_fds conn" "only_fd (cp_fd (cpriv client)) s1 s2"
      by (auto simp: kc1_def)
    have "socks s2 (cp_fd (cpriv conn2)) = Some (k\<lparr>sk_rx := rx\<rparr>)"
      using t(3,6) less(8) by (simp add: only_fd_def s1_def)
    moreover have "os_wf s2"
      using only_fd_wf [OF t(6) only_fd_wf [OF o less(9)]] .
    ultimately have "\<exists>e conn' s'. forward_loop ty udp s2 conn2 client = (RecvError e, conn', s') \<and> e < 0 \<and> os_wf s' \<and>
        conn_good s' client (kc1\<lparr>sk_wire := sk_wire kc1 @ frames (fwd_msgs ty udp rx)\<rparr>) \<and>
        cp_fd (cpriv conn') = cp_fd (cpriv conn2) \<and> c_priv conn' \<noteq> None \<and> conn_fds conn' = conn_fds conn2"
      using less(1) [of "k\<lparr>sk_rx := rx\<rparr>" conn2 s2 kc1] 2(3,5) t(2-4) less(2,5,8) by simp
    moreover have "kc1\<lparr>sk_wire := sk_wire kc1 @ frames (fwd_msgs ty udp rx)\<rparr> =
        kc\<lparr>sk_wire := sk_wire kc @ frames (fwd_msgs ty udp (sk_rx k))\<rparr>"
      using 2(6) by (simp add: kc1_def addr_def frames_def)
    ultimately show ?thesis
      using forward_loop_None [OF t(1)] t(3,5) by auto
  qed
qed

section \<open>The interleaving\<close>

text \<open>Whatever a call that reads from the client returns, it leaves the connection good and has
  written nothing.\<close>

lemma sk_recv_rx:
  assumes "sk_recv k n = (x, k')" and "no_dgram (sk_rx k)"
  shows "\<exists>rx. k' = k\<lparr>sk_rx := rx\<rparr> \<and> no_dgram rx"
proof -
  have "k' = k\<lparr>sk_rx := sk_rx k'\<rparr> \<and> no_dgram (sk_rx k')"
    using assms by (auto simp: sk_recv_def no_dgram_def split: if_splits list.splits rx_event.splits)
  then show ?thesis
    by blast
qed

lemma conn_recv_loop_rx:
  "conn_recv_loop s fd n got = (r, d, s') \<Longrightarrow> socks s fd = Some k \<Longrightarrow> no_dgram (sk_rx k) \<Longrightarrow>
   \<exists>rx. s' = set_sock s fd (k\<lparr>sk_rx := rx\<rparr>) \<and> no_dgram rx"
proof (induction s fd n got arbitrary: r d s' k rule: conn_recv_loop.induct)
  case (1 s fd n got)
  obtain x k1 where x: "sk_recv k n = (x, k1)"
    by (metis surj_pair)
  obtain rx where rx: "k1 = k\<lparr>sk_rx := rx\<rparr>" "no_dgram rx"
    using sk_recv_rx [OF x 1(4)] by blast
  have o: "os_recvfrom s fd n = (x, set_sock s fd k1)"
    using x 1(3) by (simp add: os_recvfrom_def)
  show ?case
  proof (cases "\<exists>d1 a. n \<noteq> 0 \<and> x = Inr (d1, a) \<and> d1 \<noteq> []")
    case True
    then obtain d1 a where y: "n \<noteq> 0" "x = Inr (d1, a)" "d1 \<noteq> []"
      by blast
    then have "conn_recv_loop (set_sock s fd k1) fd (n - length d1) (got @ d1) = (r, d, s')"
      using 1(2) o by (subst (asm) conn_recv_loop.simps) simp
    then show ?thesis
      using 1(1) [OF y(1) o [symmetric] y(2) refl y(3), of r d s' k1] rx by auto
  next
    case False
    then consider "s' = s" | "s' = set_sock s fd k1"
      using 1(2) o by (subst (asm) conn_recv_loop.simps) (auto split: if_splits sum.splits prod.splits)
    then show ?thesis
      by cases (use 1(3,4) rx in \<open>auto intro: exI [of _ "sk_rx k"]\<close>)
  qed
qed

lemma conn_recv_keeps:
  assumes "conn_good s conn k" and "conn_recv s conn n = (r, d, s')"
  shows "\<exists>rx. conn_good s' conn (k\<lparr>sk_rx := rx\<rparr>)"
proof -
  have g: "cp_fd (cpriv conn) \<noteq> - 1" "socks s (cp_fd (cpriv conn)) = Some k" "no_dgram (sk_rx k)" "c_type conn = CONN_TYPE_TCP"
    using assms(1) by (simp_all add: conn_good_def conn_up_def)
  then have "conn_recv_loop s (cp_fd (cpriv conn)) n [] = (r, d, s')"
    using assms(2) by (simp add: conn_recv_def)
  from conn_recv_loop_rx [OF this g(2,3)] show ?thesis
    using assms(1) by (auto simp: conn_good_def conn_up_def)
qed

lemma relay_udp_keeps:
  "relay_udp s client out n a p = (r, s') \<Longrightarrow> conn_good s client k \<Longrightarrow>
   cp_fd (cpriv out) \<noteq> cp_fd (cpriv client) \<Longrightarrow> os_wf s \<Longrightarrow> (\<exists>rx. conn_good s' client (k\<lparr>sk_rx := rx\<rparr>)) \<and> os_wf s'"
proof (induction s client out n a p arbitrary: r s' k rule: relay_udp.induct)
  case (1 s client out n a p)
  define m where "m = (if n > 4096 then 4096 else n)"
  obtain r1 d1 s1 where 1: "conn_recv s client m = (r1, d1, s1)" by (metis prod_cases3)
  obtain rx where rx: "conn_good s1 client (k\<lparr>sk_rx := rx\<rparr>)"
    using conn_recv_keeps [OF "1.prems"(2) 1] by blast
  have wf1: "os_wf s1"
    using only_fd_wf [OF conn_transfer_only(1) [OF 1] "1.prems"(4)] .
  obtain r2 s2 where 2: "conn_send_to s1 out d1 a p = (r2, s2)" by (metis surj_pair)
  have g2: "conn_good s2 client (k\<lparr>sk_rx := rx\<rparr>)" and wf2: "os_wf s2"
    using conn_good_other [OF rx conn_transfer_only(3) [OF 2] "1.prems"(3)] only_fd_wf [OF conn_transfer_only(3) [OF 2] wf1] .
  consider "n = 0" | "n \<noteq> 0" "\<not> 0 < r1" | "n \<noteq> 0" "0 < r1"
    by blast
  then show ?case
  proof cases
    case 1
    then show ?thesis
      using "1.prems" by (auto simp: relay_udp.simps [of s client out 0] intro: exI [of _ "sk_rx k"])
  next
    case 2
    then have "s' = s1"
      using "1.prems"(1) 1 by (subst (asm) relay_udp.simps) (auto simp: m_def split: if_splits)
    then show ?thesis
      using rx wf1 by blast
  next
    case 3
    then have "relay_udp s2 client out (n - nat r1) a p = (r, s')"
      using "1.prems"(1) 1 2 by (subst (asm) relay_udp.simps) (auto simp: m_def)
    moreover have "\<not> r1 < 0" "r1 \<noteq> 0"
      using 3(2) by simp_all
    ultimately have "(\<exists>rx'. conn_good s' client (k\<lparr>sk_rx := rx, sk_rx := rx'\<rparr>)) \<and> os_wf s'"
      using "1.IH" [OF 3(1) m_def 1 [symmetric] refl _ _ 2 [symmetric] _ g2 "1.prems"(3) wf2] by blast
    then show ?thesis
      by simp
  qed
qed

lemma relay_tcp_keeps:
  "relay_tcp s client tcp n tr = (r, tr', tcp', s') \<Longrightarrow> conn_good s client k \<Longrightarrow> apart client tcp \<Longrightarrow> os_wf s \<Longrightarrow>
   (\<exists>rx. conn_good s' client (k\<lparr>sk_rx := rx\<rparr>)) \<and> apart client tcp' \<and> os_wf s'"
proof (induction s client tcp n tr arbitrary: r tr' tcp' s' k rule: relay_tcp.induct)
  case (1 s client tcp n tr)
  define m where "m = (if n > 4096 then 4096 else n)"
  obtain r1 d1 s1 where 1: "conn_recv s client m = (r1, d1, s1)" by (metis prod_cases3)
  obtain rx where rx: "conn_good s1 client (k\<lparr>sk_rx := rx\<rparr>)"
    using conn_recv_keeps [OF "1.prems"(2) 1] by blast
  have wf1: "os_wf s1"
    using only_fd_wf [OF conn_transfer_only(1) [OF 1] "1.prems"(4)] .
  define R where "R = (if tr = 0 then case conn_send s1 tcp d1 of (tr, s) \<Rightarrow>
      if tr < 0 then (case conn_close s tcp of (tcp, s) \<Rightarrow> (tr, tcp, s)) else (tr, tcp, s) else (tr, tcp, s1))"
  obtain tr2 tcp2 s2 where 2: "R = (tr2, tcp2, s2)" by (rule prod_cases3)
  obtain r3 s3 where 3: "conn_send s1 tcp d1 = (r3, s3)" by (metis surj_pair)
  have fd: "cp_fd (cpriv tcp) \<noteq> cp_fd (cpriv client)" "c_priv tcp \<noteq> None"
    using "1.prems"(3) by (simp_all add: apart_def)
  note g3 = conn_good_other [OF rx conn_transfer_only(2) [OF 3] fd(1)]
  note wf3 = only_fd_wf [OF conn_transfer_only(2) [OF 3] wf1]
  have g2: "conn_good s2 client (k\<lparr>sk_rx := rx\<rparr>)" "apart client tcp2" "os_wf s2"
    using 2 3 rx wf1 g3 wf3 "1.prems"(3) conn_good_close [OF g3 "1.prems"(3)] conn_close_wf [OF _ wf3 fd(2)]
    by (auto simp: R_def split: if_splits prod.splits)
  consider "n = 0" | "n \<noteq> 0" "\<not> 0 < r1" | "n \<noteq> 0" "0 < r1"
    by blast
  then show ?case
  proof cases
    case 1
    then show ?thesis
      using "1.prems" by (auto simp: relay_tcp.simps [of s client tcp 0] intro: exI [of _ "sk_rx k"])
  next
    case 2
    then have "s' = s1" "tcp' = tcp"
      using "1.prems"(1) 1 by (subst (asm) relay_tcp.simps, auto simp: m_def split: if_splits)+
    then show ?thesis
      using rx wf1 "1.prems"(3) by blast
  next
    case c3: 3
    then have "relay_tcp s2 client tcp2 (n - nat r1) tr2 = (r, tr', tcp', s')"
      using "1.prems"(1) 1 2 [unfolded R_def] by (subst (asm) relay_tcp.simps) (auto simp: m_def)
    moreover have "\<not> r1 < 0" "r1 \<noteq> 0"
      using c3(2) by simp_all
    ultimately have "(\<exists>rx'. conn_good s' client (k\<lparr>sk_rx := rx, sk_rx := rx'\<rparr>)) \<and> apart client tcp' \<and> os_wf s'"
      using "1.IH" [OF c3(1) m_def 1 [symmetric] refl _ _ 2 [unfolded R_def, symmetric] refl _ g2] by blast
    then show ?thesis
      by simp
  qed
qed

lemma wroteI: "serving s priv client k \<Longrightarrow> sk_wire k = w @ frames ms \<Longrightarrow> \<forall>m \<in> set ms. sized m \<Longrightarrow> wrote s priv client w"
  unfolding wrote_def by blast

lemma wrote_refl: "serving s priv client k \<Longrightarrow> wrote s priv client (sk_wire k)"
  by (rule wroteI [of _ _ _ _ _ "[]"]) simp_all

lemma wrote_trans: "wrote s priv client (w @ frames ms) \<Longrightarrow> \<forall>m \<in> set ms. sized m \<Longrightarrow> wrote s priv client w"
  unfolding wrote_def
proof (elim exE conjE)
  fix k ms'
  assume "serving s priv client k" "sk_wire k = (w @ frames ms) @ frames ms'" "\<forall>m \<in> set ms'. sized m" "\<forall>m \<in> set ms. sized m"
  then show "\<exists>k ms. serving s priv client k \<and> sk_wire k = w @ frames ms \<and> (\<forall>m \<in> set ms. sized m)"
    by (intro exI [of _ k] exI [of _ "ms @ ms'"]) (auto simp: frames_append)
qed

lemma wrote_udp:
  assumes "serving s priv client k" and "relay_udp s client out n a p = (r, s')" and "apart client out"
  shows "wrote s' priv client (sk_wire k)"
proof -
  have "conn_good s client k" "os_wf s"
    using assms(1) by (simp_all add: serving_def)
  then obtain rx where "conn_good s' client (k\<lparr>sk_rx := rx\<rparr>)" "os_wf s'"
    using relay_udp_keeps [OF assms(2)] assms(3) by (auto simp: apart_def)
  then show ?thesis
    using wrote_refl [OF serving_cong [OF assms(1)]] by fastforce
qed

lemma wrote_tcp_data:
  assumes "serving s priv client k" and "process_tcp_data_message s priv msg = (r, priv', s')"
  shows "wrote s' priv' client (sk_wire k)"
proof -
  have sv: "conn_good s client k" "os_wf s" "apart client (pv_conn_tcp priv)" "pv_conn_client priv = Some client"
    using assms(1) by (simp_all add: serving_def)
  obtain r1 tr tcp s1 where 1: "relay_tcp s client (pv_conn_tcp priv) (unat (msg_size msg)) 0 = (r1, tr, tcp, s1)"
    by (metis prod_cases4)
  obtain rx where g: "conn_good s1 client (k\<lparr>sk_rx := rx\<rparr>)" "apart client tcp" "os_wf s1"
    using relay_tcp_keeps [OF 1 sv(1,3,2)] by blast
  define p1 where "p1 = priv\<lparr>pv_conn_tcp := tcp\<rparr>"
  have s1: "serving s1 p1 client (k\<lparr>sk_rx := rx\<rparr>)"
    using serving_tcp [OF serving_cong [OF assms(1) g(1,3)] g(2)] by (simp add: p1_def)
  obtain s2 where 2: "send_tcp_close s1 p1 = (0, s2)"
    "serving s2 p1 client (k\<lparr>sk_rx := rx, sk_wire := sk_wire k @ frames [close_msg]\<rparr>)"
    using send_tcp_close_good [OF s1] by auto
  have "(priv', s') = (p1, s1) \<or> (priv', s') = (p1, s2)"
    using assms(2) 1 2(1) sv(4) by (auto simp: process_tcp_data_message_def p1_def Let_def split: if_splits)
  then show ?thesis
    using wrote_refl [OF s1] wroteI [OF 2(2), of "sk_wire k" "[close_msg]"] by auto
qed

lemma wrote_message:
  assumes "serving s priv client k" and "proxy_conn_process s priv = (r, priv', s')"
  shows "wrote s' priv' client (sk_wire k)"
proof -
  have sv: "conn_good s client k" "os_wf s" "pv_conn_client priv = Some client"
    using assms(1) by (simp_all add: serving_def)
  obtain r1 d s1 where 1: "conn_recv s client 9 = (r1, d, s1)" by (metis prod_cases3)
  obtain rx where rx: "conn_good s1 client (k\<lparr>sk_rx := rx\<rparr>)"
    using conn_recv_keeps [OF sv(1) 1] by blast
  have s1: "serving s1 priv client (k\<lparr>sk_rx := rx\<rparr>)"
    using serving_cong [OF assms(1) rx only_fd_wf [OF conn_transfer_only(1) [OF 1] sv(2)]] .
  define msg where "msg = msg_of_bytes d"
  have cls: "wrote t p client (sk_wire k)" if "process_tcp_close_message s1 priv = (r', p, t)" for r' p t
    using process_tcp_close_sync [OF s1] that wrote_refl [of t p client "k\<lparr>sk_rx := rx\<rparr>"] by auto
  have opn: "wrote t p client (sk_wire k)" if "process_tcp_open_message s1 priv msg = (r', p, t)" for r' p t
    using process_tcp_open_sync [OF s1, of msg] that wroteI [of t p client _ "sk_wire k" "[status_msg _]"] by fastforce
  have aps: "apart client (pv_conn_data priv)" "apart client (pv_conn_control priv)"
    using s1 by (simp_all add: serving_def)
  show ?thesis
    using assms(2) 1 sv(3) wrote_refl [OF s1] wrote_tcp_data [OF s1] cls opn
      wrote_udp [OF s1 _ aps(1)] wrote_udp [OF s1 _ aps(2)]
    by (auto simp: proxy_conn_process_def process_message_def process_data_message_def
        process_control_data_message_def msg_def [symmetric] split: if_splits prod.splits)
qed

text \<open>A turn of a forwarder.\<close>

lemma os_recvfrom_errno: "os_recvfrom s fd n = (Inl e, s') \<Longrightarrow> 0 < e"
  by (auto simp: os_recvfrom_def sk_recv_def errno_of_def
      split: if_splits option.splits prod.splits list.splits rx_event.splits)

lemma forward_turn_cases:
  assumes "conn_good s client k" and "apart client conn" and "os_wf s"
    and "forward_turn ty udp s conn client = (x, conn', s')"
  shows "os_wf s' \<and> apart client conn' \<and>
    (case x of None \<Rightarrow> \<exists>m. sized m \<and> conn_good s' client (k\<lparr>sk_wire := sk_wire k @ frames [m]\<rparr>)
     | Some (RecvError e) \<Rightarrow> conn_good s' client k | Some (ClientError e) \<Rightarrow> False)"
proof -
  obtain r d src c1 s1 where 1: "conn_recv_any s conn 4087 = (r, d, src, c1, s1)"
    by (metis prod_cases5)
  have a1: "apart client c1"
    using 1 assms(2) by (auto simp: conn_recv_any_def apart_def conn_fds_def Let_def
        split: if_splits prod.splits sum.splits option.splits)
  have fd: "cp_fd (cpriv conn) \<noteq> cp_fd (cpriv client)"
    using assms(2) by (simp add: apart_def)
  note o = conn_recv_any_only [OF 1]
  have g1: "conn_good s1 client k" and wf1: "os_wf s1"
    using conn_good_other [OF assms(1) o fd] only_fd_wf [OF o assms(3)] .
  show ?thesis
  proof (cases "r > 0")
    case True
    define m where "m = fwd_msg ty (if udp then fst (the src) else 0) d"
    have d: "r = int (length d)" "length d \<le> 4087"
      using 1 True os_recvfrom_length [of s "cp_fd (cpriv conn)" 4087] os_recvfrom_errno [of s "cp_fd (cpriv conn)" 4087]
      by (force simp: conn_recv_any_def Let_def split: if_splits prod.splits sum.splits)+
    obtain s2 where s2: "conn_send s1 client (frames [m]) = (0, s2)"
      "conn_good s2 client (k\<lparr>sk_wire := sk_wire k @ frames [m]\<rparr>)"
      using conn_good_send [OF g1] by blast
    have "forward_turn ty udp s conn client = (None, c1, s2)"
      using 1 True s2(1) d(1) by (simp add: forward_turn_def m_def fwd_msg_def)
    moreover have "sized m"
      using d(2) by (simp add: m_def sized_fwd_msg)
    ultimately show ?thesis
      using assms(4) a1 s2(2) only_fd_wf [OF conn_transfer_only(2) [OF s2(1)] wf1]
      by (auto simp del: frames_Cons split_paired_Ex)
  next
    case False
    then show ?thesis
      using assms(4) 1 a1 g1 wf1 by (auto simp: forward_turn_def split: if_splits)
  qed
qed

text \<open>Replacing a connection of the slot by another one that is apart from the client's.\<close>

lemma serving_parts:
  assumes "serving s priv client k" and "apart client conn"
  shows "serving s (priv\<lparr>pv_conn_control := conn\<rparr>) client k" and "serving s (priv\<lparr>pv_conn_data := conn\<rparr>) client k"
    and "serving s (priv\<lparr>pv_conn_tcp := conn\<rparr>) client k"
  using assms by (auto simp: serving_def slot_ready_def apart_def)

lemma wrote_turn:
  assumes "serving s priv client k" and "apart client conn" and "forward_turn ty udp s conn client = (None, conn', s')"
    and "\<And>c t k. serving t priv client k \<Longrightarrow> apart client c \<Longrightarrow> serving t (upd c) client k"
  shows "wrote s' (upd conn') client (sk_wire k)"
proof -
  have "conn_good s client k" "os_wf s"
    using assms(1) by (simp_all add: serving_def)
  from forward_turn_cases [OF this(1) assms(2) this(2) assms(3)] obtain m where
    "sized m" "conn_good s' client (k\<lparr>sk_wire := sk_wire k @ frames [m]\<rparr>)" "os_wf s'" "apart client conn'"
    by (auto simp del: frames_Cons split_paired_Ex)
  then show ?thesis
    using wroteI [OF assms(4) [OF serving_cong [OF assms(1)]], of s' "k\<lparr>sk_wire := sk_wire k @ frames [m]\<rparr>" conn' "sk_wire k" "[m]"]
    by simp
qed

lemma wrote_end:
  assumes "serving s priv client k" and "apart client conn"
    and "forward_turn ty udp s conn client = (Some (RecvError e), conn1, s1)" and "conn_close s1 conn1 = (conn', s')"
    and "\<And>c t k. serving t priv client k \<Longrightarrow> apart client c \<Longrightarrow> serving t (upd c) client k"
  shows "serving s' (upd conn') client k"
proof -
  have "conn_good s client k" "os_wf s"
    using assms(1) by (simp_all add: serving_def)
  from forward_turn_cases [OF this(1) assms(2) this(2) assms(3)] have
    g: "conn_good s1 client k" "os_wf s1" "apart client conn1"
    by auto
  then show ?thesis
    using assms(5) [OF serving_cong [OF assms(1)]] conn_good_close [OF g(1,3) assms(4)]
      conn_close_wf [OF assms(4) g(2)] by (auto simp: apart_def)
qed

lemma serve_step_wrote:
  assumes "serve_step (priv, s) (priv', s')" and "serving s priv client k"
  shows "wrote s' priv' client (sk_wire k)"
proof -
  have sv: "pv_conn_client priv = Some client" "apart client (pv_conn_control priv)" "apart client (pv_conn_data priv)"
    "apart client (pv_conn_tcp priv)"
    using assms(2) by (simp_all add: serving_def)
  note parts = serving_parts
  from assms(1) show ?thesis
  proof (cases rule: serve_stepE)
    case message
    then show ?thesis
      using wrote_message [OF assms(2)] by blast
  next
    case control
    then show ?thesis
      using wrote_turn [OF assms(2) sv(2), of _ _ _ s' "\<lambda>c. priv\<lparr>pv_conn_control := c\<rparr>"] parts(1) sv(1) by simp
  next
    case data
    then show ?thesis
      using wrote_turn [OF assms(2) sv(3), of _ _ _ s' "\<lambda>c. priv\<lparr>pv_conn_data := c\<rparr>"] parts(2) sv(1) by simp
  next
    case tcp
    then show ?thesis
      using wrote_turn [OF assms(2) sv(4), of _ _ _ s' "\<lambda>c. priv\<lparr>pv_conn_tcp := c\<rparr>"] parts(3) sv(1) by simp
  next
    case control_end
    then show ?thesis
      using wrote_refl [OF wrote_end [OF assms(2) sv(2), where upd = "\<lambda>c. priv\<lparr>pv_conn_control := c\<rparr>"]] parts(1) sv(1) by simp
  next
    case data_end
    then show ?thesis
      using wrote_refl [OF wrote_end [OF assms(2) sv(3), where upd = "\<lambda>c. priv\<lparr>pv_conn_data := c\<rparr>"]] parts(2) sv(1) by simp
  next
    case (tcp_end e conn s1 conn' s2 r)
    then have "serving s2 priv' client k"
      using wrote_end [OF assms(2) sv(4), where upd = "\<lambda>c. priv\<lparr>pv_conn_tcp := c\<rparr>"] parts(3) sv(1) by simp
    from send_tcp_close_good [OF this] tcp_end have
      "serving s' priv' client (k\<lparr>sk_wire := sk_wire k @ frames [close_msg]\<rparr>)"
      by simp
    from wroteI [OF this, of "sk_wire k" "[close_msg]"] show ?thesis
      by simp
  qed
qed

lemma serve_steps_wrote:
  assumes "serve_step\<^sup>*\<^sup>* (priv, s) (priv', s')" and "serving s priv client k"
  shows "wrote s' priv' client (sk_wire k)"
  using assms(1)
proof (induction "(priv', s')" arbitrary: priv' s' rule: rtranclp_induct)
  case base
  then show ?case
    using wrote_refl [OF assms(2)] by simp
next
  case (step y)
  obtain p1 s1 where y: "y = (p1, s1)" by fastforce
  then obtain k1 ms where "serving s1 p1 client k1" "sk_wire k1 = sk_wire k @ frames ms" "\<forall>m \<in> set ms. sized m"
    using step(3) by (auto simp: wrote_def)
  then show ?case
    using serve_step_wrote [OF step(2) [unfolded y]] wrote_trans by metis
qed

text \<open>What is left of a forwarder when its connection has been closed and the client dropped.\<close>

lemma forward_loop_closed:
  assumes "conn_closed conn"
  shows "forward_loop ty udp s conn client = (RecvError (- ENOTCONN), conn, s)"
  using conn_closed_priv [OF assms] by (subst forward_loop.simps) (auto simp: forward_turn_def conn_recv_any_def)

lemma forwarder_after_finish:
  "conn_closed (pv_conn_control priv) \<Longrightarrow> forwarder_control s priv = (priv, s)"
  "conn_closed (pv_conn_data priv) \<Longrightarrow> forwarder_data s priv = (priv, s)"
  "conn_closed (pv_conn_tcp priv) \<Longrightarrow> cp_fd (cpriv (the (pv_conn_client priv))) = - 1 \<Longrightarrow> forwarder_tcp s priv = (priv, s)"
  by (cases priv; simp add: forwarder_control_def forwarder_data_def forwarder_tcp_def forward_loop_closed
      conn_close_closed benign_def send_tcp_close_def conn_send_def Let_def)+

lemma forward_loop_turns:
  "\<exists>n \<le> fd_weight s (cp_fd (cpriv conn)). \<exists>s1 conn1. (turns ty udp client ^^ n) (s, conn) (s1, conn1) \<and>
    (\<exists>e conn' s'. forward_turn ty udp s1 conn1 client = (Some e, conn', s') \<and> forward_loop ty udp s conn client = (e, conn', s'))"
proof (induction ty udp s conn client rule: forward_loop.induct)
  case (1 ty udp s conn client)
  obtain x conn1 s1 where t: "forward_turn ty udp s conn client = (x, conn1, s1)"
    by (metis prod_cases3)
  show ?case
  proof (cases x)
    case None
    from 1 [OF t [symmetric] None refl] obtain n s2 conn2 e conn' s' where
      n: "n \<le> fd_weight s1 (cp_fd (cpriv conn1))" "(turns ty udp client ^^ n) (s1, conn1) (s2, conn2)"
      "forward_turn ty udp s2 conn2 client = (Some e, conn', s')" "forward_loop ty udp s1 conn1 client = (e, conn', s')"
      by blast
    have "(turns ty udp client ^^ Suc n) (s, conn) (s2, conn2)"
      using relpowp_Suc_I2 [of "turns ty udp client" "(s, conn)" "(s1, conn1)"] n(2) t None by (simp add: turns_def)
    moreover have "Suc n \<le> fd_weight s (cp_fd (cpriv conn))"
      using forward_turn_weight [of ty udp s conn client conn1 s1] t None n(1) by simp
    ultimately show ?thesis
      using n(3,4) forward_loop_None [of ty udp s conn client conn1 s1] t None by metis
  next
    case (Some e)
    then show ?thesis
      using t forward_loop_Some [of ty udp s conn client e conn1 s1]
      by (intro exI [of _ 0] conjI exI [of _ s] exI [of _ conn]) auto
  qed
qed

lemma wit_serving:
  assumes "no_dgram (sk_rx k)" and "\<not> sk_shut k" and "sk_tx k = []"
  shows "serving (wit_service_os k kt) wit_service wit_client_conn k"
  using assms
  by (simp add: serving_def wit_service_os_def wit_service_def wit_slot_def wit_udp_def wit_tcp_def wit_closed_def
      wit_client_conn_def wit_conn_def slot_ready_def worker_ready_def wit_worker_def apart_def conn_fds_def
      conn_good_def conn_up_def os_wf_def)

section \<open>Properties\<close>





text \<open>C27: relaying a datagram.  When the UDP connection takes what it is given, the data of a UDP_DATA
  message goes to port 5198 and that of a UDP_CONTROL message to port 5199 of the address in the
  header, in order and complete, in datagrams of at most 4096 bytes: one datagram if the data fits.\<close>

theorem udp_relay_exact:
  assumes "serving s priv client k" and "sk_stream k = d @ rest" and "sized (msg, d)"
    and "(op, conn, port) \<in> {(process_data_message, pv_conn_data priv, 5198), (process_control_data_message, pv_conn_control priv, 5199)}"
    and "c_type conn = CONN_TYPE_UDP" and "open_conn s conn ko"
  shows "\<exists>s' ko' ds. op s priv msg = (0, s') \<and> socks s' (cp_fd (cpriv conn)) = Some ko' \<and>
    sk_dgrams ko' = sk_dgrams ko @ map (\<lambda>c. (msg_address msg, htons port, c)) ds \<and> concat ds = d \<and>
    (\<forall>c \<in> set ds. length c \<le> CONN_BUFF_LEN) \<and> (d \<noteq> [] \<and> length d \<le> CONN_BUFF_LEN \<longrightarrow> ds = [d])"
proof -
  have sv: "conn_good s client k" "pv_conn_client priv = Some client" "cp_fd (cpriv conn) \<noteq> cp_fd (cpriv client)"
    and len: "unat (msg_size msg) = length d"
    using assms(1,3,4) by (auto simp: serving_def apart_def sized_def)
  obtain s' where "relay_udp s client conn (length d) (msg_address msg) port = (0, s')"
    "open_conn s' conn (ko\<lparr>sk_dgrams := sk_dgrams ko @ map (\<lambda>c. (msg_address msg, htons port, c)) (chunks 4096 d)\<rparr>)"
    using relay_udp_good [OF sv(1) assms(2,5,6) sv(3)] by blast
  then show ?thesis
    using assms(4) sv(2) concat_chunks [of 4096 d] chunks_length [of _ 4096 d] chunks_short [of d 4096]
    by (intro exI [of _ s'] exI [of _ "ko\<lparr>sk_dgrams := sk_dgrams ko @ map (\<lambda>c. (msg_address msg, htons port, c)) (chunks 4096 d)\<rparr>"]
        exI [of _ "chunks 4096 d"])
       (auto simp: process_data_message_def process_control_data_message_def len open_conn_def)
qed

theorem udp_relay_exact_witness:
  "\<exists>s' ko'. process_data_message (wit_service_os (wit_sock [RxData [7, 8, 9]] []) no_peer) wit_service
      \<lparr>msg_type = 5, msg_address = 0x0100007f, msg_size = 2\<rparr> = (0, s') \<and>
    socks s' 5 = Some ko' \<and> sk_dgrams ko' = [(0x0100007f, htons 5198, [7, 8])]"
proof -
  define k where "k = wit_sock [RxData [7, 8, 9]] []"
  let ?msg = "\<lparr>msg_type = 5, msg_address = 0x0100007f, msg_size = 2\<rparr>"
  have sv: "serving (wit_service_os k no_peer) wit_service wit_client_conn k"
    by (rule wit_serving) (simp_all add: k_def wit_sock_def no_peer_def no_dgram_def)
  have st: "sk_stream k = [7, 8] @ [9]" "sized (?msg, [7, 8])"
    by (simp_all add: k_def wit_sock_def no_peer_def sk_stream_def sized_def)
  have c: "pv_conn_data wit_service = wit_udp 5" "cp_fd (cpriv (wit_udp 5)) = 5"
    "c_type (wit_udp 5) = CONN_TYPE_UDP" "open_conn (wit_service_os k no_peer) (wit_udp 5) no_peer" "sk_dgrams no_peer = []"
    by (simp_all add: wit_service_def wit_udp_def wit_closed_def open_conn_def wit_service_os_def no_peer_def)
  from udp_relay_exact [OF sv st, of process_data_message "wit_udp 5" 5198 no_peer] show ?thesis
    unfolding k_def [symmetric] by (simp add: c)
qed



text \<open>C29: what the TCP forwarder delivers.  The client gets the bytes that the remote host sent, in
  TCP_DATA messages whose data put together is that stream, followed by one TCP_CLOSE message, and
  the connection to the remote host is closed.\<close>

theorem tcp_forward_exact:
  assumes "serving s priv client k" and "open_conn s (pv_conn_tcp priv) kt" and "no_dgram (sk_rx kt)"
  shows "\<exists>ms k' priv' s'. forwarder_tcp s priv = (priv', s') \<and> serving s' priv' client k' \<and>
    sk_wire k' = sk_wire k @ frames (ms @ [close_msg]) \<and> concat (map snd ms) = rx_stream (sk_rx kt) \<and>
    (\<forall>m \<in> set ms. sized m \<and> msg_type (fst m) = type_byte PROXY_MSG_TYPE_TCP_DATA) \<and> conn_closed (pv_conn_tcp priv')"
proof -
  let ?ms = "fwd_msgs PROXY_MSG_TYPE_TCP_DATA False (sk_rx kt)"
  have sv: "conn_good s client k" "os_wf s" "c_priv (pv_conn_tcp priv) \<noteq> None" "apart client (pv_conn_tcp priv)"
    "pv_conn_client priv = Some client"
    using assms(1) by (auto simp: serving_def apart_def)
  define k1 where "k1 = k\<lparr>sk_wire := sk_wire k @ frames ?ms\<rparr>"
  have "kind_ok False (sk_rx kt)"
    using assms(3) by (simp add: kind_ok_def)
  then obtain e conn s1 where 1: "forward_loop PROXY_MSG_TYPE_TCP_DATA False s (pv_conn_tcp priv) client = (RecvError e, conn, s1)"
    "os_wf s1" "conn_good s1 client k1" "cp_fd (cpriv conn) = cp_fd (cpriv (pv_conn_tcp priv))" "c_priv conn \<noteq> None"
    "conn_fds conn = conn_fds (pv_conn_tcp priv)"
    using forward_loop_frames [of "pv_conn_tcp priv" s kt False client k PROXY_MSG_TYPE_TCP_DATA] assms(2) sv
    by (auto simp: open_conn_def apart_def k1_def)
  then have a: "apart client conn"
    using sv(4) by (simp add: apart_def)
  obtain conn2 s2 where 2: "conn_close s1 conn = (conn2, s2)" by (metis surj_pair)
  have s2: "serving s2 (priv\<lparr>pv_conn_tcp := conn2\<rparr>) client k1"
    using serving_tcp [OF serving_cong [OF assms(1)]] conn_good_close [OF 1(3) a 2] conn_close_wf [OF 2 1(2,5)] by blast
  obtain s3 where 3: "send_tcp_close s2 (priv\<lparr>pv_conn_tcp := conn2\<rparr>) = (0, s3)"
    "serving s3 (priv\<lparr>pv_conn_tcp := conn2\<rparr>) client (k1\<lparr>sk_wire := sk_wire k1 @ frames [close_msg]\<rparr>)"
    using send_tcp_close_good [OF s2] by blast
  have "forwarder_tcp s priv = (priv\<lparr>pv_conn_tcp := conn2\<rparr>, s3)"
    using 1(1) 2 3(1) sv(5) by (simp add: forwarder_tcp_def Let_def)
  moreover have "concat (map snd ?ms) = rx_stream (sk_rx kt)"
    using fwd_msgs_stream [OF assms(3)] .
  ultimately show ?thesis
    using 3(2) fwd_msgs_sized [of PROXY_MSG_TYPE_TCP_DATA False "sk_rx kt"] conn_closed_close [OF 1(5) 2]
    by (intro exI [of _ ?ms] exI [of _ "k1\<lparr>sk_wire := sk_wire k1 @ frames [close_msg]\<rparr>"]
        exI [of _ "priv\<lparr>pv_conn_tcp := conn2\<rparr>"] exI [of _ s3])
       (auto simp: k1_def frames_append simp del: frames_Cons)
qed

theorem tcp_forward_exact_witness:
  "\<exists>ms k' priv' s'. forwarder_tcp (wit_service_os (wit_sock [] []) (wit_sock [RxData [1, 2], RxData [3]] [])) wit_service = (priv', s') \<and>
    serving s' priv' wit_client_conn k' \<and> sk_wire k' = frames (ms @ [close_msg]) \<and> concat (map snd ms) = [1, 2, 3]"
proof -
  define kt where "kt = wit_sock [RxData [1, 2], RxData [3]] []"
  have sv: "serving (wit_service_os (wit_sock [] []) kt) wit_service wit_client_conn (wit_sock [] [])"
    by (rule wit_serving) (simp_all add: wit_sock_def no_peer_def no_dgram_def)
  have o: "open_conn (wit_service_os (wit_sock [] []) kt) (pv_conn_tcp wit_service) kt" "no_dgram (sk_rx kt)"
    "rx_stream (sk_rx kt) = [1, 2, 3]" "sk_wire (wit_sock [] []) = []"
    by (simp_all add: wit_service_def wit_tcp_def wit_closed_def open_conn_def wit_service_os_def kt_def wit_sock_def
        no_peer_def no_dgram_def)
  from tcp_forward_exact [OF sv o(1,2), unfolded o(3,4)] show ?thesis
    unfolding kt_def [symmetric] append_Nil by blast
qed

text \<open>C30: data for the remote host.  While the TCP connection is up the remote host gets exactly the
  data of a TCP_DATA message and the client nothing; when the connection is gone, a message with
  data is still consumed and the client is told with one TCP_CLOSE message.\<close>

theorem tcp_data_exact:
  assumes "serving s priv client k" and "sk_stream k = d @ rest" and "sized (msg, d)" and "d \<noteq> []"
    and "c_type (pv_conn_tcp priv) = CONN_TYPE_TCP"
  shows "(\<forall>kt. conn_good s (pv_conn_tcp priv) kt \<longrightarrow>
      (\<exists>s' kt'. process_tcp_data_message s priv msg = (0, priv, s') \<and>
        conn_good s' (pv_conn_tcp priv) kt' \<and> sk_wire kt' = sk_wire kt @ d)) \<and>
    (conn_closed (pv_conn_tcp priv) \<longrightarrow>
      (\<exists>s' k'. process_tcp_data_message s priv msg = (0, priv, s') \<and> serving s' priv client k' \<and>
        sk_stream k' = rest \<and> sk_wire k' = sk_wire k @ frames [close_msg]))"
proof (intro conjI allI impI)
  have sv: "conn_good s client k" "os_wf s" "pv_conn_client priv = Some client" "apart client (pv_conn_tcp priv)"
    and len: "unat (msg_size msg) = length d"
    using assms by (simp_all add: serving_def sized_def)
  show "\<exists>s' kt'. process_tcp_data_message s priv msg = (0, priv, s') \<and>
      conn_good s' (pv_conn_tcp priv) kt' \<and> sk_wire kt' = sk_wire kt @ d" if "conn_good s (pv_conn_tcp priv) kt" for kt
    using relay_tcp_good [OF sv(1) assms(2) that sv(4)] sv(3)
    by (auto simp: process_tcp_data_message_def len)
  show "\<exists>s' k'. process_tcp_data_message s priv msg = (0, priv, s') \<and> serving s' priv client k' \<and>
      sk_stream k' = rest \<and> sk_wire k' = sk_wire k @ frames [close_msg]" if closed: "conn_closed (pv_conn_tcp priv)"
  proof -
    obtain s1 k1 where 1: "relay_tcp s client (pv_conn_tcp priv) (length d) 0 = (0, - 107, pv_conn_tcp priv, s1)"
      "conn_good s1 client k1" "sk_stream k1 = rest" "sk_wire k1 = sk_wire k" "os_wf s1"
      using relay_tcp_gone [OF sv(1) assms(2,4) closed assms(5) sv(2)] by blast
    have s1: "serving s1 priv client k1"
      using serving_cong [OF assms(1) 1(2,5)] .
    obtain s2 where "send_tcp_close s1 priv = (0, s2)"
      "serving s2 priv client (k1\<lparr>sk_wire := sk_wire k1 @ frames [close_msg]\<rparr>)"
      using send_tcp_close_good [OF s1] by blast
    then show ?thesis
      using 1 sv(3) by (intro exI [of _ s2] exI [of _ "k1\<lparr>sk_wire := sk_wire k1 @ frames [close_msg]\<rparr>"])
        (simp add: process_tcp_data_message_def len conn_good_wire)
  qed
qed

theorem tcp_data_exact_witness:
  "\<exists>s' kt'. process_tcp_data_message (wit_service_os (wit_sock [RxData [7, 8, 9]] []) (wit_sock [] [])) wit_service
      \<lparr>msg_type = 2, msg_address = 0, msg_size = 2\<rparr> = (0, wit_service, s') \<and>
    conn_good s' (wit_tcp 6) kt' \<and> sk_wire kt' = [7, 8]"
proof -
  define k where "k = wit_sock [RxData [7, 8, 9]] []"
  let ?msg = "\<lparr>msg_type = 2, msg_address = 0, msg_size = 2\<rparr>"
  have sv: "serving (wit_service_os k (wit_sock [] [])) wit_service wit_client_conn k"
    by (rule wit_serving) (simp_all add: k_def wit_sock_def no_peer_def no_dgram_def)
  have st: "sk_stream k = [7, 8] @ [9]" "sized (?msg, [7, 8])" "[7, 8] \<noteq> ([] :: bytes)"
    by (simp_all add: k_def wit_sock_def no_peer_def sk_stream_def sized_def)
  have c: "pv_conn_tcp wit_service = wit_tcp 6" "c_type (wit_tcp 6) = CONN_TYPE_TCP"
    "conn_good (wit_service_os k (wit_sock [] [])) (wit_tcp 6) (wit_sock [] [])" "sk_wire (wit_sock [] []) = []"
    by (simp_all add: wit_service_def wit_tcp_def wit_closed_def conn_good_def conn_up_def wit_service_os_def wit_sock_def
        no_peer_def no_dgram_def)
  from tcp_data_exact [OF sv st, unfolded c(1), OF c(2), THEN conjunct1, rule_format, OF c(3), unfolded c(4)] show ?thesis
    by (simp add: k_def)
qed


text \<open>A second TCP_OPEN loses a descriptor.  When the client opens a TCP connection while one is
  open, the descriptor of the first is overwritten: closing the connection afterwards leaves it
  open, and nothing refers to it any more.\<close>

theorem second_tcp_open_leaks:
  "let s = wit_service_os (wit_sock [] []) no_peer;
       (r, priv1, s1) = process_tcp_open_message s wit_service \<lparr>msg_type = 1, msg_address = 0, msg_size = 0\<rparr>;
       (client, priv2, s2) = proxy_conn_finish s1 priv1
   in r = 0 \<and> slot_idle priv2 \<and> socks s2 6 \<noteq> None"
  by (simp add: process_tcp_open_message_def wit_service_os_def wit_service_def wit_slot_def wit_tcp_def wit_closed_def
      wit_udp_def wit_client_conn_def wit_conn_def wit_worker_def worker_wake_def wake_section_def worker_order
      conn_connect_def os_try_def os_socket_def os_fdcall_def conn_send_def conn_send_loop.simps os_send_def sk_send_def
      sk_accepts_def msg_bytes_def set_sock_def wit_sock_def no_peer_def proxy_conn_finish_def proxy_conn_drop_def conn_drop_def conn_close_def conn_shutdown_def os_shutdown_def os_close_def
      worker_wait_idle_def wait_idle_section_def slot_idle_def conn_closed_def inet_ntop4_def le32_bytes_def
      dec_short Let_def)

end
