(* ===== verification/SlotService.thy ===== *)
theory SlotService
  imports Proxy ProxyRelay
begin

text \<open>
  A slot in service, as the proxy sees it: what the functions of src/proxy_conn.c that a worker and
  the forwarders call on a slot with a client leave unchanged.

  \<open>slot_keeps\<close> says that the slot stays set up, with the same number of blocks of memory and with its
  client; \<open>drains\<close> and \<open>settles\<close> say that the sockets only lose what they have to deliver, which
  bounds the loop of the worker (\<open>process_loop_returns\<close>); \<open>accepted\<close> says where a client is after an
  attempt to give it to a slot.
\<close>

section \<open>What a slot in service keeps\<close>

definition pv_blocks :: "proxy_conn_priv \<Rightarrow> int" where
  "pv_blocks pv = slot_blocks (with_pcpriv new_slot pv)"

lemma slot_blocks_pv: "slot_blocks (with_pcpriv pc pv) = pv_blocks pv" "pc_priv pc = Some pv \<Longrightarrow> slot_blocks pc = pv_blocks pv"
  by (simp_all add: pv_blocks_def slot_blocks_def pc_blocks_def)

definition slot_keeps :: "proxy_conn_priv \<Rightarrow> os \<Rightarrow> proxy_conn_priv \<Rightarrow> os \<Rightarrow> bool" where
  "slot_keeps pv s pv' s' \<longleftrightarrow>
     slot_ready pv' \<and> live s' = live s \<and> (os_wf s \<longrightarrow> os_wf s') \<and> pv_blocks pv' = pv_blocks pv \<and> (pv_conn_client pv' = None \<longleftrightarrow> pv_conn_client pv = None)"

text \<open>A connection that keeps its blocks.\<close>

definition conn_keeps :: "conn_handle \<Rightarrow> os \<Rightarrow> conn_handle \<Rightarrow> os \<Rightarrow> bool" where
  "conn_keeps c s c' s' \<longleftrightarrow> (c_priv c \<noteq> None \<longrightarrow> c_priv c' \<noteq> None \<and> conn_blocks c' = conn_blocks c) \<and> live s' = live s"

lemma conn_keeps_trans: "conn_keeps c s c1 s1 \<Longrightarrow> conn_keeps c1 s1 c2 s2 \<Longrightarrow> conn_keeps c s c2 s2"
  by (auto simp: conn_keeps_def)

text \<open>Sockets only lose what they hold, and none is opened.\<close>

definition drains :: "os \<Rightarrow> os \<Rightarrow> bool" where
  "drains s s' \<longleftrightarrow> live s' = live s \<and> next_fd s' = next_fd s \<and>
     (\<forall>fd. (socks s fd = None \<longrightarrow> socks s' fd = None) \<and> fd_weight s' fd \<le> fd_weight s fd)"

lemma drains_refl [simp]: "drains s s"
  by (simp add: drains_def)

lemma drains_trans [trans]: "drains s s1 \<Longrightarrow> drains s1 s2 \<Longrightarrow> drains s s2"
  by (simp add: drains_def) (meson le_trans)

lemma drains_wf: "drains s s' \<Longrightarrow> os_wf s \<Longrightarrow> os_wf s'"
  unfolding drains_def os_wf_def by metis

lemma drains_only:
  assumes "only_fd fd s s'" and "fd_weight s' fd \<le> fd_weight s fd"
  shows "drains s s'"
proof -
  have "fd_weight s' x \<le> fd_weight s x" "socks s x = None \<longrightarrow> socks s' x = None" for x
    using assms by (cases "x = fd"; simp add: only_fd_def fd_weight_def)+
  then show ?thesis
    using assms(1) by (simp add: drains_def only_fd_def)
qed

lemma os_recvfrom_weight: "os_recvfrom s fd n = (x, s') \<Longrightarrow> fd_weight s' fd \<le> fd_weight s fd"
  by (auto simp: os_recvfrom_def sk_recv_def fd_weight_def split: option.splits prod.splits if_splits list.splits rx_event.splits)

lemma conn_recv_loop_weight:
  "conn_recv_loop s fd n got = (r, d, s') \<Longrightarrow> fd_weight s' fd \<le> fd_weight s fd \<and>
   (0 < n \<and> 0 \<le> r \<longrightarrow> fd_weight s' fd < fd_weight s fd)"
proof (induction s fd n got arbitrary: r d s' rule: conn_recv_loop.induct)
  case (1 s fd n got)
  obtain x s1 where x: "os_recvfrom s fd n = (x, s1)"
    by (metis surj_pair)
  note w = os_recvfrom_weight [OF x]
  show ?case
  proof (cases "\<exists>d1 a. n \<noteq> 0 \<and> x = Inr (d1, a) \<and> d1 \<noteq> []")
    case True
    then obtain d1 a where y: "n \<noteq> 0" "x = Inr (d1, a)" "d1 \<noteq> []"
      by blast
    then have "conn_recv_loop s1 fd (n - length d1) (got @ d1) = (r, d, s')"
      using 1(2) x by (subst (asm) conn_recv_loop.simps) simp
    then have "fd_weight s' fd \<le> fd_weight s1 fd"
      using 1(1) [OF y(1) x [symmetric] y(2) refl y(3)] by blast
    moreover obtain k k' where k: "socks s fd = Some k" "sk_recv k n = (Inr (d1, a), k')" "s1 = set_sock s fd k'"
      using x y(2) by (auto simp: os_recvfrom_def split: option.splits prod.splits)
    then have "fd_weight s1 fd < fd_weight s fd"
      using sk_recv_weight [OF k(2) y(3)] y(1) by (simp add: fd_weight_def)
    ultimately show ?thesis
      by simp
  next
    case False
    with 1(2) x w os_recvfrom_errno show ?thesis
      by (subst (asm) conn_recv_loop.simps) (fastforce split: if_splits sum.splits prod.splits)
  qed
qed

lemma conn_recv_drains:
  assumes "conn_recv s conn n = (r, d, s')"
  shows "drains s s'" and "0 < n \<Longrightarrow> 0 \<le> r \<Longrightarrow> fd_weight s' (cp_fd (cpriv conn)) < fd_weight s (cp_fd (cpriv conn))"
proof -
  have "s' = s \<and> r < 0 \<or> conn_recv_loop s (cp_fd (cpriv conn)) n [] = (r, d, s')"
    using assms by (auto simp: conn_recv_def split: if_splits)
  then show "drains s s'" "0 < n \<Longrightarrow> 0 \<le> r \<Longrightarrow> fd_weight s' (cp_fd (cpriv conn)) < fd_weight s (cp_fd (cpriv conn))"
    using conn_recv_loop_weight [of s "cp_fd (cpriv conn)" n "[]" r d s'] drains_only [OF conn_recv_loop_only] by auto
qed

lemma conn_send_drains: "conn_send s conn buff = (r, s') \<Longrightarrow> drains s s'"
  by (rule drains_only [OF conn_transfer_only(2)]) (simp_all add: conn_send_weight)

lemma os_sendto_weight: "os_sendto s fd d a p = (r, s') \<Longrightarrow> fd_weight s' x = fd_weight s x"
  by (auto simp: os_sendto_def sk_sendto_def fd_weight_def split: option.splits prod.splits sum.splits if_splits)

lemma conn_send_to_loop_weight: "conn_send_to_loop s fd buff n a p = (r, s') \<Longrightarrow> fd_weight s' x = fd_weight s x"
proof (induction s fd buff n a p arbitrary: r s' rule: conn_send_to_loop.induct)
  case (1 s fd buff n a p)
  obtain y s1 where y: "os_sendto s fd (take n buff) a p = (y, s1)"
    by (metis surj_pair)
  note w = os_sendto_weight [OF y, of x]
  show ?case
  proof (cases "\<exists>m. n \<noteq> 0 \<and> y = Inr m \<and> m \<noteq> 0")
    case True
    then obtain m where m: "n \<noteq> 0" "y = Inr m" "m \<noteq> 0"
      by blast
    then have "conn_send_to_loop s1 fd buff (n - m) a p = (r, s')"
      using 1(2) y by (subst (asm) conn_send_to_loop.simps) simp
    then show ?thesis
      using 1(1) [OF m(1) y [symmetric] m(2,3)] w by simp
  next
    case False
    with 1(2) y w show ?thesis
      by (subst (asm) conn_send_to_loop.simps) (auto split: if_splits sum.splits prod.splits)
  qed
qed

lemma conn_send_to_drains: "conn_send_to s conn buff a p = (r, s') \<Longrightarrow> drains s s'"
  by (rule drains_only [OF conn_transfer_only(3)])
     (auto simp: conn_send_to_def Let_def split: if_splits dest!: conn_send_to_loop_weight [of _ _ _ _ _ _ _ _ "cp_fd (cpriv conn)"])

lemma conn_recv_any_drains: "conn_recv_any s conn n = (r, d, src, conn', s') \<Longrightarrow> drains s s'"
proof (rule drains_only [OF conn_recv_any_only])
  assume run: "conn_recv_any s conn n = (r, d, src, conn', s')"
  obtain x s1 where x: "os_recvfrom s (cp_fd (cpriv conn)) n = (x, s1)" by (metis surj_pair)
  have "s' = s \<or> s' = s1"
    using run x by (auto simp: conn_recv_any_def Let_def split: if_splits sum.splits prod.splits option.splits)
  then show "fd_weight s' (cp_fd (cpriv conn)) \<le> fd_weight s (cp_fd (cpriv conn))"
    using os_recvfrom_weight [OF x] by auto
qed

lemma conn_close_drains: "conn_close s c = (c', s') \<Longrightarrow> c_priv c \<noteq> None \<Longrightarrow> drains s s'"
  using conn_close_frame [of c _ s c' s'] by (auto simp: drains_def fd_weight_def)

lemma relay_udp_drains: "relay_udp s client out n a p = (r, s') \<Longrightarrow> drains s s'"
proof (induction s client out n a p arbitrary: r s' rule: relay_udp.induct)
  case (1 s client out n a p)
  define m where "m = (if n > 4096 then 4096 else n)"
  obtain r1 d1 s1 where 1: "conn_recv s client m = (r1, d1, s1)" by (metis prod_cases3)
  obtain r2 s2 where 2: "conn_send_to s1 out d1 a p = (r2, s2)" by (metis surj_pair)
  note d1 = conn_recv_drains(1) [OF 1] and d2 = conn_send_to_drains [OF 2]
  consider "n = 0" | "n \<noteq> 0" "\<not> 0 < r1" | "n \<noteq> 0" "0 < r1"
    by blast
  then show ?case
  proof cases
    case 1
    then show ?thesis
      using "1.prems" by (simp add: relay_udp.simps [of s client out 0])
  next
    case 2
    then have "s' = s1"
      using "1.prems" 1 by (subst (asm) relay_udp.simps) (auto simp: m_def split: if_splits)
    then show ?thesis
      using d1 by simp
  next
    case 3
    then have "relay_udp s2 client out (n - nat r1) a p = (r, s')"
      using "1.prems" 1 2 by (subst (asm) relay_udp.simps) (auto simp: m_def)
    moreover have "\<not> r1 < 0" "r1 \<noteq> 0"
      using 3(2) by simp_all
    ultimately have "drains s2 s'"
      using "1.IH" [OF 3(1) m_def 1 [symmetric] refl _ _ 2 [symmetric]] by blast
    from drains_trans [OF drains_trans [OF d1 d2] this] show ?thesis .
  qed
qed

lemma conn_close_keeps: "conn_close s c = (c', s') \<Longrightarrow> c_priv c \<noteq> None \<Longrightarrow> conn_keeps c s c' s'"
  using conn_close_frame [of c _ s c' s'] by (auto simp: conn_keeps_def conn_blocks_def)

lemma relay_tcp_drains:
  "relay_tcp s client tcp n tr = (r, tr', tcp', s') \<Longrightarrow> c_priv tcp \<noteq> None \<Longrightarrow> drains s s' \<and> conn_keeps tcp s tcp' s'"
proof (induction s client tcp n tr arbitrary: r tr' tcp' s' rule: relay_tcp.induct)
  case (1 s client tcp n tr)
  define m where "m = (if n > 4096 then 4096 else n)"
  obtain r1 d1 s1 where 1: "conn_recv s client m = (r1, d1, s1)" by (metis prod_cases3)
  define R where "R = (if tr = 0 then case conn_send s1 tcp d1 of (tr, s) \<Rightarrow>
      if tr < 0 then (case conn_close s tcp of (tcp, s) \<Rightarrow> (tr, tcp, s)) else (tr, tcp, s) else (tr, tcp, s1))"
  obtain tr2 tcp2 s2 where 2: "R = (tr2, tcp2, s2)" by (rule prod_cases3)
  obtain r3 s3 where 3: "conn_send s1 tcp d1 = (r3, s3)" by (metis surj_pair)
  obtain tcp4 s4 where 4: "conn_close s3 tcp = (tcp4, s4)" by (metis surj_pair)
  note d1 = conn_recv_drains(1) [OF 1] and d3 = conn_send_drains [OF 3]
  note d4 = conn_close_drains [OF 4 "1.prems"(2)] conn_close_keeps [OF 4 "1.prems"(2)]
  have "tcp2 = tcp \<and> s2 = s1 \<or> tcp2 = tcp \<and> s2 = s3 \<or> tcp2 = tcp4 \<and> s2 = s4"
    using 2 3 4 by (auto simp: R_def split: if_splits)
  then have g2: "drains s1 s2" "c_priv tcp2 \<noteq> None" "conn_blocks tcp2 = conn_blocks tcp"
    using d3 drains_trans [OF d3 d4(1)] d4(2) "1.prems"(2) by (auto simp: conn_keeps_def)
  consider "n = 0" | "n \<noteq> 0" "\<not> 0 < r1" | "n \<noteq> 0" "0 < r1"
    by blast
  then show ?case
  proof cases
    case 1
    then show ?thesis
      using "1.prems" by (auto simp: relay_tcp.simps [of s client tcp 0] conn_keeps_def)
  next
    case 2
    then have "s' = s1" "tcp' = tcp"
      using "1.prems"(1) 1 by (subst (asm) relay_tcp.simps, auto simp: m_def split: if_splits)+
    then show ?thesis
      using d1 "1.prems"(2) by (simp add: conn_keeps_def drains_def)
  next
    case c3: 3
    then have "relay_tcp s2 client tcp2 (n - nat r1) tr2 = (r, tr', tcp', s')"
      using "1.prems"(1) 1 2 [unfolded R_def] by (subst (asm) relay_tcp.simps) (auto simp: m_def)
    moreover have "\<not> r1 < 0" "r1 \<noteq> 0"
      using c3(2) by simp_all
    ultimately have i: "drains s2 s' \<and> conn_keeps tcp2 s2 tcp' s'"
      using "1.IH" [OF c3(1) m_def 1 [symmetric] refl _ _ 2 [unfolded R_def, symmetric] refl _ g2(2)] by blast
    have "drains s s'"
      using drains_trans [OF drains_trans [OF d1 g2(1)]] i by blast
    then show ?thesis
      using i g2 by (simp add: conn_keeps_def drains_def)
  qed
qed

text \<open>\<open>settles\<close> allows new sockets as well.\<close>

definition settles :: "os \<Rightarrow> os \<Rightarrow> bool" where
  "settles s s' \<longleftrightarrow> live s' = live s \<and> next_fd s \<le> next_fd s' \<and>
     (os_wf s \<longrightarrow> os_wf s' \<and> (\<forall>fd < next_fd s. fd_weight s' fd \<le> fd_weight s fd))"

lemma settles_drains: "drains s s' \<Longrightarrow> settles s s'"
  using drains_wf [of s s'] by (simp add: settles_def drains_def)

lemma settles_trans [trans]:
  assumes "settles s s1" and "settles s1 s2"
  shows "settles s s2"
proof -
  have "fd_weight s2 fd \<le> fd_weight s fd" if "os_wf s" "fd < next_fd s" for fd
    using assms that le_trans [of "fd_weight s2 fd" "fd_weight s1 fd" "fd_weight s fd"] by (simp add: settles_def)
  then show ?thesis
    using assms by (simp add: settles_def)
qed

lemma os_try_next: "os_try s = (r, s') \<Longrightarrow> next_fd s' = next_fd s"
  by (auto simp: os_try_def split: list.splits)

lemma conn_setsockopts_next: "conn_setsockopts s fd n = (r, s') \<Longrightarrow> next_fd s' = next_fd s"
  by (induction n arbitrary: s) (auto simp: os_fdcall_def dest!: os_try_next split: prod.splits if_splits)

lemma conn_connect_next: "conn_connect s c addr port = (r, c', s') \<Longrightarrow> next_fd s \<le> next_fd s'"
  by (auto simp: conn_connect_def os_socket_def os_fdcall_def Let_def
      dest!: os_try_next conn_setsockopts_next split: prod.splits sum.splits if_splits list.splits)

lemma conn_connect_settles:
  assumes "conn_connect s c addr port = (r, c', s')" and "c_priv c \<noteq> None"
  shows "settles s s'" and "conn_keeps c s c' s'"
proof -
  show "settles s s'"
    using conn_connect_next [OF assms(1)] opener_keeps_live(3) [OF assms(1)] conn_connect_frame(1) [OF assms]
    by (simp add: settles_def fd_weight_def)
  have "c_priv c' \<noteq> None"
    using assms by (auto simp: conn_connect_def Let_def split: prod.splits sum.splits if_splits)
  then show "conn_keeps c s c' s'"
    using opener_keeps_blocks(3) [OF assms(2,1)] opener_keeps_live(3) [OF assms(1)] by (simp add: conn_keeps_def)
qed

text \<open>Replacing the TCP connection or a worker of a slot by one with the same blocks.\<close>

lemma keeps_tcp:
  assumes "slot_ready pv" and "conn_keeps (pv_conn_tcp pv) s tcp s'" and "settles s s'"
  shows "slot_keeps pv s (pv\<lparr>pv_conn_tcp := tcp\<rparr>) s'"
  using assms by (simp add: slot_keeps_def slot_ready_def conn_keeps_def settles_def pv_blocks_def slot_blocks_def pc_blocks_def)

lemma keeps_worker:
  assumes "slot_ready pv" and "worker_ready w" and "worker_blocks w = worker_blocks (pv_worker_tcp pv)"
  shows "slot_keeps pv s (pv\<lparr>pv_worker_tcp := w\<rparr>) s"
  using assms by (simp add: slot_keeps_def slot_ready_def pv_blocks_def slot_blocks_def pc_blocks_def)

lemma keeps_refl: "slot_ready pv \<Longrightarrow> settles s s' \<Longrightarrow> slot_keeps pv s pv s'"
  by (simp add: slot_keeps_def settles_def)

lemma slot_keeps_trans: "slot_keeps pv s pv1 s1 \<Longrightarrow> slot_keeps pv1 s1 pv2 s2 \<Longrightarrow> slot_keeps pv s pv2 s2"
  by (simp add: slot_keeps_def)

lemma keeps_then: "slot_keeps pv s pv' s1 \<Longrightarrow> drains s1 s2 \<Longrightarrow> slot_keeps pv s pv' s2"
  using drains_wf [of s1 s2] by (simp add: slot_keeps_def drains_def)

lemma keeps_first: "drains s s1 \<Longrightarrow> slot_keeps pv s1 pv' s2 \<Longrightarrow> slot_keeps pv s pv' s2"
  using drains_wf [of s s1] by (simp add: slot_keeps_def drains_def)

lemma tcp_close_keeps:
  assumes "process_tcp_close_message s pv = (r, pv', s')" and "slot_ready pv"
  shows "slot_keeps pv s pv' s' \<and> settles s s' \<and> pv_conn_client pv' = pv_conn_client pv"
proof -
  obtain tcp s1 where 1: "conn_close s (pv_conn_tcp pv) = (tcp, s1)" by (metis surj_pair)
  have c: "c_priv (pv_conn_tcp pv) \<noteq> None"
    using assms(2) by (simp add: slot_ready_def)
  note st = settles_drains [OF conn_close_drains [OF 1 c]]
  show ?thesis
    using assms(1) 1 st keeps_tcp [OF assms(2) conn_close_keeps [OF 1 c] st]
    by (auto simp: process_tcp_close_message_def)
qed

lemma tcp_data_keeps:
  assumes "process_tcp_data_message s pv msg = (r, pv', s')" and "slot_ready pv"
  shows "slot_keeps pv s pv' s' \<and> settles s s' \<and> pv_conn_client pv' = pv_conn_client pv"
proof -
  obtain r1 tr tcp s1 where 1: "relay_tcp s (the (pv_conn_client pv)) (pv_conn_tcp pv) (unat (msg_size msg)) 0 = (r1, tr, tcp, s1)"
    by (metis prod_cases4)
  have c: "c_priv (pv_conn_tcp pv) \<noteq> None"
    using assms(2) by (simp add: slot_ready_def)
  note d = relay_tcp_drains [OF 1 c]
  note k1 = keeps_tcp [OF assms(2) conjunct2 [OF d] settles_drains [OF conjunct1 [OF d]]]
  obtain r2 s2 where 2: "send_tcp_close s1 (pv\<lparr>pv_conn_tcp := tcp\<rparr>) = (r2, s2)" by (metis surj_pair)
  then have d2: "drains s1 s2"
    using conn_send_drains by (simp add: send_tcp_close_def)
  note k2 = keeps_then [OF k1 d2]
  have "pv' = pv\<lparr>pv_conn_tcp := tcp\<rparr> \<and> (s' = s1 \<or> s' = s2)"
    using assms(1) 1 2 by (auto simp: process_tcp_data_message_def Let_def split: if_splits)
  then show ?thesis
    using k1 k2 settles_drains [OF conjunct1 [OF d]] settles_drains [OF drains_trans [OF conjunct1 [OF d] d2]] by auto
qed

lemma tcp_open_keeps:
  assumes "process_tcp_open_message s pv msg = (r, pv', s')" and "slot_ready pv"
  shows "slot_keeps pv s pv' s' \<and> settles s s' \<and> pv_conn_client pv' = pv_conn_client pv"
proof -
  define addr where "addr = inet_ntop4 (msg_address msg)"
  obtain r1 tcp s1 where 1: "conn_connect s (pv_conn_tcp pv) addr ''5200'' = (r1, tcp, s1)" by (metis prod_cases3)
  obtain r2 w where 2: "worker_wake (pv_worker_tcp pv) = (r2, w)" by (metis surj_pair)
  obtain tcp3 s3 where 3: "conn_close s1 tcp = (tcp3, s3)" by (metis surj_pair)
  have c: "c_priv (pv_conn_tcp pv) \<noteq> None" "worker_ready (pv_worker_tcp pv)"
    using assms(2) by (simp_all add: slot_ready_def)
  note s1 = conn_connect_settles [OF 1 c(1)] and w = worker_wake_parts [OF c(2) 2]
  have tcp: "c_priv tcp \<noteq> None"
    using s1(2) c(1) by (simp add: conn_keeps_def)
  note s3 = settles_trans [OF s1(1) settles_drains [OF conn_close_drains [OF 3 tcp]]]
  note k3 = conn_keeps_trans [OF s1(2) conn_close_keeps [OF 3 tcp]]
  have keeps: "slot_keeps pv s (pv\<lparr>pv_conn_tcp := t\<rparr>) z \<and> slot_keeps pv s (pv\<lparr>pv_conn_tcp := t, pv_worker_tcp := w\<rparr>) z"
    if "conn_keeps (pv_conn_tcp pv) s t z" "settles s z" for t z
    using keeps_tcp [OF assms(2) that] w
    by (simp add: slot_keeps_def slot_ready_def pv_blocks_def slot_blocks_def pc_blocks_def)
  have "(pv', s') = (pv, s) \<or> (\<exists>t z x b. (t, z) \<in> {(tcp, s1), (tcp3, s3)} \<and> conn_send z (the (pv_conn_client pv)) b = (x, s') \<and>
      pv' \<in> {pv\<lparr>pv_conn_tcp := t\<rparr>, pv\<lparr>pv_conn_tcp := t, pv_worker_tcp := w\<rparr>})"
    using assms(1) 1 2 3 unfolding process_tcp_open_message_def addr_def [symmetric] Let_def
    by (auto split: if_splits prod.splits)
  then consider "pv' = pv" "s' = s" | t z x b where "(t, z) \<in> {(tcp, s1), (tcp3, s3)}"
      "conn_send z (the (pv_conn_client pv)) b = (x, s')" "pv' \<in> {pv\<lparr>pv_conn_tcp := t\<rparr>, pv\<lparr>pv_conn_tcp := t, pv_worker_tcp := w\<rparr>}"
    by blast
  then show ?thesis
  proof cases
    case 1
    then show ?thesis
      using keeps_refl [OF assms(2) settles_drains [OF drains_refl]] settles_drains [OF drains_refl] by simp
  next
    case 2
    then have z: "settles s z" "conn_keeps (pv_conn_tcp pv) s t z"
      using s1 s3 k3 by auto
    note d = conn_send_drains [OF 2(2)]
    show ?thesis
      using keeps [OF z(2,1)] 2(3) keeps_then [OF _ d] settles_trans [OF z(1) settles_drains [OF d]] by auto
  qed
qed

lemma process_message_keeps:
  assumes "process_message s pv msg = (r, pv', s')" and "slot_ready pv"
  shows "slot_keeps pv s pv' s' \<and> settles s s' \<and> pv_conn_client pv' = pv_conn_client pv"
proof -
  obtain r1 s1 r2 s2 where u: "process_data_message s pv msg = (r1, s1)" "process_control_data_message s pv msg = (r2, s2)"
    by (metis surj_pair)
  have d: "drains s s1" "drains s s2"
    using u by (auto simp: process_data_message_def process_control_data_message_def intro: relay_udp_drains)
  from assms(1) [unfolded process_message_def u prod.case]
  have "process_tcp_close_message s pv = (r, pv', s') \<or> process_tcp_data_message s pv msg = (r, pv', s') \<or>
      process_tcp_open_message s pv msg = (r, pv', s') \<or> pv' = pv \<and> s' \<in> {s, s1, s2}"
    by (simp only: split: if_split_asm) simp_all
  then consider "process_tcp_close_message s pv = (r, pv', s')" | "process_tcp_data_message s pv msg = (r, pv', s')"
    | "process_tcp_open_message s pv msg = (r, pv', s')" | "pv' = pv" "drains s s'"
    using d drains_refl by fastforce
  then show ?thesis
  proof cases
    case 1
    then show ?thesis
      by (rule tcp_close_keeps [OF _ assms(2)])
  next
    case 2
    then show ?thesis
      by (rule tcp_data_keeps [OF _ assms(2)])
  next
    case 3
    then show ?thesis
      by (rule tcp_open_keeps [OF _ assms(2)])
  next
    case 4
    then show ?thesis
      using keeps_refl [OF assms(2) settles_drains, of s s'] settles_drains [of s s'] by simp
  qed
qed

lemma process_keeps:
  assumes "proxy_conn_process s pv = (r, pv', s')" and "slot_ready pv"
  shows "slot_keeps pv s pv' s'" and "settles s s'" and "pv_conn_client pv' = pv_conn_client pv"
    and "0 \<le> r \<Longrightarrow> os_wf s \<Longrightarrow> fd_weight s' (cp_fd (cpriv (the (pv_conn_client pv)))) < fd_weight s (cp_fd (cpriv (the (pv_conn_client pv))))"
proof -
  define fd where "fd = cp_fd (cpriv (the (pv_conn_client pv)))"
  obtain r1 d s1 where 1: "conn_recv s (the (pv_conn_client pv)) 9 = (r1, d, s1)" by (metis prod_cases3)
  note d = conn_recv_drains [OF 1]
  have c: "r1 < 0 \<and> r = r1 \<and> pv' = pv \<and> s' = s1 \<or> 0 \<le> r1 \<and> process_message s1 pv (msg_of_bytes d) = (r, pv', s')"
    using assms(1) 1 by (auto simp: proxy_conn_process_def split: if_splits)
  have keeps: "slot_keeps pv s1 pv' s' \<and> settles s1 s' \<and> pv_conn_client pv' = pv_conn_client pv"
    using c process_message_keeps [OF _ assms(2)] keeps_refl [OF assms(2) settles_drains [OF drains_refl]]
      settles_drains [OF drains_refl] by auto
  then show "settles s s'" "pv_conn_client pv' = pv_conn_client pv" "slot_keeps pv s pv' s'"
    using settles_trans [OF settles_drains [OF d(1)]] keeps_first [OF d(1)] by auto
  assume "0 \<le> r" and wf: "os_wf s"
  then have w: "fd_weight s1 fd < fd_weight s fd"
    using d(2) c by (auto simp: fd_def)
  then have "fd < next_fd s"
    using wf by (cases "socks s fd") (auto simp: fd_weight_def os_wf_def)
  then have "fd_weight s' fd \<le> fd_weight s1 fd"
    using keeps d(1) drains_wf [OF d(1) wf] by (simp add: settles_def drains_def)
  then show "fd_weight s' (cp_fd (cpriv (the (pv_conn_client pv)))) < fd_weight s (cp_fd (cpriv (the (pv_conn_client pv))))"
    using w by (simp add: fd_def)
qed

lemma process_loop_returns:
  assumes "slot_ready pv" and "os_wf s"
  shows "\<exists>r pv' s'. process_loop s pv = Some (r, pv', s') \<and> slot_keeps pv s pv' s' \<and> settles s s' \<and> r < 0"
  using assms
proof (induction "fd_weight s (cp_fd (cpriv (the (pv_conn_client pv))))" arbitrary: s pv rule: less_induct)
  case less
  obtain r pv1 s1 where 1: "proxy_conn_process s pv = (r, pv1, s1)" by (metis prod_cases3)
  note k = process_keeps [OF 1 less.prems(1)]
  show ?case
  proof (cases "0 \<le> r")
    case True
    have "slot_ready pv1" "os_wf s1"
      using k(1,2) less.prems(2) by (simp_all add: slot_keeps_def settles_def)
    from less.hyps [OF _ this] k(4) [OF True less.prems(2)] k(3)
    obtain r2 pv2 s2 where "process_loop s1 pv1 = Some (r2, pv2, s2)" "slot_keeps pv1 s1 pv2 s2" "settles s1 s2" "r2 < 0"
      by auto
    then show ?thesis
      using True 1 slot_keeps_trans [OF k(1)] settles_trans [OF k(2)] by (subst process_loop.simps) auto
  next
    case False
    then show ?thesis
      using 1 k by (subst process_loop.simps) auto
  qed
qed

lemma conn_recv_any_keeps:
  assumes "conn_recv_any s c n = (r, d, src, c', s')"
  shows "conn_keeps c s c' s'"
proof -
  have "live s' = live s"
    using conn_recv_any_drains [OF assms] by (simp add: drains_def)
  then show ?thesis
    using assms by (auto simp: conn_keeps_def conn_recv_any_def conn_blocks_def Let_def
        split: if_splits sum.splits prod.splits option.splits)
qed

lemma forward_turn_keeps:
  assumes "forward_turn ty udp s conn client = (e, conn', s')"
  shows "drains s s' \<and> conn_keeps conn s conn' s'"
proof -
  obtain r d src c1 s1 where 1: "conn_recv_any s conn CONN_BUFF_LEN_HEADERLESS = (r, d, src, c1, s1)" by (metis prod_cases5)
  note k = conn_recv_any_drains [OF 1] conn_recv_any_keeps [OF 1]
  have "conn' = c1 \<and> (s' = s1 \<or> (\<exists>b r2. conn_send s1 client b = (r2, s')))"
    using assms 1 by (auto simp: forward_turn_def Let_def split: if_splits prod.splits)
  then have "conn' = c1" "drains s1 s'"
    using conn_send_drains by auto
  then show ?thesis
    using k drains_trans [OF k(1)] by (auto simp: conn_keeps_def drains_def)
qed

lemma forward_loop_keeps:
  "forward_loop ty udp s conn client = (e, conn', s') \<Longrightarrow> drains s s' \<and> conn_keeps conn s conn' s'"
proof (induction ty udp s conn client arbitrary: e conn' s' rule: forward_loop.induct)
  case (1 ty udp s conn client)
  obtain x c1 s1 where t: "forward_turn ty udp s conn client = (x, c1, s1)" by (metis prod_cases3)
  note k = forward_turn_keeps [OF t]
  show ?case
  proof (cases x)
    case None
    then have "forward_loop ty udp s1 c1 client = (e, conn', s')"
      using "1.prems" t by (subst (asm) forward_loop.simps) simp
    then have "drains s1 s' \<and> conn_keeps c1 s1 conn' s'"
      using "1.IH" [OF t [symmetric] None refl] by blast
    then show ?thesis
      using k drains_trans [of s s1 s'] conn_keeps_trans [of conn s c1 s1 conn' s'] by simp
  next
    case (Some y)
    then show ?thesis
      using "1.prems" t k by (subst (asm) forward_loop.simps) simp
  qed
qed

lemma keeps_conns:
  assumes "slot_ready pv" and "drains s s'"
  shows "conn_keeps (pv_conn_control pv) s c s' \<Longrightarrow> slot_keeps pv s (pv\<lparr>pv_conn_control := c\<rparr>) s'"
    and "conn_keeps (pv_conn_data pv) s c s' \<Longrightarrow> slot_keeps pv s (pv\<lparr>pv_conn_data := c\<rparr>) s'"
    and "conn_keeps (pv_conn_tcp pv) s c s' \<Longrightarrow> slot_keeps pv s (pv\<lparr>pv_conn_tcp := c\<rparr>) s'"
  using assms drains_wf [OF assms(2)]
  by (auto simp: slot_keeps_def slot_ready_def conn_keeps_def drains_def pv_blocks_def slot_blocks_def pc_blocks_def)

lemma conn_drop_drains: "conn_drop s c = (c', s') \<Longrightarrow> c_priv c \<noteq> None \<Longrightarrow> drains s s' \<and> conn_keeps c s c' s'"
  using conn_drop_frame [of s c c' s'] by (simp add: conn_keeps_def drains_def fd_weight_def)

lemma conn_drop_slot_keeps:
  assumes "proxy_conn_drop s pv = (pv', s')" and "slot_ready pv"
  shows "slot_keeps pv s pv' s' \<and> drains s s' \<and> (\<exists>client. pv' = pv\<lparr>pv_conn_client := client\<rparr>)"
proof (cases "pv_conn_client pv")
  case None
  then show ?thesis
    using assms keeps_refl [OF assms(2) settles_drains [OF drains_refl]]
    by (auto simp: proxy_conn_drop_def intro: exI [of _ None])
next
  case (Some client)
  obtain c s1 where 1: "conn_drop s client = (c, s1)" by (metis surj_pair)
  have "c_priv client \<noteq> None"
    using assms(2) Some by (simp add: slot_ready_def)
  from conn_drop_drains [OF 1 this] show ?thesis
    using assms Some 1 drains_wf [of s s1] by (auto simp: proxy_conn_drop_def slot_keeps_def slot_ready_def conn_keeps_def pv_blocks_def
        slot_blocks_def pc_blocks_def client_blocks_def)
qed

lemma keeps_closed:
  assumes "drains s s1 \<and> conn_keeps conn s c1 s1" and "c_priv conn \<noteq> None" and "conn_close s1 c1 = (c2, s2)"
  shows "drains s s2 \<and> conn_keeps conn s c2 s2"
proof -
  have c: "c_priv c1 \<noteq> None"
    using assms(1,2) by (simp add: conn_keeps_def)
  show ?thesis
    using drains_trans [OF conjunct1 [OF assms(1)] conn_close_drains [OF assms(3) c]]
      conn_keeps_trans [OF conjunct2 [OF assms(1)] conn_close_keeps [OF assms(3) c]] by blast
qed

text \<open>The end of a forwarder: its connection is closed, and the client is dropped before, after or not.\<close>

lemma udp_end_keeps:
  assumes run: "forward_loop ty udp s conn (the (pv_conn_client pv)) = (e, c1, s1)" and ready: "slot_ready pv" "c_priv conn \<noteq> None"
    and upd: "\<And>pv c z z'. slot_ready pv \<Longrightarrow> drains z z' \<Longrightarrow> conn_keeps (get pv) z c z' \<Longrightarrow> slot_keeps pv z (upd c pv) z'"
    and conn: "conn = get pv" "\<And>x. get (pv\<lparr>pv_conn_client := x\<rparr>) = get pv"
    and r: "(case e of
        ClientError ret \<Rightarrow> (case conn_close s1 c1 of (c, s) \<Rightarrow>
          let priv = upd c pv in if benign ret then (priv, s) else proxy_conn_drop s priv)
      | RecvError ret \<Rightarrow> (case (if benign ret then (pv, s1) else proxy_conn_drop s1 pv) of (priv, s) \<Rightarrow>
             case conn_close s c1 of (c, s) \<Rightarrow> (upd c priv, s))) = (pv', s')"
  shows "slot_keeps pv s pv' s'"
proof -
  note k1 = forward_loop_keeps [OF run]
  have c1: "c_priv c1 \<noteq> None" "drains s s1" "conn_blocks c1 = conn_blocks conn"
    using k1 ready(2) by (simp_all add: conn_keeps_def drains_def)
  obtain c2 s2 where 2: "conn_close s1 c1 = (c2, s2)" by (metis surj_pair)
  note k2 = keeps_closed [OF k1 ready(2) 2]
  have up: "slot_keeps pv s (upd c2 pv) s2"
    using upd [OF ready(1)] k2 conn(1) by simp
  then have ready2: "slot_ready (upd c2 pv)"
    by (simp add: slot_keeps_def)
  obtain pv3 s3 where 3: "proxy_conn_drop s1 pv = (pv3, s3)" by (metis surj_pair)
  note k3 = conn_drop_slot_keeps [OF 3 ready(1)]
  obtain c4 s4 where 4: "conn_close s3 c1 = (c4, s4)" by (metis surj_pair)
  have 5: "slot_keeps pv s1 (upd c4 pv3) s4"
  proof (rule slot_keeps_trans [OF conjunct1 [OF k3] upd])
    show "drains s3 s4"
      by (rule conn_close_drains [OF 4 c1(1)])
    show "slot_ready pv3"
      using k3 by (simp add: slot_keeps_def)
    have "get pv3 = conn"
      using k3 conn by auto
    then show "conn_keeps (get pv3) s3 c4 s4"
      using conn_close_keeps [OF 4 c1(1)] c1(3) by (simp add: conn_keeps_def c1(1))
  qed
  from slot_keeps_trans [OF keeps_refl [OF ready(1) settles_drains [OF c1(2)]] 5]
  have "slot_keeps pv s (upd c4 pv3) s4" .
  then show ?thesis
    using r 2 3 4 up slot_keeps_trans [OF up conjunct1 [OF conn_drop_slot_keeps [OF _ ready2]]]
    by (auto simp: Let_def split: fwd_end.splits if_splits)
qed

lemma forwarder_control_keeps:
  assumes "forwarder_control s pv = (pv', s')" and "slot_ready pv"
  shows "slot_keeps pv s pv' s'"
proof -
  obtain e c1 s1 where 1: "forward_loop PROXY_MSG_TYPE_UDP_CONTROL True s (pv_conn_control pv) (the (pv_conn_client pv)) = (e, c1, s1)"
    by (metis prod_cases3)
  show ?thesis
    by (rule udp_end_keeps [OF 1 assms(2), where get = pv_conn_control and upd = "\<lambda>c. pv_conn_control_update (\<lambda>_. c)"])
       (use assms 1 in \<open>auto simp: forwarder_control_def slot_ready_def intro: keeps_conns(1) split: fwd_end.splits\<close>)
qed

lemma forwarder_data_keeps:
  assumes "forwarder_data s pv = (pv', s')" and "slot_ready pv"
  shows "slot_keeps pv s pv' s'"
proof -
  obtain e c1 s1 where 1: "forward_loop PROXY_MSG_TYPE_UDP_DATA True s (pv_conn_data pv) (the (pv_conn_client pv)) = (e, c1, s1)"
    by (metis prod_cases3)
  show ?thesis
    by (rule udp_end_keeps [OF 1 assms(2), where get = pv_conn_data and upd = "\<lambda>c. pv_conn_data_update (\<lambda>_. c)"])
       (use assms 1 in \<open>auto simp: forwarder_data_def slot_ready_def intro: keeps_conns(2) split: fwd_end.splits\<close>)
qed

lemma forwarder_tcp_keeps:
  assumes "forwarder_tcp s pv = (pv', s')" and "slot_ready pv"
  shows "slot_keeps pv s pv' s'"
proof -
  obtain e c1 s1 where 1: "forward_loop PROXY_MSG_TYPE_TCP_DATA False s (pv_conn_tcp pv) (the (pv_conn_client pv)) = (e, c1, s1)"
    by (metis prod_cases3)
  obtain c2 s2 where 2: "conn_close s1 c1 = (c2, s2)" by (metis surj_pair)
  have tcp: "c_priv (pv_conn_tcp pv) \<noteq> None"
    using assms(2) by (simp add: slot_ready_def)
  note k2 = keeps_closed [OF forward_loop_keeps [OF 1] tcp 2]
  have up: "slot_keeps pv s (pv\<lparr>pv_conn_tcp := c2\<rparr>) s2"
    using keeps_conns(3) [OF assms(2)] k2 by simp
  then have ready2: "slot_ready (pv\<lparr>pv_conn_tcp := c2\<rparr>)"
    by (simp add: slot_keeps_def)
  obtain r3 s3 where 3: "send_tcp_close s2 (pv\<lparr>pv_conn_tcp := c2\<rparr>) = (r3, s3)" by (metis surj_pair)
  then have "drains s2 s3"
    using conn_send_drains by (simp add: send_tcp_close_def)
  from keeps_then [OF up this] have "slot_keeps pv s (pv\<lparr>pv_conn_tcp := c2\<rparr>) s3" .
  then show ?thesis
    using assms(1) 1 2 3 up slot_keeps_trans [OF up conjunct1 [OF conn_drop_slot_keeps [OF _ ready2]]]
    by (auto simp: forwarder_tcp_def Let_def split: fwd_end.splits if_splits)
qed

lemma serve_step_keeps:
  assumes "serve_step (pv, s) (pv', s')" and "slot_ready pv"
  shows "slot_keeps pv s pv' s'"
proof -
  have conns: "c_priv (pv_conn_control pv) \<noteq> None" "c_priv (pv_conn_data pv) \<noteq> None" "c_priv (pv_conn_tcp pv) \<noteq> None"
    using assms(2) by (simp_all add: slot_ready_def)
  note kc = keeps_conns [OF assms(2), of s s']
  from assms(1) show ?thesis
  proof (cases rule: serve_stepE)
    case (message r)
    then show ?thesis by (rule process_keeps(1) [OF _ assms(2)])
  next
    case (control conn)
    then show ?thesis using forward_turn_keeps [OF control(2)] kc(1) by simp
  next
    case (data conn)
    then show ?thesis using forward_turn_keeps [OF data(2)] kc(2) by simp
  next
    case (tcp conn)
    then show ?thesis using forward_turn_keeps [OF tcp(2)] kc(3) by simp
  next
    case (control_end e conn s1 conn')
    then show ?thesis using keeps_closed [OF forward_turn_keeps [OF control_end(2)] conns(1) control_end(4)] kc(1)
      by simp
  next
    case (data_end e conn s1 conn')
    then show ?thesis using keeps_closed [OF forward_turn_keeps [OF data_end(2)] conns(2) data_end(4)] kc(2)
      by simp
  next
    case (tcp_end e conn s1 conn' s2 r)
    have d: "drains s2 s'"
      using conn_send_drains tcp_end(4) by (simp add: send_tcp_close_def)
    show ?thesis
      using keeps_closed [OF forward_turn_keeps [OF tcp_end(2)] conns(3) tcp_end(3)]
        keeps_then [OF keeps_conns(3) [OF assms(2)] d] tcp_end(1) by simp
  qed
qed

section \<open>Giving a slot a client and taking it back\<close>

lemma finish_keeps:
  assumes "proxy_conn_finish s pv = (back, pv', s')" and "slot_ready pv"
  shows "slot_ready pv' \<and> slot_idle pv' \<and> drains s s' \<and> pv_blocks pv' + client_blocks back = pv_blocks pv \<and>
    (back = None \<longleftrightarrow> pv_conn_client pv = None) \<and> (\<forall>conn. back = Some conn \<longrightarrow> c_priv conn \<noteq> None)"
proof -
  obtain pv1 s1 where 1: "proxy_conn_drop s pv = (pv1, s1)" by (metis surj_pair)
  note k1 = conn_drop_slot_keeps [OF 1 assms(2)]
  have conns: "c_priv (pv_conn_control pv1) \<noteq> None" "c_priv (pv_conn_data pv1) \<noteq> None" "c_priv (pv_conn_tcp pv1) \<noteq> None"
    and workers: "worker_ready (pv_worker_control pv1)" "worker_ready (pv_worker_data pv1)" "worker_ready (pv_worker_tcp pv1)"
    and client: "\<And>conn. pv_conn_client pv1 = Some conn \<Longrightarrow> c_priv conn \<noteq> None"
    using k1 by (simp_all add: slot_keeps_def slot_ready_def)
  obtain c s2 where 2: "conn_close s1 (pv_conn_control pv1) = (c, s2)" by (metis surj_pair)
  obtain d s3 where 3: "conn_close s2 (pv_conn_data pv1) = (d, s3)" by (metis surj_pair)
  obtain t s4 where 4: "conn_close s3 (pv_conn_tcp pv1) = (t, s4)" by (metis surj_pair)
  note cl = conn_close_keeps [OF 2 conns(1)] conn_close_keeps [OF 3 conns(2)] conn_close_keeps [OF 4 conns(3)]
  have closed: "conn_closed c" "conn_closed d" "conn_closed t"
    using conn_close_frame(1) [OF _ 2] conn_close_frame(1) [OF _ 3] conn_close_frame(1) [OF _ 4] conns
    by (auto simp: conn_closed_def)
  have d: "drains s s4"
    using drains_trans [OF drains_trans [OF drains_trans [OF _ conn_close_drains [OF 2 conns(1)]]
          conn_close_drains [OF 3 conns(2)]] conn_close_drains [OF 4 conns(3)]] k1 by blast
  have run: "back = pv_conn_client pv1" "s' = s4" "pv' = pv1\<lparr>pv_conn_control := c, pv_conn_data := d, pv_conn_tcp := t,
      pv_worker_tcp := snd (worker_wait_idle (pv_worker_tcp pv1)), pv_worker_data := snd (worker_wait_idle (pv_worker_data pv1)),
      pv_worker_control := snd (worker_wait_idle (pv_worker_control pv1)), pv_conn_client := None\<rparr>"
    using assms(1) 1 2 3 4 by (simp_all add: proxy_conn_finish_def)
  have "pv_blocks pv' + client_blocks back = pv_blocks pv1"
    using cl conns workers unfolding run
    by (simp add: pv_blocks_def slot_blocks_def pc_blocks_def client_blocks_def conn_keeps_def)
  then show ?thesis
    using k1 d closed workers cl conns client unfolding run
    by (simp add: slot_keeps_def slot_ready_def slot_idle_def conn_keeps_def)
qed

text \<open>What an attempt of \<open>proxy_conn_accept\<close> leaves: the client is in the slot, or it comes back.\<close>

definition accepted :: "proxy_conn_priv \<Rightarrow> conn_handle \<Rightarrow> os \<Rightarrow> int \<Rightarrow> conn_handle option \<Rightarrow> proxy_conn_priv \<Rightarrow> os \<Rightarrow> bool" where
  "accepted pv conn s r back pv' s' \<longleftrightarrow>
     slot_ready pv' \<and> live s' = live s \<and> r \<le> 0 \<and>
     pv_blocks pv' + client_blocks back = pv_blocks pv + client_blocks (Some conn) \<and>
     (if r = 0 then pv_conn_client pv = None \<and> pv_conn_client pv' = Some conn \<and> back = None
      else (\<exists>conn'. back = Some conn' \<and> c_priv conn' \<noteq> None) \<and>
        (pv' = pv \<or> pv_conn_client pv = None \<and> slot_idle pv'))"

lemma finish_accepted:
  assumes "proxy_conn_finish s1 pv1 = (back, pv', s')" and "slot_ready pv1" and "pv_conn_client pv1 = Some conn"
    and "pv_conn_client pv = None" and "pv_blocks pv1 = pv_blocks pv + client_blocks (Some conn)" and "live s1 = live s" and "r < 0"
  shows "accepted pv conn s r back pv' s'"
  using finish_keeps [OF assms(1,2)] assms(3-) by (auto simp: accepted_def drains_def)

lemma accept_accepted:
  assumes "proxy_conn_accept s pv conn callsign only = (r, back, pv', s')" and ready: "slot_ready pv" "c_priv conn \<noteq> None"
  shows "accepted pv conn s r back pv' s'"
proof (cases "pv_conn_client pv \<noteq> None \<or> (only \<and> pv_callsign pv \<noteq> callsign)")
  case True
  then show ?thesis
    using assms by (auto simp: proxy_conn_accept_def accepted_def)
next
  case False
  define p0 where "p0 = pv\<lparr>pv_callsign := take 11 callsign, pv_conn_client := Some conn\<rparr>"
  obtain r1 c s1 where 1: "conn_listen s (pv_conn_control p0) = (r1, c, s1)" by (metis prod_cases3)
  define p1 where "p1 = p0\<lparr>pv_conn_control := c\<rparr>"
  obtain r2 d s2 where 2: "conn_listen s1 (pv_conn_data p1) = (r2, d, s2)" by (metis prod_cases3)
  define p2 where "p2 = p1\<lparr>pv_conn_data := d\<rparr>"
  obtain r3 w where 3: "worker_wake (pv_worker_control p2) = (r3, w)" by (metis surj_pair)
  define p3 where "p3 = p2\<lparr>pv_worker_control := w\<rparr>"
  obtain r4 v where 4: "worker_wake (pv_worker_data p3) = (r4, v)" by (metis surj_pair)
  define p4 where "p4 = p3\<lparr>pv_worker_data := v\<rparr>"
  have free: "pv_conn_client pv = None"
    using False by simp
  define b where "b = pv_blocks pv + client_blocks (Some conn)"
  have b0: "slot_ready p0 \<and> pv_conn_client p0 = Some conn \<and> pv_blocks p0 = b"
    using ready free by (simp add: b_def p0_def slot_ready_def pv_blocks_def slot_blocks_def pc_blocks_def client_blocks_def)
  then have b1: "slot_ready p1 \<and> pv_conn_client p1 = Some conn \<and> pv_blocks p1 = b"
    using conn_listen_priv [OF 1] opener_keeps_blocks(2) [OF _ 1]
    by (auto simp: p1_def slot_ready_def pv_blocks_def slot_blocks_def pc_blocks_def)
  then have b2: "slot_ready p2 \<and> pv_conn_client p2 = Some conn \<and> pv_blocks p2 = b"
    using conn_listen_priv [OF 2] opener_keeps_blocks(2) [OF _ 2]
    by (auto simp: p2_def slot_ready_def pv_blocks_def slot_blocks_def pc_blocks_def)
  then have b3: "slot_ready p3 \<and> pv_conn_client p3 = Some conn \<and> pv_blocks p3 = b"
    using worker_wake_parts [OF _ 3] by (auto simp: p3_def slot_ready_def pv_blocks_def slot_blocks_def pc_blocks_def)
  then have b4: "slot_ready p4 \<and> pv_conn_client p4 = Some conn \<and> pv_blocks p4 = b"
    using worker_wake_parts [OF _ 4] by (auto simp: p4_def slot_ready_def pv_blocks_def slot_blocks_def pc_blocks_def)
  have l: "live s1 = live s" "live s2 = live s"
    using opener_keeps_live(2) [OF 1] opener_keeps_live(2) [OF 2] by simp_all
  note bs = b1 b2 b3 b4
  have "(r < 0 \<and> (\<exists>q z. (q, z) \<in> {(p1, s1), (p2, s2), (p3, s2), (p4, s2)} \<and> proxy_conn_finish z q = (back, pv', s'))) \<or>
      r = 0 \<and> back = None \<and> pv' = p4 \<and> s' = s2"
    using assms(1) False 1 2 3 4 unfolding proxy_conn_accept_def p0_def [symmetric]
    by (auto simp: Let_def p1_def [symmetric] p2_def [symmetric] p3_def [symmetric] p4_def [symmetric] split: if_splits)
  then consider q z where "r < 0" "(q, z) \<in> {(p1, s1), (p2, s2), (p3, s2), (p4, s2)}" "proxy_conn_finish z q = (back, pv', s')"
    | "r = 0" "back = None" "pv' = p4" "s' = s2"
    by blast
  then show ?thesis
  proof cases
    case 1
    then have "slot_ready q" "pv_conn_client q = Some conn" "pv_blocks q = b" "live z = live s"
      using bs l by auto
    from finish_accepted [OF 1(3) this(1,2) free this(3) [unfolded b_def] this(4) 1(1)] show ?thesis .
  next
    case 2
    then show ?thesis
      using b4 l free b_def by (simp add: accepted_def client_blocks_def)
  qed
qed

end
