(* ===== verification/ProxyRun.thy ===== *)
theory ProxyRun
  imports SlotService
begin

text \<open>
  The proxy at work: src/proxy.c with several clients at a time.

  \<open>proxy_step\<close> interleaves the calls of \<open>proxy_process\<close> with the runs of the workers, each cut where
  the code gives up its locks for long: up to the loop over the client's messages, the messages and
  the forwarders' turns and runs, and the end.  Giving the slot back is one step: the race between
  \<open>proxy_conn_finish\<close> and the lists is treated in theory SlotPool.

  \<open>run_ok\<close> is the invariant.  It says that every slot is either in the list of idle slots or serves
  the client of exactly one worker, that every worker is either in the list of idle workers or has a
  client, and it comes with an account of every block of memory.
\<close>

section \<open>Steps\<close>

inductive proxy_step ::
    "'re pcre \<Rightarrow> md5_ctx \<Rightarrow> proxy_conf \<Rightarrow> 're proxy_priv \<times> os \<Rightarrow> 're proxy_priv \<times> os \<Rightarrow> bool"
  for pcre :: "'re pcre" and ctx :: md5_ctx and conf :: proxy_conf where
  client: "proxy_process s priv = (r, priv', s') \<Longrightarrow> proxy_step pcre ctx conf (priv, s) (priv', s')"
| login: "k < length (array_of (pp_client_workers priv)) \<Longrightarrow> pw_conn_client (worker_of priv k) = Some (Held conn) \<Longrightarrow>
    worker_begin pcre ctx rnd buff conf s priv k = Some (slot, priv', s') \<Longrightarrow>
    proxy_step pcre ctx conf (priv, s) (priv', s')"
| serve: "k < length (array_of (pp_client_workers priv)) \<Longrightarrow> pw_conn_client (worker_of priv k) = Some (Lent i) \<Longrightarrow>
    serve_step (pcpriv (slot_of priv i), s) (pv, s') \<Longrightarrow>
    proxy_step pcre ctx conf (priv, s) (set_slot priv i (with_pcpriv (slot_of priv i) pv), s')"
| forward: "k < length (array_of (pp_client_workers priv)) \<Longrightarrow> pw_conn_client (worker_of priv k) = Some (Lent i) \<Longrightarrow>
    forwarder \<in> {forwarder_control, forwarder_data, forwarder_tcp} \<Longrightarrow> forwarder s (pcpriv (slot_of priv i)) = (pv, s') \<Longrightarrow>
    proxy_step pcre ctx conf (priv, s) (set_slot priv i (with_pcpriv (slot_of priv i) pv), s')"
| leave: "k < length (array_of (pp_client_workers priv)) \<Longrightarrow> pw_conn_client (worker_of priv k) = Some (Lent i) \<Longrightarrow>
    worker_end s priv k i = Some (priv', s') \<Longrightarrow> proxy_step pcre ctx conf (priv, s) (priv', s')"
| turn: "k < length (array_of (pp_client_workers priv)) \<Longrightarrow> w_priv (pw_worker (worker_of priv k)) = Some wp \<Longrightarrow>
    worker_turn (wk_state wp) = (st, pc) \<Longrightarrow>
    proxy_step pcre ctx conf (priv, s) (set_worker priv k ((worker_of priv k)
      \<lparr>pw_worker := (pw_worker (worker_of priv k))\<lparr>w_priv := Some (wp\<lparr>wk_state := st\<rparr>)\<rparr>\<rparr>), s)"
| drop: "proxy_drop s priv = Some (priv', s') \<Longrightarrow> proxy_step pcre ctx conf (priv, s) (priv', s')"
| shutdown: "proxy_shutdown s priv = Some (priv', s') \<Longrightarrow> proxy_step pcre ctx conf (priv, s) (priv', s')"

section \<open>The invariant\<close>

text \<open>\<open>use i\<close> says that the slot \<open>i\<close> serves a client, \<open>own k\<close> where the client of worker \<open>k\<close> is.\<close>

definition shares :: "nat \<Rightarrow> (nat \<Rightarrow> bool) \<Rightarrow> (nat \<Rightarrow> client_at option) \<Rightarrow> bool" where
  "shares n use own \<longleftrightarrow>
     (\<forall>k < n. \<forall>i. own k = Some (Lent i) \<longrightarrow> i < n \<and> use i) \<and>
     (\<forall>i < n. use i \<longrightarrow> (\<exists>k < n. own k = Some (Lent i))) \<and>
     (\<forall>k < n. \<forall>j < n. \<forall>i. own k = Some (Lent i) \<and> own j = Some (Lent i) \<longrightarrow> k = j)"

definition in_use :: "proxy_conn_handle \<Rightarrow> bool" where
  "in_use pc \<longleftrightarrow> pv_conn_client (pcpriv pc) \<noteq> None"

definition slot_ok :: "proxy_conn_handle \<Rightarrow> bool" where
  "slot_ok pc \<longleftrightarrow> (\<exists>pv. pc_priv pc = Some pv \<and> slot_ready pv \<and> (pv_conn_client pv = None \<longrightarrow> slot_idle pv))"

text \<open>The thread of a worker has been started and is not asked to stop.\<close>

definition worker_up :: "proxy_worker \<Rightarrow> bool" where
  "worker_up pw \<longleftrightarrow>
     worker_ready (pw_worker pw) \<and> wk_state (the (w_priv (pw_worker pw))) > WORKER_STOPPING_AFTER_WORK \<and>
     (\<forall>conn. pw_conn_client pw = Some (Held conn) \<longrightarrow> c_priv conn \<noteq> None)"

definition idle_workers_ok :: "nat list \<Rightarrow> nat \<Rightarrow> (nat \<Rightarrow> client_at option) \<Rightarrow> bool" where
  "idle_workers_ok ks n own \<longleftrightarrow> distinct ks \<and> set ks = {k. k < n \<and> own k = None}"

definition idle_slots_ok :: "pool \<Rightarrow> nat \<Rightarrow> (nat \<Rightarrow> bool) \<Rightarrow> bool" where
  "idle_slots_ok p n use \<longleftrightarrow>
     (\<exists>idle calls. pool_ok p idle calls \<and> set idle = {i. i < n \<and> \<not> use i} \<and> (\<forall>h. set (calls h) \<subseteq> {..<n}))"

definition tables_ok :: "nat \<Rightarrow> proxy_conn_handle list \<Rightarrow> proxy_worker list \<Rightarrow> nat list \<Rightarrow> pool \<Rightarrow> bool" where
  "tables_ok n cs ws ks p \<longleftrightarrow>
     length cs = n \<and> length ws = n \<and> (\<forall>i < n. slot_ok (cs ! i)) \<and> (\<forall>k < n. worker_up (ws ! k)) \<and>
     shares n (\<lambda>i. in_use (cs ! i)) (\<lambda>k. pw_conn_client (ws ! k)) \<and>
     idle_workers_ok ks n (\<lambda>k. pw_conn_client (ws ! k)) \<and> idle_slots_ok p n (\<lambda>i. in_use (cs ! i))"

definition run_ok :: "nat \<Rightarrow> 're proxy_priv \<Rightarrow> bool" where
  "run_ok n priv \<longleftrightarrow>
     base_ok priv \<and> pp_num_clients priv = int n \<and>
     (\<exists>cs ws. pp_clients priv = Some cs \<and> pp_client_workers priv = Some ws \<and>
        tables_ok n cs ws (pp_idle_workers priv) (pp_pool priv))"

section \<open>Sharing\<close>

lemma sharesD:
  assumes "shares n use own"
  shows "k < n \<Longrightarrow> own k = Some (Lent i) \<Longrightarrow> i < n \<and> use i"
    and "i < n \<Longrightarrow> use i \<Longrightarrow> \<exists>k < n. own k = Some (Lent i)"
    and "k < n \<Longrightarrow> j < n \<Longrightarrow> own k = Some (Lent i) \<Longrightarrow> own j = Some (Lent i) \<Longrightarrow> k = j"
  using assms unfolding shares_def by blast+

lemma sharesI:
  assumes "\<And>k i. k < n \<Longrightarrow> own k = Some (Lent i) \<Longrightarrow> i < n \<and> use i"
    and "\<And>i. i < n \<Longrightarrow> use i \<Longrightarrow> \<exists>k < n. own k = Some (Lent i)"
    and "\<And>k j i. k < n \<Longrightarrow> j < n \<Longrightarrow> own k = Some (Lent i) \<Longrightarrow> own j = Some (Lent i) \<Longrightarrow> k = j"
  shows "shares n use own"
  using assms unfolding shares_def by blast

lemma shares_keep: "\<exists>l < n. own l = Some (Lent j) \<Longrightarrow> own k \<noteq> Some (Lent j) \<Longrightarrow> \<exists>l < n. (own(k := x)) l = Some (Lent j)"
  by (metis fun_upd_other)

lemma shares_take:
  assumes "shares n use own" and "k < n" and "own k = Some (Held conn)" and "i < n" and "\<not> use i"
  shows "shares n (use(i := True)) (own(k := Some (Lent i)))"
proof (rule sharesI)
  note sh = sharesD [OF assms(1)]
  have new: "own l \<noteq> Some (Lent i)" if "l < n" for l
    using sh(1) [OF that] assms(5) by blast
  show "l < n \<Longrightarrow> (own(k := Some (Lent i))) l = Some (Lent j) \<Longrightarrow> j < n \<and> (use(i := True)) j" for l j
    using sh(1) [of l j] assms(4) by (cases "l = k") auto
  show "j < n \<Longrightarrow> (use(i := True)) j \<Longrightarrow> \<exists>l < n. (own(k := Some (Lent i))) l = Some (Lent j)" for j
    using assms(2,3) sh(2) [of j] shares_keep [of n own j k] by (cases "j = i") auto
  show "l < n \<Longrightarrow> m < n \<Longrightarrow> (own(k := Some (Lent i))) l = Some (Lent j) \<Longrightarrow>
      (own(k := Some (Lent i))) m = Some (Lent j) \<Longrightarrow> l = m" for l m j
    using sh(3) [of l m j] new [of l] new [of m] by (cases "l = k"; cases "m = k") auto
qed

lemma shares_put:
  assumes "shares n use own" and "k < n" and "own k = Some (Lent i)"
  shows "shares n (use(i := False)) (own(k := None))"
proof (rule sharesI)
  note sh = sharesD [OF assms(1)]
  show "l < n \<Longrightarrow> (own(k := None)) l = Some (Lent j) \<Longrightarrow> j < n \<and> (use(i := False)) j" for l j
    using sh(1) [of l j] sh(3) [of l k i] assms(2,3) by (cases "l = k") auto
  show "j < n \<Longrightarrow> (use(i := False)) j \<Longrightarrow> \<exists>l < n. (own(k := None)) l = Some (Lent j)" for j
    using assms(2,3) sh(2) [of j] shares_keep [of n own j k] by (cases "j = i") auto
  show "l < n \<Longrightarrow> m < n \<Longrightarrow> (own(k := None)) l = Some (Lent j) \<Longrightarrow> (own(k := None)) m = Some (Lent j) \<Longrightarrow> l = m" for l m j
    using sh(3) [of l m j] by (cases "l = k"; cases "m = k") auto
qed

lemma shares_other:
  assumes "shares n use own" and "\<And>i. own k \<noteq> Some (Lent i)" and "\<And>i. x \<noteq> Some (Lent i)"
  shows "shares n use (own(k := x))"
proof (rule sharesI)
  note sh = sharesD [OF assms(1)]
  show "l < n \<Longrightarrow> (own(k := x)) l = Some (Lent j) \<Longrightarrow> j < n \<and> use j" for l j
    using sh(1) [of l j] assms(3) [of j] by (cases "l = k") auto
  show "j < n \<Longrightarrow> use j \<Longrightarrow> \<exists>l < n. (own(k := x)) l = Some (Lent j)" for j
    using assms(2) sh(2) [of j] shares_keep [of n own j k] by blast
  show "l < n \<Longrightarrow> m < n \<Longrightarrow> (own(k := x)) l = Some (Lent j) \<Longrightarrow> (own(k := x)) m = Some (Lent j) \<Longrightarrow> l = m" for l m j
    using sh(3) [of l m j] assms(3) [of j] by (cases "l = k"; cases "m = k") auto
qed

lemma shares_cong:
  assumes "shares n use own" and "\<And>i. i < n \<Longrightarrow> use' i = use i" and "\<And>k. k < n \<Longrightarrow> own' k = own k"
  shows "shares n use' own'"
proof (rule sharesI)
  show "k < n \<Longrightarrow> own' k = Some (Lent i) \<Longrightarrow> i < n \<and> use' i" for k i
    using sharesD(1) [OF assms(1), of k i] assms(2) [of i] assms(3) [of k] by simp
  show "i < n \<Longrightarrow> use' i \<Longrightarrow> \<exists>k < n. own' k = Some (Lent i)" for i
    using sharesD(2) [OF assms(1), of i] assms(2) [of i] assms(3) by auto
  show "k < n \<Longrightarrow> j < n \<Longrightarrow> own' k = Some (Lent i) \<Longrightarrow> own' j = Some (Lent i) \<Longrightarrow> k = j" for k j i
    using sharesD(3) [OF assms(1), of k j i] assms(3) [of k] assms(3) [of j] by simp
qed

section \<open>Updates of the tables\<close>

lemma tables_slot:
  assumes "tables_ok n cs ws ks p" and "i < n" and "slot_ok pc" and "in_use pc = in_use (cs ! i)"
  shows "tables_ok n (cs[i := pc]) ws ks p"
proof -
  have "in_use (cs[i := pc] ! j) = in_use (cs ! j)" for j
    using assms by (cases "j = i") (auto simp: tables_ok_def)
  then show ?thesis
    using assms unfolding tables_ok_def by (auto simp: nth_list_update)
qed

lemma own_update: "k < length ws \<Longrightarrow> (\<lambda>j. pw_conn_client (ws[k := pw] ! j)) = (\<lambda>j. pw_conn_client (ws ! j))(k := pw_conn_client pw)"
  by (auto simp: nth_list_update)

lemma use_update: "i < length cs \<Longrightarrow> (\<lambda>j. in_use (cs[i := pc] ! j)) = (\<lambda>j. in_use (cs ! j))(i := in_use pc)"
  by (auto simp: nth_list_update)

lemma tables_worker:
  assumes t: "tables_ok n cs ws ks p" and "k < n" and "worker_up pw"
    and "\<And>i. pw_conn_client (ws ! k) \<noteq> Some (Lent i)" and "\<And>i. pw_conn_client pw \<noteq> Some (Lent i)"
    and ks: "idle_workers_ok ks' n ((\<lambda>j. pw_conn_client (ws ! j))(k := pw_conn_client pw))"
  shows "tables_ok n cs (ws[k := pw]) ks' p"
proof -
  note t' = t [unfolded tables_ok_def]
  have l: "k < length ws"
    using t' assms(2) by simp
  show ?thesis
    using t' assms(2,3) ks shares_other [of n _ "\<lambda>j. pw_conn_client (ws ! j)" k "pw_conn_client pw"] assms(4,5)
    unfolding tables_ok_def own_update [OF l] by (auto simp: nth_list_update)
qed

lemma idle_workers_keep:
  "idle_workers_ok ks n own \<Longrightarrow> (x = None \<longleftrightarrow> own k = None) \<Longrightarrow> idle_workers_ok ks n (own(k := x))"
  by (auto simp: idle_workers_ok_def)

lemma idle_workers_pop:
  "idle_workers_ok (k # ks) n own \<Longrightarrow> x \<noteq> None \<Longrightarrow> idle_workers_ok ks n (own(k := x)) \<and> k < n \<and> own k = None"
  by (auto simp: idle_workers_ok_def)

lemma idle_workers_push:
  "idle_workers_ok ks n own \<Longrightarrow> k < n \<Longrightarrow> own k \<noteq> None \<Longrightarrow> idle_workers_ok (k # ks) n (own(k := None))"
  by (auto simp: idle_workers_ok_def)

lemma idle_slots_take:
  assumes "idle_slots_ok p n use" and "i < n" and "\<not> use i"
  shows "idle_slots_ok (pool_take p i h) n (use(i := True))"
proof -
  obtain idle calls where p: "pool_ok p idle calls" "set idle = {i. i < n \<and> \<not> use i}" "\<forall>h. set (calls h) \<subseteq> {..<n}"
    using assms(1) by (auto simp: idle_slots_ok_def)
  have "i \<in> set idle" "distinct idle"
    using p assms(2,3) by (auto simp: pool_ok_def idle_ok_def)
  moreover have "set (recent_calls calls i h g) \<subseteq> {..<n}" for g
    using p(3) assms(2) set_remove1_subset [of i "calls g"] set_remove1_subset [of i "calls h"]
    by (auto simp: recent_calls_def without_slot_def)
  ultimately show ?thesis
    using pool_take_ok [OF p(1), of i h] p(2) unfolding idle_slots_ok_def
    by (intro exI [of _ "remove1 i idle"] exI [of _ "recent_calls calls i h"]) auto
qed

lemma idle_slots_put:
  assumes "idle_slots_ok p n use" and "i < n" and "use i"
  shows "idle_slots_ok (pool_put p i) n (use(i := False))"
proof -
  obtain idle calls where p: "pool_ok p idle calls" "set idle = {i. i < n \<and> \<not> use i}" "\<forall>h. set (calls h) \<subseteq> {..<n}"
    using assms(1) by (auto simp: idle_slots_ok_def)
  then show ?thesis
    using pool_put_ok [OF p(1), of i] assms(2,3) unfolding idle_slots_ok_def
    by (intro exI [of _ "idle @ [i]"] exI [of _ calls]) auto
qed

lemma tables_take:
  assumes t: "tables_ok n cs ws ks p" and "k < n" and "pw_conn_client (ws ! k) = Some (Held conn)" and "i < n"
    and "\<not> in_use (cs ! i)" and "slot_ok pc" and "in_use pc" and "worker_up pw" and "pw_conn_client pw = Some (Lent i)"
  shows "tables_ok n (cs[i := pc]) (ws[k := pw]) ks (pool_take p i h)"
proof -
  note t' = t [unfolded tables_ok_def]
  have l: "k < length ws" "i < length cs"
    using t' assms(2,4) by simp_all
  show ?thesis
    using t' assms idle_slots_take [of p n _ i h] shares_take [of n _ _ k conn i]
      idle_workers_keep [of ks n "\<lambda>k. pw_conn_client (ws ! k)" "Some (Lent i)" k]
    unfolding tables_ok_def own_update [OF l(1)] use_update [OF l(2)] by (auto simp: nth_list_update)
qed

lemma tables_put:
  assumes t: "tables_ok n cs ws ks p" and "k < n" and "pw_conn_client (ws ! k) = Some (Lent i)"
    and "slot_ok pc" and "\<not> in_use pc" and "worker_up pw" and "pw_conn_client pw = None"
  shows "tables_ok n (cs[i := pc]) (ws[k := pw]) (k # ks) (pool_put p i)"
proof -
  note t' = t [unfolded tables_ok_def]
  have i: "i < n" "in_use (cs ! i)"
    using t' sharesD(1) [of n _ _ k i] assms(2,3) by blast+
  have l: "k < length ws" "i < length cs"
    using t' assms(2) i by simp_all
  show ?thesis
    using t' assms i idle_slots_put [of p n _ i] shares_put [of n _ _ k i]
      idle_workers_push [of ks n "\<lambda>k. pw_conn_client (ws ! k)" k]
    unfolding tables_ok_def own_update [OF l(1)] use_update [OF l(2)] by (auto simp: nth_list_update)
qed

section \<open>The memory of the tables\<close>

lemma sum_list_update_int: "i < length xs \<Longrightarrow> (\<Sum>x\<leftarrow>xs[i := y]. f x) = (\<Sum>x\<leftarrow>xs. f x) - f (xs ! i) + (f y :: int)"
proof (induction xs arbitrary: i)
  case (Cons x xs)
  then show ?case
    by (cases i) auto
qed simp

lemma blocks_slot:
  "pp_clients priv = Some cs \<Longrightarrow> i < length cs \<Longrightarrow>
   proxy_blocks (priv\<lparr>pp_clients := Some (cs[i := pc])\<rparr>) = proxy_blocks priv - slot_blocks (cs ! i) + slot_blocks pc"
  by (simp add: proxy_blocks_def opt_block_def sum_list_update_int)

lemma blocks_worker:
  "pp_client_workers priv = Some ws \<Longrightarrow> k < length ws \<Longrightarrow>
   proxy_blocks (priv\<lparr>pp_client_workers := Some (ws[k := pw])\<rparr>) =
     proxy_blocks priv - pw_blocks (ws ! k) - client_blocks (held_conn (ws ! k)) + pw_blocks pw + client_blocks (held_conn pw)"
  by (simp add: proxy_blocks_def opt_block_def sum_list_update_int)

lemma blocks_lists [simp]:
  "proxy_blocks (priv\<lparr>pp_pool := p\<rparr>) = proxy_blocks priv" "proxy_blocks (priv\<lparr>pp_idle_workers := ks\<rparr>) = proxy_blocks priv"
  by (simp_all add: proxy_blocks_def)

section \<open>Changes of the tables of a running proxy\<close>

lemma run_okE:
  assumes "run_ok n priv"
  obtains cs ws where "pp_clients priv = Some cs" "pp_client_workers priv = Some ws" "length cs = n" "length ws = n"
    "base_ok priv" "pp_num_clients priv = int n" "tables_ok n cs ws (pp_idle_workers priv) (pp_pool priv)"
  using assms unfolding run_ok_def tables_ok_def by blast

lemma base_ok_simps [simp]:
  "base_ok (priv\<lparr>pp_clients := cs\<rparr>) = base_ok priv" "base_ok (priv\<lparr>pp_client_workers := ws\<rparr>) = base_ok priv"
  "base_ok (priv\<lparr>pp_pool := p\<rparr>) = base_ok priv" "base_ok (priv\<lparr>pp_idle_workers := ks\<rparr>) = base_ok priv"
  "base_ok (priv\<lparr>pp_usable_clients := u\<rparr>) = base_ok priv"
  by (simp_all add: base_ok_def)

lemma run_slot_ok: "run_ok n priv \<Longrightarrow> i < n \<Longrightarrow> slot_ok (slot_of priv i)"
  by (auto elim!: run_okE simp: tables_ok_def)

lemma run_worker_up: "run_ok n priv \<Longrightarrow> k < n \<Longrightarrow> worker_up (worker_of priv k)"
  by (auto elim!: run_okE simp: tables_ok_def)

lemma run_workers_length: "run_ok n priv \<Longrightarrow> length (the (pp_client_workers priv)) = n"
  by (auto elim!: run_okE)

lemma run_lent:
  assumes "run_ok n priv" and "k < n" and "pw_conn_client (worker_of priv k) = Some (Lent i)"
  shows "i < n \<and> in_use (slot_of priv i)"
proof -
  obtain cs ws where p: "pp_clients priv = Some cs" "pp_client_workers priv = Some ws"
    and sh: "shares n (\<lambda>i. in_use (cs ! i)) (\<lambda>k. pw_conn_client (ws ! k))"
    using assms(1) by (auto elim!: run_okE simp: tables_ok_def)
  show ?thesis
    using sharesD(1) [OF sh assms(2)] assms(3) p by simp
qed

lemma run_slot:
  assumes "run_ok n priv" and "i < n" and "slot_ok pc" and "in_use pc = in_use (slot_of priv i)"
  shows "run_ok n (set_slot priv i pc)"
    and "proxy_blocks (set_slot priv i pc) = proxy_blocks priv - slot_blocks (slot_of priv i) + slot_blocks pc"
proof -
  obtain cs ws where p: "pp_clients priv = Some cs" "pp_client_workers priv = Some ws" "length cs = n" "length ws = n"
    "base_ok priv" "pp_num_clients priv = int n" and t: "tables_ok n cs ws (pp_idle_workers priv) (pp_pool priv)"
    using run_okE [OF assms(1)] .
  show "run_ok n (set_slot priv i pc)"
    using tables_slot [OF t assms(2,3)] assms(4) p by (simp add: run_ok_def)
  show "proxy_blocks (set_slot priv i pc) = proxy_blocks priv - slot_blocks (slot_of priv i) + slot_blocks pc"
    using blocks_slot [OF p(1)] assms(2) p by simp
qed

lemma run_worker:
  assumes "run_ok n priv" and "k < n" and "worker_up pw"
    and "pw_conn_client (worker_of priv k) = Some (Held conn)" and "pw_conn_client pw = Some (Held conn')"
  shows "run_ok n (set_worker priv k pw)"
    and "proxy_blocks (set_worker priv k pw) = proxy_blocks priv - pw_blocks (worker_of priv k) - client_blocks (Some conn) +
      pw_blocks pw + client_blocks (Some conn')"
proof -
  obtain cs ws where p: "pp_clients priv = Some cs" "pp_client_workers priv = Some ws" "length cs = n" "length ws = n"
    "base_ok priv" "pp_num_clients priv = int n" and t: "tables_ok n cs ws (pp_idle_workers priv) (pp_pool priv)"
    using run_okE [OF assms(1)] .
  have "idle_workers_ok (pp_idle_workers priv) n ((\<lambda>j. pw_conn_client (ws ! j))(k := pw_conn_client pw))"
    using t assms(4,5) p(2) by (intro idle_workers_keep) (simp_all add: tables_ok_def)
  from tables_worker [OF t assms(2,3) _ _ this] show "run_ok n (set_worker priv k pw)"
    using assms(4,5) p by (simp add: run_ok_def)
  show "proxy_blocks (set_worker priv k pw) = proxy_blocks priv - pw_blocks (worker_of priv k) - client_blocks (Some conn) +
      pw_blocks pw + client_blocks (Some conn')"
    using blocks_worker [OF p(2)] assms(2,4,5) p by (simp add: held_conn_def)
qed

text \<open>The worker \<open>k\<close> lends its connection to the slot \<open>i\<close>.\<close>

lemma run_take:
  fixes h :: u8
  assumes "run_ok n priv" and "k < n" and "pw_conn_client (worker_of priv k) = Some (Held conn)" and "i < n"
    and "\<not> in_use (slot_of priv i)" and "slot_ok pc" and "in_use pc"
  defines "priv' \<equiv> set_worker ((set_slot priv i pc)\<lparr>pp_pool := pool_take (pp_pool priv) i h\<rparr>) k
    ((worker_of priv k)\<lparr>pw_conn_client := Some (Lent i)\<rparr>)"
  shows "run_ok n priv'"
    and "proxy_blocks priv' = proxy_blocks priv - slot_blocks (slot_of priv i) + slot_blocks pc - client_blocks (Some conn)"
proof -
  obtain cs ws where p: "pp_clients priv = Some cs" "pp_client_workers priv = Some ws" "length cs = n" "length ws = n"
    "base_ok priv" "pp_num_clients priv = int n" and t: "tables_ok n cs ws (pp_idle_workers priv) (pp_pool priv)"
    using run_okE [OF assms(1)] .
  have up: "worker_up ((ws ! k)\<lparr>pw_conn_client := Some (Lent i)\<rparr>)"
    using run_worker_up [OF assms(1,2)] p(2) by (simp add: worker_up_def)
  show "run_ok n priv'"
    using tables_take [OF t assms(2) _ assms(4) _ assms(6,7) up] assms(3,5) p by (simp add: run_ok_def priv'_def)
  show "proxy_blocks priv' = proxy_blocks priv - slot_blocks (slot_of priv i) + slot_blocks pc - client_blocks (Some conn)"
    using blocks_slot [OF p(1), of i pc] assms(2,3,4) p
      blocks_worker [of "(set_slot priv i pc)\<lparr>pp_pool := pool_take (pp_pool priv) i h\<rparr>" ws k "(ws ! k)\<lparr>pw_conn_client := Some (Lent i)\<rparr>"]
    by (simp add: priv'_def held_conn_def pw_blocks_def client_blocks_def)
qed

section \<open>Acquiring a slot\<close>

text \<open>What an attempt to give the client to the slot \<open>i\<close> leaves.\<close>

definition tried ::
    "'re proxy_priv \<Rightarrow> conn_handle \<Rightarrow> os \<Rightarrow> nat \<Rightarrow> int \<Rightarrow> conn_handle option \<Rightarrow> 're proxy_priv \<Rightarrow> os \<Rightarrow> bool" where
  "tried priv conn s i r back priv' s' \<longleftrightarrow>
     (\<exists>pc. priv' = set_slot priv i pc \<and> slot_ok pc \<and> live s' = live s \<and> (os_wf s \<longrightarrow> os_wf s') \<and> r \<le> 0 \<and>
        slot_blocks pc + client_blocks back = slot_blocks (slot_of priv i) + client_blocks (Some conn) \<and>
        (if r = 0 then \<not> in_use (slot_of priv i) \<and> in_use pc \<and> back = None
         else in_use pc = in_use (slot_of priv i) \<and> (\<exists>c. back = Some c \<and> c_priv c \<noteq> None)))"

text \<open>What attempts that did not give the client to a slot leave.\<close>

definition searched ::
    "nat \<Rightarrow> 're proxy_priv \<Rightarrow> conn_handle \<Rightarrow> os \<Rightarrow> conn_handle \<Rightarrow> 're proxy_priv \<Rightarrow> os \<Rightarrow> bool" where
  "searched n priv conn s back priv' s' \<longleftrightarrow>
     run_ok n priv' \<and> priv' = priv\<lparr>pp_clients := pp_clients priv'\<rparr> \<and> live s' = live s \<and> (os_wf s \<longrightarrow> os_wf s') \<and> c_priv back \<noteq> None \<and>
     proxy_blocks priv' + client_blocks (Some back) = proxy_blocks priv + client_blocks (Some conn)"

lemma accept_wf:
  assumes "proxy_conn_accept s pv conn callsign only = (r, bk, pv', s')" and "slot_ready pv"
    and "pv_conn_client pv = None \<Longrightarrow> slot_idle pv" and "c_priv conn \<noteq> None"
  shows "os_wf s \<longrightarrow> os_wf s'"
proof (cases "pv_conn_client pv \<noteq> None \<or> (only \<and> pv_callsign pv \<noteq> callsign)")
  case True
  then show ?thesis
    using assms(1) by (auto simp: proxy_conn_accept_def)
next
  case False
  then show ?thesis
    using proxy_conn_accept_cases [OF assms(2) _ _ assms(4,1)] assms(3) by (auto simp: listened_def)
qed

lemma slot_accept_tried:
  assumes "run_ok n priv" and "i < n" and "c_priv conn \<noteq> None"
  shows "\<exists>r back priv' s'. slot_accept s priv i conn callsign only = Some (r, back, priv', s') \<and> tried priv conn s i r back priv' s'"
proof -
  obtain pv where pv: "pc_priv (slot_of priv i) = Some pv" "slot_ready pv" "pv_conn_client pv = None \<longrightarrow> slot_idle pv"
    using run_slot_ok [OF assms(1,2)] by (auto simp: slot_ok_def)
  obtain r bk pv' s' where a: "proxy_conn_accept s pv conn callsign only = (r, bk, pv', s')" by (metis prod_cases4)
  note acc = accept_accepted [OF a pv(2) assms(3), unfolded accepted_def]
  have "slot_ok (with_pcpriv (slot_of priv i) pv')"
    using acc pv by (auto simp: slot_ok_def split: if_splits)
  moreover have "os_wf s \<longrightarrow> os_wf s'"
    using accept_wf [OF a pv(2) _ assms(3)] pv(3) by blast
  ultimately have "tried priv conn s i r bk (set_slot priv i (with_pcpriv (slot_of priv i) pv')) s'"
    using acc pv unfolding tried_def
    by (intro exI [of _ "with_pcpriv (slot_of priv i) pv'"])
       (auto simp: in_use_def slot_idle_def slot_blocks_pv(1) slot_blocks_pv(2) [OF pv(1)] split: if_splits)
  then show ?thesis
    using a pv(1) by (simp add: slot_accept_def)
qed

lemma tried_searched:
  assumes "tried priv conn s i r back priv' s'" and "run_ok n priv" and "i < n" and "r \<noteq> 0"
  shows "\<exists>c. back = Some c \<and> searched n priv conn s c priv' s'"
proof -
  obtain pc where pc: "priv' = set_slot priv i pc" "slot_ok pc" "live s' = live s" "in_use pc = in_use (slot_of priv i)" "os_wf s \<longrightarrow> os_wf s'"
    "slot_blocks pc + client_blocks back = slot_blocks (slot_of priv i) + client_blocks (Some conn)"
    and b: "\<exists>c. back = Some c \<and> c_priv c \<noteq> None"
    using assms(1,4) unfolding tried_def by auto
  then obtain c where c: "back = Some c" "c_priv c \<noteq> None"
    by blast
  note rs = run_slot [OF assms(2,3) pc(2,4)]
  show ?thesis
    using pc rs c unfolding searched_def by simp
qed

lemma searched_refl: "run_ok n priv \<Longrightarrow> c_priv conn \<noteq> None \<Longrightarrow> searched n priv conn s conn priv s"
  by (simp add: searched_def)

lemma searched_trans:
  "searched n priv conn s c1 priv1 s1 \<Longrightarrow> searched n priv1 c1 s1 c2 priv2 s2 \<Longrightarrow> searched n priv conn s c2 priv2 s2"
  unfolding searched_def by (elim conjE, intro conjI) (metis proxy_priv.surjective proxy_priv.update_convs(1) | simp)+

lemma reconnect_searches:
  assumes "chain NextByCall (mem (pp_pool priv)) prev c xs" and "set xs \<subseteq> {..<n}" and "run_ok n priv" and "c_priv conn \<noteq> None"
  shows "\<exists>found r back priv' s'. reconnect s priv conn callsign c = Some (found, r, back, priv', s') \<and>
    (case found of
       None \<Rightarrow> \<exists>conn'. back = Some conn' \<and> searched n priv conn s conn' priv' s'
     | Some i \<Rightarrow> i < n \<and> (\<exists>conn1 priv1 s1. searched n priv conn s conn1 priv1 s1 \<and> tried priv1 conn1 s1 i r back priv' s'))"
  using assms
proof (induction xs arbitrary: c priv conn s)
  case Nil
  then show ?case
    by (subst reconnect.simps) (simp add: searched_refl)
next
  case (Cons i xs)
  have i: "i < n" "mem (pp_pool priv) c = Some i" "chain NextByCall (mem (pp_pool priv)) prev (NextByCall i) xs" "set xs \<subseteq> {..<n}"
    using Cons.prems(1,2) by simp_all
  obtain r bk priv1 s1 where a: "slot_accept s priv i conn callsign True = Some (r, bk, priv1, s1)"
    and t: "tried priv conn s i r bk priv1 s1"
    using slot_accept_tried [OF Cons.prems(3) i(1) Cons.prems(4)] by blast
  show ?case
  proof (cases "r = - EBUSY")
    case False
    then have "reconnect s priv conn callsign c = Some (Some i, r, bk, priv1, s1)"
      using i(2) a by (subst reconnect.simps) simp
    then show ?thesis
      using t i(1) searched_refl [OF Cons.prems(3,4)] by auto
  next
    case True
    then have "r \<noteq> 0"
      by simp
    from tried_searched [OF t Cons.prems(3) i(1) this]
    obtain conn1 where c1: "bk = Some conn1" "searched n priv conn s conn1 priv1 s1"
      by blast
    have p1: "run_ok n priv1" "c_priv conn1 \<noteq> None" "pp_pool priv1 = pp_pool priv"
      using c1(2) unfolding searched_def by (simp, simp, metis proxy_priv.select_convs(2) proxy_priv.surjective proxy_priv.update_convs(1))
    from Cons.IH [of priv1 "NextByCall i" conn1 s1] i(3,4) p1
    obtain found r2 b2 priv2 s2 where r: "reconnect s1 priv1 conn1 callsign (NextByCall i) = Some (found, r2, b2, priv2, s2)"
      and o: "case found of None \<Rightarrow> \<exists>conn'. b2 = Some conn' \<and> searched n priv1 conn1 s1 conn' priv2 s2
        | Some j \<Rightarrow> j < n \<and> (\<exists>conn3 priv3 s3. searched n priv1 conn1 s1 conn3 priv3 s3 \<and> tried priv3 conn3 s3 j r2 b2 priv2 s2)"
      by auto
    have "reconnect s priv conn callsign c = Some (found, r2, b2, priv2, s2)"
      using i(2) a True r c1(1) by (subst reconnect.simps) simp
    then show ?thesis
      using o searched_trans [OF c1(2)] by (auto split: option.splits) blast+
  qed
qed

text \<open>What the function of a worker keeps, and the account of the memory.\<close>

definition runs_on :: "nat \<Rightarrow> 're proxy_priv \<times> os \<Rightarrow> 're proxy_priv \<times> os \<Rightarrow> bool" where
  "runs_on n st st' \<longleftrightarrow>
     run_ok n (fst st') \<and> (os_wf (snd st) \<longrightarrow> os_wf (snd st')) \<and> live (snd st') - proxy_blocks (fst st') = live (snd st) - proxy_blocks (fst st)"

lemma runs_on_trans: "runs_on n st st1 \<Longrightarrow> runs_on n st1 st2 \<Longrightarrow> runs_on n st st2"
  by (simp add: runs_on_def)

lemma run_pool:
  assumes "run_ok n priv"
  obtains idle calls where "pool_ok (pp_pool priv) idle calls" "set idle \<subseteq> {..<n}" "\<forall>h. set (calls h) \<subseteq> {..<n}"
proof -
  obtain cs where "idle_slots_ok (pp_pool priv) n (\<lambda>i. in_use (cs ! i))"
    using assms by (auto elim!: run_okE simp: tables_ok_def)
  then obtain idle calls where "pool_ok (pp_pool priv) idle calls" "set idle = {i. i < n \<and> \<not> in_use (cs ! i)}"
    "\<forall>h. set (calls h) \<subseteq> {..<n}"
    unfolding idle_slots_ok_def by blast
  then show thesis
    by (intro that [of idle calls]) auto
qed

lemma idle_head:
  assumes "run_ok n priv" and "mem (pp_pool priv) IdleHead = Some i"
  shows "i < n"
proof -
  obtain idle calls where "pool_ok (pp_pool priv) idle calls" "set idle \<subseteq> {..<n}"
    using run_pool [OF assms(1)] .
  then show ?thesis
    using assms(2) by (cases idle) (auto simp: pool_ok_def idle_ok_def)
qed

lemma searched_parts:
  "searched n priv conn s c priv' s' \<Longrightarrow> pp_client_workers priv' = pp_client_workers priv \<and> pp_pool priv' = pp_pool priv"
  unfolding searched_def by (metis proxy_priv.ext_inject proxy_priv.surjective proxy_priv.update_convs(1))

lemma searched_held:
  assumes "searched n priv conn s c priv1 s1" and "k < n" and "run_ok n priv"
    and "pw_conn_client (worker_of priv k) = Some (Held conn)"
  defines "priv' \<equiv> set_worker priv1 k ((worker_of priv1 k)\<lparr>pw_conn_client := Some (Held c)\<rparr>)"
  shows "runs_on n (priv, s) (priv', s1) \<and> pw_conn_client (worker_of priv' k) = Some (Held c)"
proof -
  have w: "worker_of priv1 k = worker_of priv k" "pw_conn_client (worker_of priv1 k) = Some (Held conn)"
    using searched_parts [OF assms(1)] assms(4) by simp_all
  have sr: "run_ok n priv1" "live s1 = live s" "c_priv c \<noteq> None" "os_wf s \<longrightarrow> os_wf s1"
    "proxy_blocks priv1 + client_blocks (Some c) = proxy_blocks priv + client_blocks (Some conn)"
    using assms(1) unfolding searched_def by blast+
  have up: "worker_up ((worker_of priv1 k)\<lparr>pw_conn_client := Some (Held c)\<rparr>)"
    using run_worker_up [OF assms(3,2)] sr(3) w(1) by (simp add: worker_up_def)
  have rw: "run_ok n priv'" "proxy_blocks priv' = proxy_blocks priv1 - client_blocks (Some conn) + client_blocks (Some c)"
    using run_worker [OF sr(1) assms(2) up w(2)] by (simp_all add: priv'_def pw_blocks_def)
  have "k < length (the (pp_client_workers priv1))"
    using run_workers_length [OF sr(1)] assms(2) by simp
  then show ?thesis
    using sr rw by (simp add: runs_on_def priv'_def)
qed

lemma tried_lent:
  fixes h :: u8
  assumes "searched n priv conn s conn1 priv1 s1" and "tried priv1 conn1 s1 i 0 bk priv2 s2" and "i < n" and "k < n"
    and "pw_conn_client (worker_of priv k) = Some (Held conn)"
  defines "priv' \<equiv> set_worker (priv2\<lparr>pp_pool := pool_take (pp_pool priv2) i h\<rparr>) k
    ((worker_of priv2 k)\<lparr>pw_conn_client := Some (Lent i)\<rparr>)"
  shows "runs_on n (priv, s) (priv', s2) \<and> pw_conn_client (worker_of priv' k) = Some (Lent i)"
proof -
  note sr = assms(1) [unfolded searched_def]
  have w: "pw_conn_client (worker_of priv1 k) = Some (Held conn)"
    using searched_parts [OF assms(1)] assms(5) by simp
  obtain pc where pc: "priv2 = set_slot priv1 i pc" "slot_ok pc" "live s2 = live s1" "\<not> in_use (slot_of priv1 i)" "in_use pc" "os_wf s1 \<longrightarrow> os_wf s2"
    "slot_blocks pc = slot_blocks (slot_of priv1 i) + client_blocks (Some conn1)"
    using assms(2) unfolding tried_def by (auto simp: client_blocks_def)
  have p': "priv' = set_worker ((set_slot priv1 i pc)\<lparr>pp_pool := pool_take (pp_pool priv1) i h\<rparr>) k
      ((worker_of priv1 k)\<lparr>pw_conn_client := Some (Lent i)\<rparr>)"
    by (simp add: priv'_def pc(1))
  have len: "k < length (the (pp_client_workers priv1))"
    using run_workers_length [of n priv1] sr assms(4) by simp
  note rt = run_take [OF _ assms(4) w assms(3) pc(4,2,5), of h, folded p']
  show ?thesis
    using rt sr pc len by (simp add: runs_on_def p')
qed

text \<open>How \<open>worker_acquire\<close> ends when a slot is idle: the last attempt decides.\<close>

definition acquire_end ::
    "int \<Rightarrow> nat \<Rightarrow> conn_handle option \<Rightarrow> 're proxy_priv \<Rightarrow> os \<Rightarrow> nat \<Rightarrow> u8 \<Rightarrow> nat option \<times> 're proxy_priv \<times> os" where
  "acquire_end r i back priv s k hash =
     (if r < 0 then (None, set_worker priv k ((worker_of priv k)\<lparr>pw_conn_client := map_option Held back\<rparr>), s)
      else (Some i, set_worker (priv\<lparr>pp_pool := pool_take (pp_pool priv) i hash\<rparr>) k
              ((worker_of priv k)\<lparr>pw_conn_client := Some (Lent i)\<rparr>), s))"

lemma acquire_tries:
  assumes run: "run_ok n priv" and conn: "c_priv conn \<noteq> None" and head: "mem (pp_pool priv) IdleHead = Some idlest"
  shows "\<exists>i r back priv2 s2 conn1 priv1 s1. i < n \<and> searched n priv conn s conn1 priv1 s1 \<and> tried priv1 conn1 s1 i r back priv2 s2 \<and>
    worker_acquire s priv k conn callsign hash = Some (acquire_end r i back priv2 s2 k hash)"
proof -
  obtain idle calls where pool: "pool_ok (pp_pool priv) idle calls" "set idle \<subseteq> {..<n}" "\<forall>h. set (calls h) \<subseteq> {..<n}"
    using run_pool [OF run] .
  then have ch: "chain NextByCall (mem (pp_pool priv)) (prev_by_call_ptr (pp_pool priv)) (Bucket hash) (calls hash)"
    by (simp add: pool_ok_def calls_ok_def)
  obtain found r bk priv1 s1 where 1: "reconnect s priv conn callsign (Bucket hash) = Some (found, r, bk, priv1, s1)"
    and o: "case found of None \<Rightarrow> \<exists>conn'. bk = Some conn' \<and> searched n priv conn s conn' priv1 s1
     | Some i \<Rightarrow> i < n \<and> (\<exists>conn1 priv0 s0. searched n priv conn s conn1 priv0 s0 \<and> tried priv0 conn1 s0 i r bk priv1 s1)"
    using reconnect_searches [OF ch pool(3) [rule_format] run conn] by blast
  show ?thesis
  proof (cases found)
    case None
    then obtain conn' where c: "bk = Some conn'" "searched n priv conn s conn' priv1 s1"
      using o by auto
    then have "run_ok n priv1" "c_priv conn' \<noteq> None"
      by (simp_all add: searched_def)
    from slot_accept_tried [OF this(1) idle_head [OF run head] this(2), of s1 callsign False]
    obtain r2 b2 priv2 s2 where a: "slot_accept s1 priv1 idlest conn' callsign False = Some (r2, b2, priv2, s2)"
      "tried priv1 conn' s1 idlest r2 b2 priv2 s2"
      by blast
    then have "worker_acquire s priv k conn callsign hash = Some (acquire_end r2 idlest b2 priv2 s2 k hash)"
      using 1 c None head by (simp add: worker_acquire_def acquire_end_def)
    then show ?thesis
      using a c idle_head [OF run head] by blast
  next
    case (Some i)
    then have "worker_acquire s priv k conn callsign hash = Some (acquire_end r i bk priv1 s1 k hash)"
      using 1 head by (simp add: worker_acquire_def acquire_end_def)
    then show ?thesis
      using o Some by simp blast
  qed
qed

lemma worker_acquire_runs:
  assumes run: "run_ok n priv" and "k < n" and held: "pw_conn_client (worker_of priv k) = Some (Held conn)"
  shows "\<exists>slot priv' s'. worker_acquire s priv k conn callsign hash = Some (slot, priv', s') \<and> runs_on n (priv, s) (priv', s') \<and>
    (case slot of None \<Rightarrow> \<exists>c. pw_conn_client (worker_of priv' k) = Some (Held c) | Some i \<Rightarrow> pw_conn_client (worker_of priv' k) = Some (Lent i))"
proof (cases "mem (pp_pool priv) IdleHead")
  case None
  then show ?thesis
    using run held by (simp add: worker_acquire_def runs_on_def)
next
  case (Some idlest)
  have conn: "c_priv conn \<noteq> None"
    using run_worker_up [OF run assms(2)] held by (simp add: worker_up_def)
  obtain i r bk priv2 s2 conn1 priv1 s1 where i: "i < n" "searched n priv conn s conn1 priv1 s1" "tried priv1 conn1 s1 i r bk priv2 s2"
    and acq: "worker_acquire s priv k conn callsign hash = Some (acquire_end r i bk priv2 s2 k hash)"
    using acquire_tries [OF run conn Some] by blast
  show ?thesis
  proof (cases "r < 0")
    case True
    have "run_ok n priv1"
      using i(2) by (simp add: searched_def)
    from tried_searched [OF i(3) this i(1)] True
    obtain c where c: "bk = Some c" "searched n priv1 conn1 s1 c priv2 s2"
      by auto
    show ?thesis
      using searched_held [OF searched_trans [OF i(2) c(2)] assms(2) run held] acq True c(1) by (simp add: acquire_end_def)
  next
    case False
    then have "r = 0"
      using i(3) by (auto simp: tried_def)
    then show ?thesis
      using tried_lent [OF i(2) _ i(1) assms(2) held] i(3) acq by (simp add: acquire_end_def)
  qed
qed

section \<open>Giving the worker and the slot back\<close>

lemma os_free_wf [simp]: "os_wf (os_free s) = os_wf s"
  by (simp add: os_wf_def os_free_def)

lemma conn_free_wf: "conn_free s conn = (conn', s') \<Longrightarrow> os_wf s \<Longrightarrow> os_wf s'"
  using conn_free_frame [of s conn conn' s'] by (auto simp: os_wf_def split: if_splits)

lemma run_release:
  assumes run: "run_ok n priv" and k: "k < n" and held: "pw_conn_client (worker_of priv k) = Some (Held conn)"
    and rel: "worker_release s priv k conn = (priv', s')"
  shows "runs_on n (priv, s) (priv', s')" and "pw_conn_client (worker_of priv' k) = None"
proof -
  obtain cs ws where p: "pp_clients priv = Some cs" "pp_client_workers priv = Some ws" "length cs = n" "length ws = n"
    "base_ok priv" "pp_num_clients priv = int n" and t: "tables_ok n cs ws (pp_idle_workers priv) (pp_pool priv)"
    using run_okE [OF run] .
  let ?pw = "(ws ! k)\<lparr>pw_conn_client := None\<rparr>"
  have up: "worker_up ?pw"
    using run_worker_up [OF run k] p(2) by (simp add: worker_up_def)
  have "idle_workers_ok (k # pp_idle_workers priv) n ((\<lambda>j. pw_conn_client (ws ! j))(k := pw_conn_client ?pw))"
    using t held p(2) k by (simp add: tables_ok_def idle_workers_push)
  from tables_worker [OF t k up _ _ this]
  have t': "tables_ok n cs (ws[k := ?pw]) (k # pp_idle_workers priv) (pp_pool priv)"
    using held p(2) by simp
  obtain c1 s1 where f: "conn_free s conn = (c1, s1)" by (metis surj_pair)
  note fl = conn_free_managed [OF f]
  have wf: "os_wf s \<longrightarrow> os_wf s1"
    using conn_free_wf [OF f] by blast
  have run': "priv' = (set_worker priv k ?pw)\<lparr>pp_idle_workers := k # pp_idle_workers priv\<rparr>" "s' = os_free s1"
    using rel f p(2) by (simp_all add: worker_release_def)
  have "proxy_blocks priv' = proxy_blocks priv - client_blocks (Some conn)"
    using blocks_worker [OF p(2), of k ?pw] k p held by (simp add: run' held_conn_def pw_blocks_def client_blocks_def)
  then show "runs_on n (priv, s) (priv', s')"
    using t' p fl wf by (simp add: runs_on_def run_ok_def run' client_blocks_def)
  show "pw_conn_client (worker_of priv' k) = None"
    using p k by (simp add: run')
qed

lemma run_update:
  assumes "run_ok n priv"
  shows "\<exists>priv'. proxy_update_registration priv = Some priv' \<and> run_ok n priv' \<and> proxy_blocks priv' = proxy_blocks priv \<and>
    pp_client_workers priv' = pp_client_workers priv \<and> pp_clients priv' = pp_clients priv \<and> pp_res priv' = pp_res priv"
proof -
  have "base_ok priv"
    using assms by (simp add: run_ok_def)
  from update_registration_ok [OF this] show ?thesis
    using assms by (auto simp: run_ok_def)
qed

lemma worker_end_runs:
  assumes run: "run_ok n priv" and k: "k < n" and lent: "pw_conn_client (worker_of priv k) = Some (Lent i)"
  shows "\<exists>priv' s'. worker_end s priv k i = Some (priv', s') \<and> runs_on n (priv, s) (priv', s') \<and> pw_conn_client (worker_of priv' k) = None"
proof -
  obtain cs ws where p: "pp_clients priv = Some cs" "pp_client_workers priv = Some ws" "length cs = n" "length ws = n"
    "base_ok priv" "pp_num_clients priv = int n" and t: "tables_ok n cs ws (pp_idle_workers priv) (pp_pool priv)"
    using run_okE [OF run] .
  have i: "i < n" "in_use (slot_of priv i)"
    using run_lent [OF run k lent] by simp_all
  obtain pv where pv: "pc_priv (slot_of priv i) = Some pv" "slot_ready pv"
    using run_slot_ok [OF run i(1)] by (auto simp: slot_ok_def)
  obtain bk pv' s1 where f: "proxy_conn_finish s pv = (bk, pv', s1)" by (metis prod_cases3)
  note fk = finish_keeps [OF f pv(2)]
  obtain conn where conn: "bk = Some conn"
    using fk i(2) pv(1) by (cases bk) (auto simp: in_use_def)
  obtain c1 s2 where fr: "conn_free s1 conn = (c1, s2)" by (metis surj_pair)
  let ?pc = "with_pcpriv (cs ! i) pv'" and ?pw = "(ws ! k)\<lparr>pw_conn_client := None\<rparr>"
  define priv1 where "priv1 = priv\<lparr>pp_clients := Some (cs[i := ?pc]), pp_pool := pool_put (pp_pool priv) i,
    pp_client_workers := Some (ws[k := ?pw]), pp_idle_workers := k # pp_idle_workers priv\<rparr>"
  have "worker_up ?pw" "slot_ok ?pc" "\<not> in_use ?pc"
    using run_worker_up [OF run k] p(2) fk by (simp_all add: worker_up_def slot_ok_def in_use_def slot_idle_def)
  from tables_put [OF t k _ this(2,3,1)] have run1: "run_ok n priv1"
    using p lent by (simp add: run_ok_def priv1_def)
  have "proxy_blocks priv1 = proxy_blocks priv - pv_blocks pv + pv_blocks pv'"
    using blocks_slot [OF p(1), of i ?pc] p k i lent pv(1)
      blocks_worker [of "(set_slot priv i ?pc)\<lparr>pp_pool := pool_put (pp_pool priv) i\<rparr>" ws k ?pw]
    by (simp add: priv1_def held_conn_def pw_blocks_def client_blocks_def slot_blocks_pv(1) slot_blocks_pv(2))
  then have acc: "live s2 - 1 - proxy_blocks priv1 = live s - proxy_blocks priv"
    using fk conn_free_managed [OF fr] by (simp add: conn drains_def client_blocks_def)
  have wf: "os_wf s \<longrightarrow> os_wf s2"
    using conn_free_wf [OF fr] fk drains_wf [of s s1] by blast
  obtain priv2 where u: "proxy_update_registration priv1 = Some priv2" "run_ok n priv2" "proxy_blocks priv2 = proxy_blocks priv1"
    "pp_client_workers priv2 = pp_client_workers priv1"
    using run_update [OF run1] by blast
  have "worker_end s priv k i = Some (priv2, os_free s2)"
    using p pv(1) f conn fr u(1) by (simp add: worker_end_def worker_release_def priv1_def)
  then show ?thesis
    using u acc k p wf by (simp add: runs_on_def priv1_def)
qed

section \<open>The function of a worker\<close>

lemma os_alloc_drains:
  assumes "os_alloc s = (ok, s1)"
  shows "next_fd s1 = next_fd s \<and> socks s1 = socks s"
  using assms by (auto simp: os_alloc_def os_try_def split: list.splits prod.splits if_splits)

lemma regex_is_match_drains: "regex_is_match pcre s re subject = (r, s') \<Longrightarrow> drains s s'"
  using os_alloc_drains [of s] os_alloc_live [of s]
  by (auto simp: regex_is_match_def drains_def fd_weight_def Let_def split: option.splits prod.splits if_splits)

lemma authorize_callsign_drains:
  assumes "proxy_authorize_callsign pcre s res callsign = (r, s')"
  shows "drains s s'"
proof -
  obtain r1 s1 where 1: "(case re_calls_denied res of None \<Rightarrow> (0, s) | Some re \<Rightarrow> regex_is_match pcre s re callsign) = (r1, s1)"
    by (metis surj_pair)
  then have d1: "drains s s1"
    using regex_is_match_drains by (auto split: option.splits)
  have "s' = s1 \<or> (\<exists>re r2. regex_is_match pcre s1 re callsign = (r2, s'))"
    using assms 1 by (auto simp: proxy_authorize_callsign_def split: if_splits option.splits prod.splits)
  then show ?thesis
    using d1 drains_trans [OF d1] regex_is_match_drains by blast
qed

lemma authorize_drains:
  assumes "proxy_worker_authorize pcre res ctx password rnd buff s conn callsign = (r, callsign', s')"
  shows "drains s s'"
proof -
  note steps = conn_send_drains conn_recv_drains(1) authorize_callsign_drains
  show ?thesis
    using assms unfolding proxy_worker_authorize_def
    by (auto simp: Let_def split: if_splits prod.splits dest!: steps intro: drains_trans) (meson drains_trans)+
qed

lemma runs_on_drains: "run_ok n priv \<Longrightarrow> drains s s' \<Longrightarrow> runs_on n (priv, s) (priv, s')"
  using drains_wf [of s s'] by (simp add: runs_on_def drains_def)

lemma runs_on_update:
  assumes "runs_on n (priv0, s0) (priv, s)"
  shows "\<exists>priv'. proxy_update_registration priv = Some priv' \<and> runs_on n (priv0, s0) (priv', s) \<and>
    pp_client_workers priv' = pp_client_workers priv \<and> pp_res priv' = pp_res priv"
  using run_update [of n priv] assms by (auto simp: runs_on_def)

text \<open>After the login: acquiring a slot, or giving the connection back.\<close>

lemma acquire_or_release:
  assumes run: "run_ok n priv" and k: "k < n" and held: "pw_conn_client (worker_of priv k) = Some (Held conn)"
  shows "\<exists>slot priv' s'. do {
      (slot, priv, s) \<leftarrow> worker_acquire s priv k conn callsign hash;
      (case (slot, pw_conn_client (worker_of priv k)) of
         (None, Some (Held conn)) \<Rightarrow>
           (let (priv, s) = worker_release s priv k conn
            in do { priv \<leftarrow> proxy_update_registration priv; Some (None, priv, s) })
       | _ \<Rightarrow> Some (slot, priv, s))
    } = Some (slot, priv', s') \<and> runs_on n (priv, s) (priv', s') \<and> pw_conn_client (worker_of priv' k) = map_option Lent slot"
proof -
  obtain slot priv1 s1 where 1: "worker_acquire s priv k conn callsign hash = Some (slot, priv1, s1)"
    and on1: "runs_on n (priv, s) (priv1, s1)"
    and o: "case slot of None \<Rightarrow> \<exists>c. pw_conn_client (worker_of priv1 k) = Some (Held c)
      | Some i \<Rightarrow> pw_conn_client (worker_of priv1 k) = Some (Lent i)"
    using worker_acquire_runs [OF run k held] by blast
  show ?thesis
  proof (cases slot)
    case None
    then obtain c where c: "pw_conn_client (worker_of priv1 k) = Some (Held c)"
      using o by auto
    obtain priv2 s2 where 2: "worker_release s1 priv1 k c = (priv2, s2)" by (metis surj_pair)
    have r1: "run_ok n priv1"
      using on1 by (simp add: runs_on_def)
    note rel = run_release [OF r1 k c 2]
    from runs_on_update [OF runs_on_trans [OF on1 rel(1)]] show ?thesis
      using 1 None c 2 rel(2) by auto
  next
    case (Some i)
    then show ?thesis
      using 1 o on1 by simp
  qed
qed

text \<open>The first part of the run is always defined and keeps the invariant.  Then the client is gone,
  or it is in the slot of the result.\<close>

lemma worker_begin_runs:
  assumes run: "run_ok n priv" and k: "k < n" and held: "pw_conn_client (worker_of priv k) = Some (Held conn)"
    and pw: "cf_password conf = Some password"
  shows "\<exists>slot priv' s'. worker_begin pcre ctx rnd buff conf s priv k = Some (slot, priv', s') \<and>
    runs_on n (priv, s) (priv', s') \<and> pw_conn_client (worker_of priv' k) = map_option Lent slot"
proof -
  obtain r callsign s1 where 1: "proxy_worker_authorize pcre (pp_res priv) ctx password rnd buff s conn
      (pw_callsign (worker_of priv k)) = (r, callsign, s1)" by (metis prod_cases3)
  note d1 = authorize_drains [OF 1]
  define priv1 where "priv1 = set_worker priv k ((worker_of priv k)\<lparr>pw_callsign := callsign\<rparr>)"
  have up: "worker_up ((worker_of priv k)\<lparr>pw_callsign := callsign\<rparr>)"
    using run_worker_up [OF run k] by (simp add: worker_up_def)
  have r1: "run_ok n priv1" "proxy_blocks priv1 = proxy_blocks priv"
    using run_worker [OF run k up held, of conn] held by (simp_all add: priv1_def pw_blocks_def)
  then have on1: "runs_on n (priv, s) (priv1, s1)"
    using runs_on_drains [OF run d1] by (simp add: runs_on_def)
  have held1: "pw_conn_client (worker_of priv1 k) = Some (Held conn)"
    using held run_workers_length [OF run] k by (simp add: priv1_def)
  show ?thesis
  proof (cases "r < 0")
    case True
    obtain priv2 s2 where 2: "worker_release s1 priv1 k conn = (priv2, s2)" by (metis surj_pair)
    note rel = run_release [OF r1(1) k held1 2]
    have "worker_begin pcre ctx rnd buff conf s priv k = Some (None, priv2, s2)"
      using held pw 1 True 2 by (simp add: worker_begin_def priv1_def)
    then show ?thesis
      using runs_on_trans [OF on1 rel(1)] rel(2) by simp
  next
    case False
    obtain priv2 where 2: "proxy_update_registration priv1 = Some priv2" "runs_on n (priv, s) (priv2, s1)"
      "pp_client_workers priv2 = pp_client_workers priv1"
      using runs_on_update [OF on1] by blast
    have r2: "run_ok n priv2" and held2: "pw_conn_client (worker_of priv2 k) = Some (Held conn)"
      using 2(2,3) held1 by (simp_all add: runs_on_def)
    from acquire_or_release [OF r2 k held2, of s1 callsign "pearson_get (bytes_of_string callsign)"] show ?thesis
      using held pw 1 False 2(1) runs_on_trans [OF 2(2)] by (auto simp: worker_begin_def priv1_def)
  qed
qed

lemma worker_func_runs:
  assumes run: "run_ok n priv" and k: "k < n" and held: "pw_conn_client (worker_of priv k) = Some (Held conn)"
    and pw: "cf_password conf = Some password" and wf: "os_wf s"
  shows "\<exists>priv' s'. proxy_worker_func pcre ctx rnd buff conf s priv k = Some (priv', s') \<and>
    runs_on n (priv, s) (priv', s') \<and> pw_conn_client (worker_of priv' k) = None"
proof -
  obtain slot priv1 s1 where 1: "worker_begin pcre ctx rnd buff conf s priv k = Some (slot, priv1, s1)"
    and on1: "runs_on n (priv, s) (priv1, s1)" and o: "pw_conn_client (worker_of priv1 k) = map_option Lent slot"
    using worker_begin_runs [OF run k held pw] by blast
  show ?thesis
  proof (cases slot)
    case None
    then show ?thesis
      using 1 on1 o by (simp add: proxy_worker_func_def)
  next
    case (Some i)
    have r1: "run_ok n priv1" and wf1: "os_wf s1" and lent: "pw_conn_client (worker_of priv1 k) = Some (Lent i)"
      using on1 wf o Some by (simp_all add: runs_on_def)
    have i: "i < n" "in_use (slot_of priv1 i)"
      using run_lent [OF r1 k lent] by simp_all
    obtain pv where pv: "pc_priv (slot_of priv1 i) = Some pv" "slot_ready pv"
      using run_slot_ok [OF r1 i(1)] by (auto simp: slot_ok_def)
    obtain r pv2 s2 where 2: "process_loop s1 pv = Some (r, pv2, s2)" and kp: "slot_keeps pv s1 pv2 s2" "settles s1 s2"
      using process_loop_returns [OF pv(2) wf1] by blast
    define priv2 where "priv2 = set_slot priv1 i (with_pcpriv (slot_of priv1 i) pv2)"
    have ok: "slot_ok (with_pcpriv (slot_of priv1 i) pv2)" "in_use (with_pcpriv (slot_of priv1 i) pv2) = in_use (slot_of priv1 i)"
      using kp(1) pv i(2) by (auto simp: slot_ok_def in_use_def slot_keeps_def)
    have on2: "runs_on n (priv1, s1) (priv2, s2)"
      using run_slot [OF r1 i(1) ok] kp slot_blocks_pv(1) slot_blocks_pv(2) [OF pv(1)]
      by (simp add: runs_on_def priv2_def slot_keeps_def settles_def)
    then have r2: "run_ok n priv2" and lent2: "pw_conn_client (worker_of priv2 k) = Some (Lent i)"
      using lent by (simp_all add: runs_on_def priv2_def)
    from worker_end_runs [OF r2 k lent2]
    obtain priv3 s3 where 3: "worker_end s2 priv2 k i = Some (priv3, s3)" "runs_on n (priv2, s2) (priv3, s3)"
      "pw_conn_client (worker_of priv3 k) = None"
      by blast
    have "proxy_worker_func pcre ctx rnd buff conf s priv k = Some (priv3, s3)"
      using 1 Some pv(1) 2 3(1) by (simp add: proxy_worker_func_def priv2_def)
    then show ?thesis
      using runs_on_trans [OF on1 runs_on_trans [OF on2 3(2)]] 3(3) by simp
  qed
qed

section \<open>Accepting, dropping and shutting down\<close>

lemma os_alloc_wf: "os_alloc s = (ok, s1) \<Longrightarrow> os_wf s1 = os_wf s"
  using os_alloc_drains [of s ok s1] by (simp add: os_wf_def)

lemma conn_init_wf: "conn_init s conn = (r, conn', s') \<Longrightarrow> os_wf s' = os_wf s"
  using conn_init_frame [of s conn r conn' s'] by (simp add: os_wf_def)

lemma run_wake:
  assumes "worker_up pw" and "pw_conn_client pw = None" and "c_priv conn \<noteq> None" and "proxy_worker_accept pw conn = (r, pw')"
  shows "r = 0 \<and> worker_up pw' \<and> pw_conn_client pw' = Some (Held conn) \<and> pw_blocks pw' = pw_blocks pw"
  using assms by (auto simp: proxy_worker_accept_def worker_up_def worker_wake_def wake_section_def worker_ready_def pw_blocks_def
      worker_blocks_def less_worker_state_def split: prod.splits if_splits)

text \<open>The idle worker \<open>k\<close> takes a client.\<close>

lemma run_accept:
  assumes run: "run_ok n priv" and ks: "pp_idle_workers priv = k # ks" and conn: "c_priv conn \<noteq> None"
    and acc: "proxy_worker_accept (worker_of priv k) conn = (r, pw)"
  defines "priv' \<equiv> set_worker (priv\<lparr>pp_idle_workers := ks\<rparr>) k pw"
  shows "r = 0 \<and> run_ok n priv' \<and> proxy_blocks priv' = proxy_blocks priv + client_blocks (Some conn)"
proof -
  obtain cs ws where p: "pp_clients priv = Some cs" "pp_client_workers priv = Some ws" "length cs = n" "length ws = n"
    "base_ok priv" "pp_num_clients priv = int n" and t: "tables_ok n cs ws (pp_idle_workers priv) (pp_pool priv)"
    using run_okE [OF run] .
  have "idle_workers_ok (k # ks) n (\<lambda>j. pw_conn_client (ws ! j))"
    using t ks by (simp add: tables_ok_def)
  from idle_workers_pop [OF this, of "Some (Held conn)"]
  have k: "idle_workers_ok ks n ((\<lambda>j. pw_conn_client (ws ! j))(k := Some (Held conn)))" "k < n" "pw_conn_client (ws ! k) = None"
    by simp_all
  have w: "r = 0" "worker_up pw" "pw_conn_client pw = Some (Held conn)" "pw_blocks pw = pw_blocks (ws ! k)"
    using run_wake [OF run_worker_up [OF run k(2)] _ conn acc] k(3) p(2) by simp_all
  have "tables_ok n cs (ws[k := pw]) ks (pp_pool priv)"
    using tables_worker [OF t k(2) w(2)] k w(3) by simp
  moreover have "proxy_blocks priv' = proxy_blocks priv + client_blocks (Some conn)"
    using blocks_worker [of "priv\<lparr>pp_idle_workers := ks\<rparr>" ws k pw] p k w
    by (simp add: priv'_def held_conn_def client_blocks_def [of None])
  ultimately show ?thesis
    using w(1) p by (simp add: run_ok_def priv'_def)
qed

lemma proxy_process_runs:
  assumes run: "run_ok n priv" and proc: "proxy_process s priv = (r, priv', s')"
  shows "runs_on n (priv, s) (priv', s')"
proof -
  obtain ok s1 where 1: "os_alloc s = (ok, s1)" by (metis surj_pair)
  obtain r2 c2 s2 where 2: "conn_init s1 new_conn = (r2, c2, s2)" by (metis prod_cases3)
  obtain r3 c3 s3 where 3: "conn_accept s2 (pp_conn_listen priv) c2 = (r3, c3, s3)" by (metis prod_cases3)
  obtain c4 s4 where 4: "conn_free s3 c3 = (c4, s4)" by (metis surj_pair)
  have l1: "live s1 = live s + (if ok then 1 else 0)" "os_wf s1 = os_wf s"
    using os_alloc_live [OF 1] os_alloc_wf [OF 1] by simp_all
  have l2: "live s2 = live s1 + conn_blocks c2" "r2 \<le> 0" "r2 < 0 \<Longrightarrow> conn_blocks c2 = 0" "r2 = 0 \<Longrightarrow> conn_closed c2" "os_wf s2 = os_wf s1"
    using conn_init_managed [OF 2] conn_init_wf [OF 2] by (simp_all add: new_conn_def conn_blocks_def)
  have l3: "live s3 = live s2" "conn_blocks c3 = conn_blocks c2" "c_priv c3 \<noteq> None" "os_wf s2 \<longrightarrow> os_wf s3" if "r2 = 0"
  proof -
    have c: "c_priv c2 \<noteq> None"
      using conn_closed_fds [OF l2(4) [OF that]] by simp
    show "live s3 = live s2" "conn_blocks c3 = conn_blocks c2"
      using opener_keeps_live(1) [OF 3] opener_keeps_blocks(1) [OF c 3] by simp_all
    show "c_priv c3 \<noteq> None"
      using 3 c by (auto simp: conn_accept_def Let_def split: prod.splits sum.splits if_splits)
    show "os_wf s2 \<longrightarrow> os_wf s3"
      using accepting.opens [OF _ l2(4) [OF that] 3] by (auto simp: holds_new_def)
  qed
  have l4: "live s4 = live s3 - conn_blocks c3" "os_wf s3 \<longrightarrow> os_wf s4"
    using conn_free_managed [OF 4] conn_free_wf [OF 4] by simp_all
  define ks where "ks = (if pp_usable_clients priv > 0 then pp_idle_workers priv else [])"
  have exits: "(priv', s') = (priv, s1) \<and> \<not> ok \<or> (priv', s') = (priv, os_free s2) \<and> ok \<and> r2 < 0 \<or>
      (priv', s') = (priv, os_free s4) \<and> ok \<and> r2 = 0 \<or>
      ok \<and> r2 = 0 \<and> (\<exists>k rest. ks = k # rest \<and> (\<exists>r4 pw. proxy_worker_accept (worker_of priv k) c3 = (r4, pw) \<and>
        priv' = set_worker (priv\<lparr>pp_idle_workers := rest\<rparr>) k pw \<and> (r4 = 0 \<longrightarrow> s' = s3)))"
    using proc 1 2 3 4 l2(2) unfolding proxy_process_def ks_def [symmetric]
    by (auto simp: Let_def split: if_splits list.splits prod.splits)
  then consider "priv' = priv" "s' = s1" "\<not> ok" | "priv' = priv" "s' = os_free s2" "ok" "r2 < 0"
    | "priv' = priv" "s' = os_free s4" "ok" "r2 = 0"
    | k rest r4 pw where "ok" "r2 = 0" "ks = k # rest" "proxy_worker_accept (worker_of priv k) c3 = (r4, pw)"
        "priv' = set_worker (priv\<lparr>pp_idle_workers := rest\<rparr>) k pw" "r4 = 0 \<longrightarrow> s' = s3"
    by blast
  then show ?thesis
  proof cases
    case 4
    have "pp_idle_workers priv = k # rest"
      using 4(3) by (simp add: ks_def split: if_splits)
    from run_accept [OF run this l3(3) [OF 4(2)] 4(4)] show ?thesis
      using 4 l1 l2 l3 by (simp add: runs_on_def client_blocks_def)
  qed (use run l1 l2 l3 l4 in \<open>simp_all add: runs_on_def\<close>)
qed

lemma runs_on_slot:
  assumes run: "run_ok n priv" and i: "i < n" "in_use (slot_of priv i)" and keeps: "slot_keeps (pcpriv (slot_of priv i)) s pv s'"
  shows "runs_on n (priv, s) (set_slot priv i (with_pcpriv (slot_of priv i) pv), s')"
proof -
  obtain pv0 where pv0: "pc_priv (slot_of priv i) = Some pv0" "slot_ready pv0"
    using run_slot_ok [OF run i(1)] by (auto simp: slot_ok_def)
  have "slot_ok (with_pcpriv (slot_of priv i) pv)" "in_use (with_pcpriv (slot_of priv i) pv) = in_use (slot_of priv i)"
    using keeps pv0 i(2) by (auto simp: slot_ok_def in_use_def slot_keeps_def)
  from run_slot [OF run i(1) this] show ?thesis
    using keeps pv0(1) slot_blocks_pv(1) slot_blocks_pv(2) [OF pv0(1)] by (simp add: runs_on_def slot_keeps_def)
qed

lemma worker_drop_runs:
  assumes run: "run_ok n priv" and k: "k < n" and drop: "proxy_worker_drop s priv k = (priv', s')"
  shows "runs_on n (priv, s) (priv', s')"
proof -
  consider "pw_conn_client (worker_of priv k) = None" | conn where "pw_conn_client (worker_of priv k) = Some (Held conn)"
    | i where "pw_conn_client (worker_of priv k) = Some (Lent i)"
    by (metis client_at.exhaust not_Some_eq)
  then show ?thesis
  proof cases
    case 1
    then show ?thesis
      using run drop by (simp add: proxy_worker_drop_def runs_on_def)
  next
    case 2
    obtain c s1 where d: "conn_drop s conn = (c, s1)" by (metis surj_pair)
    have conn: "c_priv conn \<noteq> None"
      using run_worker_up [OF run k] 2 by (simp add: worker_up_def)
    note dk = conn_drop_drains [OF d conn]
    have "worker_up ((worker_of priv k)\<lparr>pw_conn_client := Some (Held c)\<rparr>)"
      using run_worker_up [OF run k] dk conn by (simp add: worker_up_def conn_keeps_def)
    from run_worker [OF run k this 2] show ?thesis
      using drop 2 d dk conn drains_wf [of s s1]
      by (auto simp: proxy_worker_drop_def runs_on_def client_blocks_def conn_keeps_def drains_def pw_blocks_def)
  next
    case 3
    have i: "i < n" "in_use (slot_of priv i)"
      using run_lent [OF run k 3] by simp_all
    obtain pv where pv: "pc_priv (slot_of priv i) = Some pv" "slot_ready pv"
      using run_slot_ok [OF run i(1)] by (auto simp: slot_ok_def)
    obtain conn where conn: "pv_conn_client pv = Some conn"
      using i(2) pv(1) by (auto simp: in_use_def)
    obtain pv' s1 where d: "proxy_conn_drop s pv = (pv', s1)" by (metis surj_pair)
    note dk = conn_drop_slot_keeps [OF d pv(2)]
    have "(priv', s') = (set_slot priv i (with_pcpriv (slot_of priv i) pv'), s1)"
      using drop 3 pv(1) conn d by (auto simp: proxy_worker_drop_def proxy_conn_drop_def split: prod.splits)
    then show ?thesis
      using runs_on_slot [OF run i, of s pv' s1] dk pv(1) drains_wf [of s s1] by simp
  qed
qed

lemma drop_all_runs:
  "run_ok n priv \<Longrightarrow> \<forall>k \<in> set ks. k < n \<Longrightarrow> runs_on n (priv, s) (fold (\<lambda>k (priv, s). proxy_worker_drop s priv k) ks (priv, s))"
proof (induction ks arbitrary: priv s)
  case (Cons k ks)
  obtain priv1 s1 where 1: "proxy_worker_drop s priv k = (priv1, s1)" by (metis surj_pair)
  have on1: "runs_on n (priv, s) (priv1, s1)"
    using worker_drop_runs [OF Cons.prems(1) _ 1] Cons.prems(2) by simp
  then have "run_ok n priv1"
    by (simp add: runs_on_def)
  from Cons.IH [OF this, of s1] Cons.prems(2) show ?case
    using runs_on_trans [OF on1] by (simp add: 1)
qed (simp add: runs_on_def)

lemma proxy_drop_runs:
  assumes "run_ok n priv"
  shows "\<exists>priv' s'. proxy_drop s priv = Some (priv', s') \<and> runs_on n (priv, s) (priv', s')"
proof -
  have "pp_num_clients priv = int n" "pp_client_workers priv \<noteq> None"
    using assms by (auto elim!: run_okE)
  then show ?thesis
    using drop_all_runs [OF assms, of "[0..<n]" s] by (cases "fold (\<lambda>k (priv, s). proxy_worker_drop s priv k) [0..<n] (priv, s)")
      (simp add: proxy_drop_def)
qed

lemma os_shutdown_wf: "os_wf s \<Longrightarrow> os_wf (os_shutdown s fd)"
  by (auto simp: os_shutdown_def os_wf_def split: option.splits)

lemma conn_shutdown_wf: "os_wf s \<Longrightarrow> os_wf (conn_shutdown s conn)"
  using os_shutdown_wf by (auto simp: conn_shutdown_def Let_def)

lemma proxy_shutdown_runs:
  assumes "run_ok n priv"
  shows "\<exists>priv' s'. proxy_shutdown s priv = Some (priv', s') \<and> runs_on n (priv, s) (priv', s')"
proof -
  have "run_ok n (priv\<lparr>pp_usable_clients := 0\<rparr>)"
    using assms by (simp add: run_ok_def)
  moreover have "proxy_blocks (priv\<lparr>pp_usable_clients := 0\<rparr>) = proxy_blocks priv"
    by (simp add: proxy_blocks_def)
  ultimately obtain priv1 where 1: "proxy_update_registration (priv\<lparr>pp_usable_clients := 0\<rparr>) = Some priv1" "run_ok n priv1"
      "proxy_blocks priv1 = proxy_blocks priv"
    using run_update by metis
  have "c_priv (pp_conn_listen priv1) \<noteq> None" "pp_usable_clients_mutex priv \<noteq> None"
    using 1(2) assms by (simp_all add: run_ok_def base_ok_def)
  then show ?thesis
    using 1 conn_shutdown_wf [of s "pp_conn_listen priv1"] by (auto simp: proxy_shutdown_def runs_on_def)
qed

section \<open>The invariant over all runs\<close>

inductive_cases proxy_stepE [consumes 1, case_names client login serve forward leave turn drop shutdown]: "proxy_step pcre ctx conf (priv, s) (priv', s')"

lemma worker_turn_up: "worker_turn st = (st', pc) \<Longrightarrow> st > WORKER_STOPPING_AFTER_WORK \<Longrightarrow> st' > WORKER_STOPPING_AFTER_WORK"
  by (cases st) (auto simp: worker_turn_def worker_order split: if_splits)

lemma turn_runs:
  assumes run: "run_ok n priv" and k: "k < n" and w: "w_priv (pw_worker (worker_of priv k)) = Some wp"
    and st: "st > WORKER_STOPPING_AFTER_WORK"
  shows "runs_on n (priv, s) (set_worker priv k ((worker_of priv k)
      \<lparr>pw_worker := (pw_worker (worker_of priv k))\<lparr>w_priv := Some (wp\<lparr>wk_state := st\<rparr>)\<rparr>\<rparr>), s)"
proof -
  obtain cs ws where p: "pp_clients priv = Some cs" "pp_client_workers priv = Some ws" "length cs = n" "length ws = n"
    "base_ok priv" "pp_num_clients priv = int n" and t: "tables_ok n cs ws (pp_idle_workers priv) (pp_pool priv)"
    using run_okE [OF run] .
  let ?pw = "(ws ! k)\<lparr>pw_worker := (pw_worker (ws ! k))\<lparr>w_priv := Some (wp\<lparr>wk_state := st\<rparr>)\<rparr>\<rparr>"
  have up: "worker_up ?pw"
    using run_worker_up [OF run k] w st p(2) by (auto simp: worker_up_def worker_ready_def)
  have own: "(\<lambda>j. pw_conn_client (ws[k := ?pw] ! j)) = (\<lambda>j. pw_conn_client (ws ! j))"
    using k p(4) by (auto simp: nth_list_update)
  have "tables_ok n cs (ws[k := ?pw]) (pp_idle_workers priv) (pp_pool priv)"
    using t up p(4) k unfolding tables_ok_def own by (auto simp: nth_list_update)
  moreover have "pw_blocks ?pw = pw_blocks (ws ! k)"
    using w p(2) by (simp add: pw_blocks_def worker_blocks_def)
  ultimately show ?thesis
    using blocks_worker [OF p(2), of k ?pw] k p by (simp add: runs_on_def run_ok_def held_conn_def)
qed

lemma step_runs:
  assumes step: "proxy_step pcre ctx conf (priv, s) (priv', s')" and run: "run_ok n priv" and pw: "cf_password conf = Some password"
  shows "runs_on n (priv, s) (priv', s')"
proof -
  have len: "length (array_of (pp_client_workers priv)) = n"
    using run by (auto elim!: run_okE)
  have served: "i < n" "in_use (slot_of priv i)" "slot_ready (pcpriv (slot_of priv i))"
    if "k < n" "pw_conn_client (worker_of priv k) = Some (Lent i)" for k i
    using run_lent [OF run that] run_slot_ok [OF run, of i] by (auto simp: slot_ok_def)
  from step show ?thesis
  proof (cases rule: proxy_stepE)
    case (client r)
    then show ?thesis by (rule proxy_process_runs [OF run])
  next
    case (login k conn rnd buff slot)
    then show ?thesis using worker_begin_runs [OF run _ login(2) pw, of pcre ctx rnd buff s] len by auto
  next
    case (serve k i pv)
    then show ?thesis using runs_on_slot [OF run served(1,2)] serve_step_keeps served(3) len by simp
  next
    case (forward k i forwarder pv)
    have "slot_keeps (pcpriv (slot_of priv i)) s pv s'"
      using forward forwarder_control_keeps forwarder_data_keeps forwarder_tcp_keeps served(3) [of k i] len by auto
    then show ?thesis using runs_on_slot [OF run served(1,2)] forward len by simp
  next
    case (leave k i)
    then show ?thesis using worker_end_runs [OF run _ leave(2), of s] len by auto
  next
    case (turn k wp st pc)
    have "wk_state wp > WORKER_STOPPING_AFTER_WORK"
      using run_worker_up [OF run, of k] turn(1,2) len by (simp add: worker_up_def)
    then show ?thesis using turn_runs [OF run _ turn(2) worker_turn_up [OF turn(3)]] turn len by simp
  next
    case drop
    then show ?thesis using proxy_drop_runs [OF run, of s] by simp
  next
    case shutdown
    then show ?thesis using proxy_shutdown_runs [OF run, of s] by simp
  qed
qed

lemma steps_run:
  assumes "(proxy_step pcre ctx conf)\<^sup>*\<^sup>* st st'" and "run_ok n (fst st)" and "cf_password conf = Some password"
  shows "runs_on n st st'"
  using assms(1)
proof (induction rule: rtranclp_induct)
  case base
  then show ?case
    using assms(2) by (simp add: runs_on_def)
next
  case (step y z)
  obtain p t p' t' where yz: "y = (p, t)" "z = (p', t')" by (metis surj_pair)
  have "run_ok n p"
    using step(3) by (simp add: runs_on_def yz)
  from step_runs [OF step(2) [unfolded yz] this assms(3)] have "runs_on n y z"
    by (simp add: yz)
  with step(3) show ?case
    by (rule runs_on_trans)
qed

section \<open>Starting\<close>

lemma start_workers_up:
  "start_workers s started pws = (r, started', rest, s') \<Longrightarrow> \<not> r < 0 \<Longrightarrow>
   \<forall>pw \<in> set started. worker_up pw \<and> pw_conn_client pw = None \<Longrightarrow> \<forall>pw \<in> set pws. rests pw \<and> stopped pw \<Longrightarrow>
   rest = [] \<and> (\<forall>pw \<in> set started'. worker_up pw \<and> pw_conn_client pw = None)"
proof (induction pws arbitrary: s started)
  case (Cons pw pws)
  obtain r1 w s1 where 1: "worker_start s (pw_worker pw) = (r1, w, s1)" by (metis prod_cases3)
  have pw: "worker_ready (pw_worker pw)" "pw_conn_client pw = None" "wk_state (the (w_priv (pw_worker pw))) = WORKER_STOPPED"
    using Cons.prems(4) by (simp_all add: rests_def stopped_def)
  have r: "\<not> r1 < 0" "start_workers s1 (started @ [pw\<lparr>pw_worker := w\<rparr>]) pws = (r, started', rest, s')"
    using Cons.prems(1,2) 1 by (auto simp: Let_def split: if_splits)
  have "wk_state (the (w_priv w)) = WORKER_STARTING"
    using 1 pw(3) by (auto simp: worker_start_def Let_def worker_order split: if_splits prod.splits)
  then have "worker_up (pw\<lparr>pw_worker := w\<rparr>)"
    using worker_start_parts [OF pw(1) 1] pw(2) by (simp add: worker_up_def worker_order)
  then have st: "\<forall>pw \<in> set (started @ [pw\<lparr>pw_worker := w\<rparr>]). worker_up pw \<and> pw_conn_client pw = None"
    using Cons.prems(3) pw(2) by auto
  have "\<forall>pw \<in> set pws. rests pw \<and> stopped pw"
    using Cons.prems(4) by (meson list.set_intros(2))
  from Cons.IH [OF r(2) Cons.prems(2) st this] show ?case .
qed simp

lemma start_registration_tables:
  assumes "start_registration ctx s conf priv = Some (0, priv', s')"
  shows "pp_clients priv' = pp_clients priv \<and> pp_client_workers priv' = pp_client_workers priv"
  using assms
  by (auto simp: start_registration_def proxy_update_registration_def start_exit_def Let_def split: bind_splits if_splits prod.splits)

lemma fresh_resting: "fresh_service n priv \<Longrightarrow> base_ok priv \<Longrightarrow> resting priv"
  by (auto simp: fresh_service_def resting_def)

lemma start_tables:
  assumes run: "proxy_start ctx s conf priv = Some (0, priv', s')" and fresh: "fresh_service n priv"
  shows "\<exists>cs ws. pp_clients priv' = Some cs \<and> pp_client_workers priv' = Some ws \<and> length cs = n \<and> length ws = n \<and>
    (\<forall>pc \<in> set cs. slot_rests pc \<and> pc_priv pc \<noteq> None) \<and> (\<forall>pw \<in> set ws. worker_up pw \<and> pw_conn_client pw = None)"
proof -
  obtain cs ws where f: "pp_clients priv = Some cs" "pp_client_workers priv = Some ws" "length cs = n" "length ws = n"
    "\<forall>pc \<in> set cs. slot_rests pc" "\<forall>pw \<in> set ws. rests pw \<and> stopped pw"
    using fresh unfolding fresh_service_def by blast
  obtain r1 st1 re1 s1 where 1: "start_slots s [] cs = Some (r1, st1, re1, s1)"
    using run f by (auto simp: proxy_start_def split: bind_splits if_splits)
  have r1: "\<not> r1 < 0"
    using run f 1 by (auto simp: proxy_start_def split: bind_splits if_splits prod.splits)
  have f1: "length st1 = n" "\<forall>pc \<in> set st1. slot_rests pc \<and> pc_priv pc \<noteq> None" "re1 = []"
    using start_slots_live [OF 1] f r1 by auto
  obtain r2 st2 re2 s2 where 2: "start_workers s1 [] ws = (r2, st2, re2, s2)" by (metis prod_cases4)
  have r2: "\<not> r2 < 0" "start_registration ctx s2 conf (priv\<lparr>pp_clients := Some st1, pp_client_workers := Some (st2 @ re2)\<rparr>) = Some (0, priv', s')"
    using run f 1 r1 f1(3) 2 by (auto simp: proxy_start_def start_service_def start_exit_def Let_def split: if_splits prod.splits)
  have f2: "re2 = []" "\<forall>pw \<in> set st2. worker_up pw \<and> pw_conn_client pw = None" "length st2 = n"
  proof -
    show up: "re2 = []" "\<forall>pw \<in> set st2. worker_up pw \<and> pw_conn_client pw = None"
      using start_workers_up [OF 2 r2(1) _ f(6)] by simp_all
    have "\<forall>pw \<in> set ([] @ ws). rests pw"
      using f(6) by auto
    from start_workers_live [OF 2 this] show "length st2 = n"
      using f(4) up(1) by simp
  qed
  show ?thesis
    using start_registration_tables [OF r2(2)] f1 f2 by simp
qed

text \<open>A service that has just been opened and started satisfies the invariant.\<close>

lemma started_run_ok:
  assumes run: "proxy_start ctx s conf priv = Some (0, priv', s')" and fresh: "fresh_service n priv" and base: "base_ok priv"
    and pool: "pp_pool priv = pool_open (fresh_slots p) n" "0 < n"
    and first: "\<And>rs. pp_reg_service priv = Some rs \<Longrightarrow> rp_reg_suffix rs = None"
  shows "run_ok n priv' \<and> live s' - proxy_blocks priv' = live s - proxy_blocks priv"
proof -
  obtain cs ws where t: "pp_clients priv' = Some cs" "pp_client_workers priv' = Some ws" "length cs = n" "length ws = n"
    "\<forall>pc \<in> set cs. slot_rests pc \<and> pc_priv pc \<noteq> None" "\<forall>pw \<in> set ws. worker_up pw \<and> pw_conn_client pw = None"
    using start_tables [OF run fresh] by blast
  note keeps = proxy_start_live [OF run fresh_resting [OF fresh base] first, unfolded start_keeps_def]
  have use: "\<not> in_use (cs ! i) \<and> slot_ok (cs ! i)" if "i < n" for i
  proof -
    have "slot_rests (cs ! i)" "pc_priv (cs ! i) \<noteq> None"
      using t(3,5) that by simp_all
    then show ?thesis
      by (auto simp: slot_rests_def in_use_def slot_ok_def slot_idle_def)
  qed
  have own: "worker_up (ws ! k) \<and> pw_conn_client (ws ! k) = None" if "k < n" for k
    using t(4,6) that by simp
  have "shares n (\<lambda>i. in_use (cs ! i)) (\<lambda>k. pw_conn_client (ws ! k))"
    by (rule sharesI) (use use own in auto)
  moreover have "idle_workers_ok (rev [0..<n]) n (\<lambda>k. pw_conn_client (ws ! k))"
    using own by (auto simp: idle_workers_ok_def)
  moreover have "idle_slots_ok (pp_pool priv') n (\<lambda>i. in_use (cs ! i))"
    unfolding idle_slots_ok_def using pool_open_ok [OF pool(2), of p] use keeps pool(1)
    by (intro exI [of _ "[0..<n]"] exI [of _ "\<lambda>_. []"]) auto
  moreover have "pp_idle_workers priv' = rev [0..<n]" "pp_num_clients priv' = int n" "base_ok priv'"
    using keeps fresh by (simp_all add: fresh_service_def resting_def)
  ultimately show ?thesis
    using t(1-4) use own keeps by (simp add: run_ok_def tables_ok_def)
qed

text \<open>A running service whose workers are all idle serves nobody.\<close>

lemma quiet_resting:
  assumes run: "run_ok n priv" and quiet: "\<forall>k < n. pw_conn_client (worker_of priv k) = None"
  shows "resting priv"
proof -
  obtain cs ws where p: "pp_clients priv = Some cs" "pp_client_workers priv = Some ws" "length cs = n" "length ws = n"
    "base_ok priv" "pp_num_clients priv = int n" and t: "tables_ok n cs ws (pp_idle_workers priv) (pp_pool priv)"
    using run_okE [OF run] .
  have sh: "shares n (\<lambda>i. in_use (cs ! i)) (\<lambda>k. pw_conn_client (ws ! k))"
    using t by (simp add: tables_ok_def)
  have "slot_rests (cs ! i)" if "i < n" for i
  proof -
    have "\<not> in_use (cs ! i)"
      using sharesD(2) [OF sh that] quiet p(2) by auto
    then show ?thesis
      using run_slot_ok [OF run that] p(1) by (auto simp: slot_ok_def slot_rests_def in_use_def)
  qed
  moreover have "rests (ws ! k)" if "k < n" for k
    using run_worker_up [OF run that] quiet that p(2) by (simp add: rests_def worker_up_def)
  ultimately show ?thesis
    using p by (auto simp: resting_def in_set_conv_nth)
qed

end
