(* ===== verification/ProxyLife.thy ===== *)
theory ProxyLife
  imports ProxyRun
begin

text \<open>
  The life of a proxy, from \<open>proxy_init\<close> over \<open>proxy_open\<close>, \<open>proxy_start\<close> and any number of steps of
  theory ProxyRun to \<open>proxy_free\<close>: the properties of src/proxy.c as a whole.
\<close>

text \<open>A program that initializes, opens and starts a proxy, for the witnesses: its results, and the
  clients of the workers in the end.\<close>

definition wit_pcre :: "unit pcre" where
  "wit_pcre = \<lparr>pcre2_compile = (\<lambda>_. None), pcre2_match = (\<lambda>_ _. 0)\<rparr>"

definition wit_handle :: "unit proxy_handle" where
  "wit_handle = \<lparr>ph_priv = None, ph_conf = zero_conf, ph_syslog = False\<rparr>"

definition wit_start :: "os \<Rightarrow> proxy_conf \<Rightarrow> (int list \<times> client_at option list \<times> client_at option list) option" where
  "wit_start s conf =
     do {
       (r1, ph, s) \<leftarrow> proxy_init s wit_handle;
       (r2, priv, sys, s) \<leftarrow> proxy_open wit_pcre s False conf (the (ph_priv ph));
       (r3, priv, s) \<leftarrow> proxy_start wit_md5 s conf priv;
       let clients = map pw_conn_client (the (pp_client_workers priv));
       let (r4, priv, s) = proxy_process s priv;
       Some ([r1, r2, r3, r4], clients, map pw_conn_client (the (pp_client_workers priv)))
     }"

definition wit_proxy_conf :: proxy_conf where
  "wit_proxy_conf = zero_conf\<lparr>cf_password := Some ''PUBLIC'', cf_port := 8100\<rparr>"

definition wit_net :: os where
  "wit_net = (wit_os no_peer)\<lparr>peers := [wit_sock [] [], wit_sock [RxData [75, 49]] []]\<rparr>"

lemma wit_started:
  obtains ph s priv1 sys1 s1 priv2 s2 priv3 s3 conn where "proxy_init wit_net wit_handle = Some (0, ph, s)"
     "proxy_open wit_pcre s False wit_proxy_conf (the (ph_priv ph)) = Some (0, priv1, sys1, s1)"
     "proxy_start wit_md5 s1 wit_proxy_conf priv1 = Some (0, priv2, s2)" "proxy_process s2 priv2 = (0, priv3, s3)"
     "map pw_conn_client (the (pp_client_workers priv2)) = [None]"
     "map pw_conn_client (the (pp_client_workers priv3)) = [Some (Held conn)]"
proof -
  have "case wit_start wit_net wit_proxy_conf of None \<Rightarrow> False | Some (rs, before, after) \<Rightarrow> rs = [0, 0, 0, 0] \<and>
      map (\<lambda>c. c = None) before = [True] \<and> map (\<lambda>c. case c of Some (Held _) \<Rightarrow> True | _ \<Rightarrow> False) after = [True]"
    by code_simp
  then obtain conn where "wit_start wit_net wit_proxy_conf = Some ([0, 0, 0, 0], [None], [Some (Held conn)])"
    by (auto simp: map_eq_Cons_conv split: option.splits) (metis client_at.exhaust client_at.simps(5,6))
  then show thesis
    by (auto simp: wit_start_def Let_def split: bind_splits prod.splits intro: that)
qed

section \<open>The life of a proxy\<close>

lemma proxy_init_new:
  fixes ph :: "'re proxy_handle"
  assumes "ph_priv ph = None" and "proxy_init s ph = Some (0, ph', s')"
  shows "\<exists>priv. ph_priv ph' = Some priv \<and> base_ok priv \<and> pp_clients priv = None \<and> pp_client_workers priv = None \<and>
    pp_idle_workers priv = [] \<and> (\<forall>rs. pp_reg_service priv = Some rs \<longrightarrow> rp_reg_suffix rs = None) \<and>
    live s' = live s + proxy_blocks priv"
proof -
  obtain ok s1 where 1: "os_alloc s = (ok, s1)" by (metis surj_pair)
  obtain r conf priv s2 where 2: "init_parts s1 (ph_conf ph) (new_proxy_priv :: 're proxy_priv) = (r, conf, priv, s2)"
    by (metis prod_cases4)
  note f = init_parts_live [OF 2]
  have run: "ok \<and> \<not> r < 0 \<and> ph_priv ph' = Some priv \<and> s' = s2"
    using assms 1 2 by (auto simp: proxy_init_def Let_def split: if_splits bind_splits)
  with f have "r = 0"
    by (simp split: if_splits)
  then show ?thesis
    using f run os_alloc_live [OF 1] by (simp add: resting_def closed_service_def)
qed

text \<open>After opening and starting, every run keeps the invariant and the account of the memory.\<close>

lemma service_runs:
  assumes base: "base_ok priv" and closed: "pp_clients priv = None" "pp_client_workers priv = None" "pp_idle_workers priv = []"
    and first: "\<And>rs. pp_reg_service priv = Some rs \<Longrightarrow> rp_reg_suffix rs = None" and pw: "cf_password conf = Some password"
    and opened: "proxy_open pcre s sys conf priv = Some (0, priv1, sys1, s1)"
    and started: "proxy_start ctx s1 conf priv1 = Some (0, priv2, s2)"
    and steps: "(proxy_step pcre ctx conf)\<^sup>*\<^sup>* (priv2, s2) (priv3, s3)"
  shows "run_ok (1 + unat (cf_bind_addr_ext_add_len conf)) priv3 \<and> live s3 - proxy_blocks priv3 = live s - proxy_blocks priv"
proof -
  let ?n = "1 + unat (cf_bind_addr_ext_add_len conf)"
  note o = proxy_open_live [OF opened base closed refl]
  then have o1: "fresh_service ?n priv1" "base_ok priv1" "pp_pool priv1 = pool_open (fresh_slots (pp_pool priv)) ?n"
    "live s1 - proxy_blocks priv1 = live s - proxy_blocks priv"
    by (simp_all split: if_splits)
  have "rp_reg_suffix rs = None" if "pp_reg_service priv1 = Some rs" for rs
    using first that proxy_open_reg [OF opened] by simp
  from started_run_ok [OF started o1(1,2,3) _ this]
  have run: "run_ok ?n priv2" "live s2 - proxy_blocks priv2 = live s1 - proxy_blocks priv1"
    by simp_all
  from steps_run [OF steps _ pw, of ?n] run o1(4) show ?thesis
    by (simp add: runs_on_def)
qed

lemma run_ok_parts:
  assumes "run_ok n priv"
  shows "length (the (pp_clients priv)) = n" and "length (the (pp_client_workers priv)) = n"
    and "\<And>k j i. k < n \<Longrightarrow> j < n \<Longrightarrow> pw_conn_client (worker_of priv k) = Some (Lent i) \<Longrightarrow>
      pw_conn_client (worker_of priv j) = Some (Lent i) \<Longrightarrow> k = j"
    and "distinct (pp_idle_workers priv) \<and> set (pp_idle_workers priv) = {k. k < n \<and> pw_conn_client (worker_of priv k) = None}"
    and "\<exists>idle calls. pool_ok (pp_pool priv) idle calls \<and>
      set idle = {i. i < n \<and> (\<forall>k < n. pw_conn_client (worker_of priv k) \<noteq> Some (Lent i))}"
proof -
  obtain cs ws where p: "pp_clients priv = Some cs" "pp_client_workers priv = Some ws" "length cs = n" "length ws = n"
    "base_ok priv" "pp_num_clients priv = int n" and t: "tables_ok n cs ws (pp_idle_workers priv) (pp_pool priv)"
    using run_okE [OF assms] .
  have sh: "shares n (\<lambda>i. in_use (cs ! i)) (\<lambda>k. pw_conn_client (ws ! k))"
    using t by (simp add: tables_ok_def)
  show "length (the (pp_clients priv)) = n" "length (the (pp_client_workers priv)) = n"
    using p by simp_all
  show "k < n \<Longrightarrow> j < n \<Longrightarrow> pw_conn_client (worker_of priv k) = Some (Lent i) \<Longrightarrow>
      pw_conn_client (worker_of priv j) = Some (Lent i) \<Longrightarrow> k = j" for k j i
    using sharesD(3) [OF sh, of k j i] p(2) by simp
  show "distinct (pp_idle_workers priv) \<and> set (pp_idle_workers priv) = {k. k < n \<and> pw_conn_client (worker_of priv k) = None}"
    using t p(2) by (simp add: tables_ok_def idle_workers_ok_def)
  have use: "in_use (cs ! i) \<longleftrightarrow> (\<exists>k < n. pw_conn_client (ws ! k) = Some (Lent i))" if "i < n" for i
    using sharesD(1) [OF sh] sharesD(2) [OF sh that] by blast
  obtain idle calls where "pool_ok (pp_pool priv) idle calls" "set idle = {i. i < n \<and> \<not> in_use (cs ! i)}"
    using t unfolding tables_ok_def idle_slots_ok_def by blast
  then show "\<exists>idle calls. pool_ok (pp_pool priv) idle calls \<and>
      set idle = {i. i < n \<and> (\<forall>k < n. pw_conn_client (worker_of priv k) \<noteq> Some (Lent i))}"
    using use p(2) by (intro exI [of _ idle] exI [of _ calls]) auto
qed

section \<open>Properties\<close>

text \<open>C1: Slots and workers are neither lost nor shared, in the runs in which a slot is given back in one step
  (\<open>proxy_step\<close>; a client that reconnects between \<open>proxy_conn_finish\<close> and the lists is outside of them,
  see theory SlotPool).  Take a proxy as \<open>proxy_init\<close> leaves it, open and
  start it, and let any sequence of clients, logins, messages, forwarded data, departures, drops and
  shutdowns happen.  Then no two workers serve the same slot, the list of idle workers holds each
  worker without a client once, the linked list of idle slots holds exactly the slots that serve no
  worker's client, and the blocks in use have changed as the proxy's own have.\<close>

theorem slots_shared_exactly:
  assumes "ph_priv ph = None" and "proxy_init s0 ph = Some (0, ph1, s)" and "cf_password conf = Some password"
    and "proxy_open pcre s sys conf (the (ph_priv ph1)) = Some (0, priv1, sys1, s1)"
    and "proxy_start ctx s1 conf priv1 = Some (0, priv2, s2)"
    and "(proxy_step pcre ctx conf)\<^sup>*\<^sup>* (priv2, s2) (priv3, s3)"
    and "n = 1 + unat (cf_bind_addr_ext_add_len conf)"
  shows "(\<forall>k j i. k < n \<and> j < n \<and> pw_conn_client (worker_of priv3 k) = Some (Lent i) \<and>
       pw_conn_client (worker_of priv3 j) = Some (Lent i) \<longrightarrow> k = j) \<and>
    distinct (pp_idle_workers priv3) \<and> set (pp_idle_workers priv3) = {k. k < n \<and> pw_conn_client (worker_of priv3 k) = None} \<and>
    (\<exists>idle calls. pool_ok (pp_pool priv3) idle calls \<and>
      set idle = {i. i < n \<and> (\<forall>k < n. pw_conn_client (worker_of priv3 k) \<noteq> Some (Lent i))}) \<and>
    live s3 - proxy_blocks priv3 = live s - proxy_blocks (the (ph_priv ph1))"
proof -
  obtain priv where p: "ph_priv ph1 = Some priv" "base_ok priv" "pp_clients priv = None" "pp_client_workers priv = None"
    "pp_idle_workers priv = []" "\<forall>rs. pp_reg_service priv = Some rs \<longrightarrow> rp_reg_suffix rs = None"
    using proxy_init_new [OF assms(1,2)] by blast
  have run: "run_ok n priv3" "live s3 - proxy_blocks priv3 = live s - proxy_blocks (the (ph_priv ph1))"
    using service_runs [OF p(2-5) p(6) [rule_format] assms(3) _ assms(5,6)] assms(4,7) p(1) by simp_all
  note parts = run_ok_parts [OF run(1)]
  have "\<forall>k j i. k < n \<and> j < n \<and> pw_conn_client (worker_of priv3 k) = Some (Lent i) \<and>
       pw_conn_client (worker_of priv3 j) = Some (Lent i) \<longrightarrow> k = j"
    using parts(3) by blast
  with parts(4,5) run(2) show ?thesis
    by (intro conjI) (simp_all only:)
qed

theorem slots_shared_exactly_witness:
  "\<exists>ph s priv1 sys1 s1 priv2 s2 priv3 s3. proxy_init wit_net wit_handle = Some (0, ph, s) \<and>
     proxy_open wit_pcre s False wit_proxy_conf (the (ph_priv ph)) = Some (0, priv1, sys1, s1) \<and>
     proxy_start wit_md5 s1 wit_proxy_conf priv1 = Some (0, priv2, s2) \<and> proxy_process s2 priv2 = (0, priv3, s3) \<and>
     set (pp_idle_workers priv3) = {} \<and> live s3 - proxy_blocks priv3 = live s - proxy_blocks (the (ph_priv ph))"
proof -
  obtain ph s priv1 sys1 s1 priv2 s2 priv3 s3 conn where r: "proxy_init wit_net wit_handle = Some (0, ph, s)"
     "proxy_open wit_pcre s False wit_proxy_conf (the (ph_priv ph)) = Some (0, priv1, sys1, s1)"
     "proxy_start wit_md5 s1 wit_proxy_conf priv1 = Some (0, priv2, s2)" "proxy_process s2 priv2 = (0, priv3, s3)"
     and c: "map pw_conn_client (the (pp_client_workers priv2)) = [None]"
       "map pw_conn_client (the (pp_client_workers priv3)) = [Some (Held conn)]"
    by (rule wit_started)
  have "(proxy_step wit_pcre wit_md5 wit_proxy_conf)\<^sup>*\<^sup>* (priv2, s2) (priv3, s3)"
    using proxy_step.client [OF r(4)] by blast
  moreover have "ph_priv wit_handle = None" "cf_password wit_proxy_conf = Some ''PUBLIC''"
      "1 = 1 + unat (cf_bind_addr_ext_add_len wit_proxy_conf)"
    by (simp_all add: wit_handle_def wit_proxy_conf_def zero_conf_def)
  ultimately have "set (pp_idle_workers priv3) = {k. k < 1 \<and> pw_conn_client (worker_of priv3 k) = None} \<and>
      live s3 - proxy_blocks priv3 = live s - proxy_blocks (the (ph_priv ph))"
    using slots_shared_exactly [of wit_handle wit_net ph s wit_proxy_conf "''PUBLIC''", OF _ r(1) _ r(2,3)] by blast
  moreover have "pw_conn_client (worker_of priv3 0) \<noteq> None"
    using c(2) by (auto simp: map_eq_Cons_conv)
  ultimately have e: "set (pp_idle_workers priv3) = {}" "live s3 - proxy_blocks priv3 = live s - proxy_blocks (the (ph_priv ph))"
    by auto
  show ?thesis
    by (intro exI conjI) (fact r e)+
qed

text \<open>C2: A proxy that is closed gives everything back.  After any run in the end of which no worker has a client,
  \<open>proxy_free\<close> is defined and releases all blocks that \<open>proxy_init\<close>, \<open>proxy_open\<close>, \<open>proxy_start\<close> and the run
  have taken, and those of the configuration.\<close>

theorem proxy_life_no_leak:
  assumes "ph_priv ph = None" and "proxy_init s0 ph = Some (0, ph1, s)" and "cf_password conf = Some password" and "conf_wf conf"
    and "proxy_open pcre s' sys conf (the (ph_priv ph1)) = Some (0, priv1, sys1, s1)"
    and "proxy_start ctx s1 conf priv1 = Some (0, priv2, s2)"
    and "(proxy_step pcre ctx conf)\<^sup>*\<^sup>* (priv2, s2) (priv3, s3)"
    and "\<forall>k < 1 + unat (cf_bind_addr_ext_add_len conf). pw_conn_client (worker_of priv3 k) = None"
  shows "\<exists>ph' s4. proxy_free s3 \<lparr>ph_priv = Some priv3, ph_conf = conf, ph_syslog = sys1\<rparr> = Some (ph', s4) \<and>
    ph_priv ph' = None \<and> conf_blocks (ph_conf ph') = 0 \<and> live s4 = live s0 + (live s' - live s) - conf_blocks conf"
proof -
  obtain priv where p: "ph_priv ph1 = Some priv" "base_ok priv" "pp_clients priv = None" "pp_client_workers priv = None"
    "pp_idle_workers priv = []" "\<forall>rs. pp_reg_service priv = Some rs \<longrightarrow> rp_reg_suffix rs = None" "live s = live s0 + proxy_blocks priv"
    using proxy_init_new [OF assms(1,2)] by blast
  have run: "run_ok (1 + unat (cf_bind_addr_ext_add_len conf)) priv3" "live s3 - proxy_blocks priv3 = live s' - proxy_blocks priv"
    using service_runs [OF p(2-5) p(6) [rule_format] assms(3) _ assms(6,7)] assms(5) p(1) by simp_all
  from proxy_free_live [OF _ quiet_resting [OF run(1) assms(8)], of "\<lparr>ph_priv = Some priv3, ph_conf = conf, ph_syslog = sys1\<rparr>" s3]
  show ?thesis
    using run(2) p(7) assms(4) by auto
qed

theorem proxy_life_no_leak_witness:
  "\<exists>ph s priv1 sys1 s1 priv2 s2 ph' s3. proxy_init wit_net wit_handle = Some (0, ph, s) \<and>
     proxy_open wit_pcre s False wit_proxy_conf (the (ph_priv ph)) = Some (0, priv1, sys1, s1) \<and>
     proxy_start wit_md5 s1 wit_proxy_conf priv1 = Some (0, priv2, s2) \<and>
     proxy_free s2 \<lparr>ph_priv = Some priv2, ph_conf = wit_proxy_conf, ph_syslog = sys1\<rparr> = Some (ph', s3) \<and>
     live s3 = live wit_net - conf_blocks wit_proxy_conf"
proof -
  obtain ph s priv1 sys1 s1 priv2 s2 priv3 s3 conn where r: "proxy_init wit_net wit_handle = Some (0, ph, s)"
     "proxy_open wit_pcre s False wit_proxy_conf (the (ph_priv ph)) = Some (0, priv1, sys1, s1)"
     "proxy_start wit_md5 s1 wit_proxy_conf priv1 = Some (0, priv2, s2)" "proxy_process s2 priv2 = (0, priv3, s3)"
     and c: "map pw_conn_client (the (pp_client_workers priv2)) = [None]"
       "map pw_conn_client (the (pp_client_workers priv3)) = [Some (Held conn)]"
    by (rule wit_started)
  have "ph_priv wit_handle = None" "cf_password wit_proxy_conf = Some ''PUBLIC''" "conf_wf wit_proxy_conf"
      "\<forall>k < 1 + unat (cf_bind_addr_ext_add_len wit_proxy_conf). pw_conn_client (worker_of priv2 k) = None"
    using c(1) by (auto simp: wit_handle_def wit_proxy_conf_def zero_conf_def conf_wf_def map_eq_Cons_conv)
  from proxy_life_no_leak [OF this(1) r(1) this(2,3) r(2,3) rtranclp.rtrancl_refl this(4)]
  show ?thesis
    using r by auto
qed

text \<open>C4: A worker always comes back.  Whatever its client sends, and in whatever pieces, the function of a worker that has been given a client returns: the worker is in the list of
  idle workers again and everything else is as the invariant says.\<close>

theorem worker_comes_back:
  assumes "run_ok n priv" and "k < n" and "pw_conn_client (worker_of priv k) = Some (Held conn)"
    and "cf_password conf = Some password" and "os_wf s"
  shows "\<exists>priv' s'. proxy_worker_func pcre ctx rnd buff conf s priv k = Some (priv', s') \<and> run_ok n priv' \<and>
    k \<in> set (pp_idle_workers priv') \<and> live s' - proxy_blocks priv' = live s - proxy_blocks priv"
proof -
  obtain priv' s' where f: "proxy_worker_func pcre ctx rnd buff conf s priv k = Some (priv', s')"
    "runs_on n (priv, s) (priv', s')" "pw_conn_client (worker_of priv' k) = None"
    using worker_func_runs [OF assms] by blast
  then have "run_ok n priv'"
    by (simp add: runs_on_def)
  from run_ok_parts(4) [OF this] show ?thesis
    using f assms(2) by (auto simp: runs_on_def)
qed

theorem worker_comes_back_witness:
  "\<exists>ph s priv1 sys1 s1 priv2 s2 priv3 s3 priv4 s4. proxy_init wit_net wit_handle = Some (0, ph, s) \<and>
     proxy_open wit_pcre s False wit_proxy_conf (the (ph_priv ph)) = Some (0, priv1, sys1, s1) \<and>
     proxy_start wit_md5 s1 wit_proxy_conf priv1 = Some (0, priv2, s2) \<and> proxy_process s2 priv2 = (0, priv3, s3) \<and>
     proxy_worker_func wit_pcre wit_md5 7 (replicate 28 0) wit_proxy_conf (wit_os (wit_sock [] [])) priv3 0 = Some (priv4, s4) \<and>
     0 \<in> set (pp_idle_workers priv4)"
proof -
  obtain ph s priv1 sys1 s1 priv2 s2 priv3 s3 conn where r: "proxy_init wit_net wit_handle = Some (0, ph, s)"
     "proxy_open wit_pcre s False wit_proxy_conf (the (ph_priv ph)) = Some (0, priv1, sys1, s1)"
     "proxy_start wit_md5 s1 wit_proxy_conf priv1 = Some (0, priv2, s2)" "proxy_process s2 priv2 = (0, priv3, s3)"
     and c: "map pw_conn_client (the (pp_client_workers priv2)) = [None]"
       "map pw_conn_client (the (pp_client_workers priv3)) = [Some (Held conn)]"
    by (rule wit_started)
  have w: "ph_priv wit_handle = None" "cf_password wit_proxy_conf = Some ''PUBLIC''" "os_wf (wit_os (wit_sock [] []))"
    by (simp_all add: wit_handle_def wit_proxy_conf_def os_wf_def wit_os_def)
  obtain priv where p: "ph_priv ph = Some priv" "base_ok priv" "pp_clients priv = None" "pp_client_workers priv = None"
    "pp_idle_workers priv = []" "\<forall>rs. pp_reg_service priv = Some rs \<longrightarrow> rp_reg_suffix rs = None"
    using proxy_init_new [OF w(1) r(1)] by blast
  have "(proxy_step wit_pcre wit_md5 wit_proxy_conf)\<^sup>*\<^sup>* (priv2, s2) (priv3, s3)"
    using proxy_step.client [OF r(4)] by blast
  from service_runs [OF p(2-5) p(6) [rule_format] w(2) _ r(3) this] have "run_ok 1 priv3"
    using r(2) p(1) by (simp add: wit_proxy_conf_def zero_conf_def)
  moreover have "pw_conn_client (worker_of priv3 0) = Some (Held conn)"
    using c(2) by (auto simp: map_eq_Cons_conv)
  ultimately obtain priv4 s4 where f: "proxy_worker_func wit_pcre wit_md5 7 (replicate 28 0) wit_proxy_conf
      (wit_os (wit_sock [] [])) priv3 0 = Some (priv4, s4)" "0 \<in> set (pp_idle_workers priv4)"
    using worker_comes_back [of 1 priv3 0 conn wit_proxy_conf "''PUBLIC''", OF _ _ _ w(2,3),
        where pcre = wit_pcre and ctx = wit_md5 and rnd = 7 and buff = "replicate 28 0"] by auto
  show ?thesis
    by (intro exI conjI) (fact r f)+
qed

text \<open>C40: When a proxy cannot be initialized.  \<open>proxy_init\<close> succeeds with all parts set up, or the first allocation
  fails, which is reported with nothing taken, or another part fails, and then the clean-up of
  \<open>proxy_free\<close> follows a null pointer: there is no other outcome.\<close>

theorem proxy_init_outcome:
  assumes "ph_priv ph = None"
  shows "case proxy_init s ph of
      None \<Rightarrow> fst (os_alloc s) \<and> fst (init_parts (snd (os_alloc s)) (ph_conf ph) (new_proxy_priv :: 're proxy_priv)) < 0
    | Some (r, ph' :: 're proxy_handle, s') \<Rightarrow>
        r = - ENOMEM \<and> ph' = ph \<and> live s' = live s \<or>
        r = 0 \<and> (\<exists>priv. ph_priv ph' = Some priv \<and> resting priv \<and> closed_service priv \<and> live s' = live s + proxy_blocks priv)"
proof -
  obtain ok s1 where 1: "os_alloc s = (ok, s1)" by (metis surj_pair)
  obtain r conf priv s2 where 2: "init_parts s1 (ph_conf ph) (new_proxy_priv :: 're proxy_priv) = (r, conf, priv, s2)"
    by (metis prod_cases4)
  note f = init_parts_live [OF 2] and l = os_alloc_live [OF 1]
  show ?thesis
  proof (cases "ok \<and> r = 0")
    case True
    then show ?thesis
      using assms 1 2 f l by (simp add: proxy_init_def)
  next
    case False
    then consider "\<not> ok" | "ok" "r \<noteq> 0"
      by blast
    then show ?thesis
    proof cases
      case 1
      then show ?thesis
        using assms \<open>os_alloc s = (ok, s1)\<close> l by (simp add: proxy_init_def)
    next
      case 2
      then have "r < 0" "proxy_close s2 (ph_syslog ph) priv = None"
        using f proxy_close_undefined [of priv s2] by simp_all
      then show ?thesis
        using assms \<open>os_alloc s = (ok, s1)\<close> 2 \<open>init_parts s1 (ph_conf ph) new_proxy_priv = (r, conf, priv, s2)\<close>
        by (simp add: proxy_init_def proxy_free_def)
    qed
  qed
qed

theorem proxy_init_outcome_witness:
  "ph_priv wit_handle = None \<and> proxy_init (wit_net\<lparr>script := [0, 12]\<rparr>) wit_handle = None \<and>
   fst (init_parts (snd (os_alloc (wit_net\<lparr>script := [0, 12]\<rparr>))) (ph_conf wit_handle) (new_proxy_priv :: unit proxy_priv)) < 0"
proof -
  have w: "ph_priv wit_handle = None"
    by (simp add: wit_handle_def)
  have "proxy_init (wit_net\<lparr>script := [0, 12]\<rparr>) wit_handle = None"
    by code_simp
  with proxy_init_outcome [OF w, of "wit_net\<lparr>script := [0, 12]\<rparr>"] w show ?thesis
    by simp
qed

end
