(* ===== verification/Proxyd.thy ===== *)
theory Proxyd
  imports ProxyRun
begin

text \<open>
  Of the daemon, src/proxyd.c: the parsing of the command line, the choice of the configuration file
  and of the first level of the log, the signal handler and the dispatch loop of \<open>main\<close>.

  A call of \<open>exit\<close> is the result \<open>Inl\<close> of its status; what is printed before it is left out,
  and so are the calls of the logger and the branches for Windows.  The
  switches of the build, \<open>HAVE_EVENTLOG\<close>, \<open>HAVE_SYSLOG\<close> and \<open>OPENELP_CONFIG_HINT\<close>, are parameters.
\<close>

section \<open>Options\<close>

record proxy_opts =
  op_config_path :: "string option"
  op_log_path :: "string option"
  op_debug :: bool
  op_eventlog :: bool
  op_foreground :: bool
  op_syslog :: bool
  op_quiet :: bool

definition zero_opts :: proxy_opts where
  "zero_opts = \<lparr>op_config_path = None, op_log_path = None, op_debug = False, op_eventlog = False,
     op_foreground = False, op_syslog = False, op_quiet = False\<rparr>"

text \<open>The flags of one argument behind its hyphen; \<open>rest\<close> is what follows the argument.\<close>

fun parse_flags :: "bool \<Rightarrow> bool \<Rightarrow> string \<Rightarrow> string list \<Rightarrow> proxy_opts \<Rightarrow> int + proxy_opts \<times> string list" where
  "parse_flags ev sl [] rest opts = Inr (opts, rest)"
| "parse_flags ev sl (c # cs) rest opts =
     (if c = CHR ''d'' then parse_flags ev sl cs rest (opts\<lparr>op_debug := True\<rparr>)
      else if ev \<and> c = CHR ''E''
      then (if op_log_path opts \<noteq> None \<or> op_syslog opts then Inl (- EINVAL)
            else parse_flags ev sl cs rest (opts\<lparr>op_eventlog := True\<rparr>))
      else if c = CHR ''F'' then parse_flags ev sl cs rest (opts\<lparr>op_foreground := True\<rparr>)
      else if c = CHR ''h'' then Inl 0
      else if c = CHR ''L''
      then (if op_eventlog opts \<or> op_syslog opts then Inl (- EINVAL)
            else if cs \<noteq> [] then Inr (opts\<lparr>op_log_path := Some cs\<rparr>, rest)
            else case rest of
                   [] \<Rightarrow> Inl (- EINVAL)
                 | a # rest \<Rightarrow> Inr (opts\<lparr>op_log_path := Some a\<rparr>, rest))
      else if c = CHR ''q'' then parse_flags ev sl cs rest (opts\<lparr>op_quiet := True\<rparr>)
      else if sl \<and> c = CHR ''S''
      then (if op_eventlog opts \<or> op_log_path opts \<noteq> None then Inl (- EINVAL)
            else parse_flags ev sl cs rest (opts\<lparr>op_syslog := True\<rparr>))
      else if c = CHR ''V'' then Inl 0
      else Inl (- EINVAL))"

lemma parse_flags_rest: "parse_flags ev sl cs rest opts = Inr (opts', rest') \<Longrightarrow> length rest' \<le> length rest"
  by (induction ev sl cs rest opts rule: parse_flags.induct) (auto split: if_splits list.splits)

function parse_args :: "bool \<Rightarrow> bool \<Rightarrow> string list \<Rightarrow> proxy_opts \<Rightarrow> int + proxy_opts" where
  "parse_args ev sl [] opts = Inr opts"
| "parse_args ev sl (a # rest) opts =
     (if length a > 1 \<and> a ! 0 = CHR ''-''
      then
        if a ! 1 = CHR ''-''
        then
          if drop 2 a = ''debug'' then parse_args ev sl rest (opts\<lparr>op_debug := True\<rparr>)
          else if drop 2 a = ''help'' then Inl 0
          else if drop 2 a = ''quiet'' then parse_args ev sl rest (opts\<lparr>op_quiet := True\<rparr>)
          else if drop 2 a = ''version'' then Inl 0
          else Inl (- EINVAL)
        else
          case parse_flags ev sl (drop 1 a) rest opts of
            Inl e \<Rightarrow> Inl e
          | Inr (opts, rest) \<Rightarrow> parse_args ev sl rest opts
      else if length a > 0
      then (if op_config_path opts = None then parse_args ev sl rest (opts\<lparr>op_config_path := Some a\<rparr>)
            else Inl (- EINVAL))
      else Inl (- EINVAL))"
  by pat_completeness auto

termination
  by (relation "measure (\<lambda>(ev, sl, args, opts). length args)") (auto dest: parse_flags_rest)

section \<open>The main program\<close>

definition config_path_default :: string where
  "config_path_default = ''ELProxy.conf''"

text \<open>\<open>readable\<close> is whether the file of the default name can be read.\<close>

definition proxy_config_hint :: "bool \<Rightarrow> string \<Rightarrow> string" where
  "proxy_config_hint readable hint = (if \<not> readable then hint else config_path_default)"

definition main_config_path :: "string option \<Rightarrow> bool \<Rightarrow> proxy_opts \<Rightarrow> string" where
  "main_config_path hint readable opts =
     (case op_config_path opts of
        Some path \<Rightarrow> path
      | None \<Rightarrow> (case hint of Some h \<Rightarrow> proxy_config_hint readable h | None \<Rightarrow> config_path_default))"

definition main_log_level :: "proxy_opts \<Rightarrow> LOG_LEVEL" where
  "main_log_level opts =
     (if op_quiet opts then LOG_LEVEL_WARN else if op_debug opts then LOG_LEVEL_DEBUG else LOG_LEVEL_INFO)"

text \<open>The numbers of the signals are those of Linux.\<close>

abbreviation (input) SIGINT :: int where "SIGINT \<equiv> 2"
abbreviation (input) SIGUSR1 :: int where "SIGUSR1 \<equiv> 10"
abbreviation (input) SIGTERM :: int where "SIGTERM \<equiv> 15"

definition graceful_shutdown :: "int \<Rightarrow> bool \<Rightarrow> os \<Rightarrow> 're proxy_priv \<Rightarrow> (bool \<times> 're proxy_priv \<times> os) option" where
  "graceful_shutdown signum sentinel s priv =
     (let sentinel = (if signum = SIGTERM \<or> signum = SIGINT then True else sentinel)
      in if signum = SIGTERM \<or> signum = SIGINT \<or> signum = SIGUSR1
         then map_option (\<lambda>(priv, s). (sentinel, priv, s)) (proxy_shutdown s priv)
         else Some (sentinel, priv, s))"

text \<open>The dispatch loop, when the sentinel is read \<open>n\<close> times before a signal sets it.  After EINTR
  the program waits for the signal.\<close>

fun dispatch :: "nat \<Rightarrow> int \<Rightarrow> os \<Rightarrow> 're proxy_priv \<Rightarrow> int \<times> 're proxy_priv \<times> os" where
  "dispatch 0 ret s priv = (ret, priv, s)"
| "dispatch (Suc n) ret s priv =
     (if ret = 0
      then (case proxy_process s priv of (ret, priv, s) \<Rightarrow>
              if ret = - EINTR then (0, priv, s) else dispatch n ret s priv)
      else (ret, priv, s))"

section \<open>Lemmas\<close>

text \<open>No command line selects two ways of logging.\<close>

definition one_log :: "proxy_opts \<Rightarrow> bool" where
  "one_log opts \<longleftrightarrow>
     \<not> (op_log_path opts \<noteq> None \<and> op_syslog opts) \<and> \<not> (op_log_path opts \<noteq> None \<and> op_eventlog opts) \<and>
     \<not> (op_syslog opts \<and> op_eventlog opts)"

lemma one_log_simps [simp]:
  "one_log (opts\<lparr>op_debug := b\<rparr>) = one_log opts" "one_log (opts\<lparr>op_quiet := b\<rparr>) = one_log opts"
  "one_log (opts\<lparr>op_foreground := b\<rparr>) = one_log opts" "one_log (opts\<lparr>op_config_path := c\<rparr>) = one_log opts"
  by (simp_all add: one_log_def)

lemma parse_flags_one_log:
  "parse_flags ev sl cs rest opts = Inr (opts', rest') \<Longrightarrow> one_log opts \<Longrightarrow> one_log opts'"
  by (induction ev sl cs rest opts rule: parse_flags.induct) (auto simp: one_log_def split: if_splits list.splits)

lemma parse_args_one_log:
  "parse_args ev sl args opts = Inr opts' \<Longrightarrow> one_log opts \<Longrightarrow> one_log opts'"
proof (induction ev sl args opts rule: parse_args.induct)
  case (2 ev sl a rest opts)
  show ?case
    using 2 parse_flags_one_log [of ev sl "drop 1 a" rest opts] by (auto split: if_splits sum.splits)
qed simp

text \<open>The parser stops with the status of success only for the options that print something, and with
  EINVAL otherwise.\<close>

lemma parse_flags_status: "parse_flags ev sl cs rest opts = Inl e \<Longrightarrow> e = - EINVAL \<or> e = 0 \<and> set cs \<inter> {CHR ''h'', CHR ''V''} \<noteq> {}"
  by (induction ev sl cs rest opts rule: parse_flags.induct) (auto split: if_splits list.splits)

lemma parse_args_status: "parse_args ev sl args opts = Inl e \<Longrightarrow> e = - EINVAL \<or> e = 0"
proof (induction ev sl args opts rule: parse_args.induct)
  case (2 ev sl a rest opts)
  show ?case
    using 2 parse_flags_status [of ev sl "drop 1 a" rest opts e] by (auto split: if_splits sum.splits)
qed simp

text \<open>The dispatch loop makes steps of theory ProxyRun, so that the invariant holds when it ends.\<close>

lemma dispatch_steps: "dispatch n ret s priv = (r, priv', s') \<Longrightarrow> (proxy_step pcre ctx conf)\<^sup>*\<^sup>* (priv, s) (priv', s')"
proof (induction n ret s priv rule: dispatch.induct)
  case (2 n ret s priv)
  obtain r1 priv1 s1 where 1: "proxy_process s priv = (r1, priv1, s1)" by (metis prod_cases3)
  note st = proxy_step.client [OF 1, of pcre ctx conf]
  show ?case
  proof (cases "ret = 0 \<and> r1 \<noteq> - EINTR")
    case True
    then have "dispatch n r1 s1 priv1 = (r, priv', s')"
      using 2(2) 1 by simp
    then show ?thesis
      using 2(1) [OF _ 1 [symmetric] refl] True converse_rtranclp_into_rtranclp [of "proxy_step pcre ctx conf", OF st] by blast
  next
    case False
    then show ?thesis
      using 2(2) 1 st by (auto split: if_splits)
  qed
qed simp

lemma dispatch_keeps:
  fixes conf :: proxy_conf
  assumes "run_ok n priv" and "cf_password conf = Some password" and "dispatch m 0 s priv = (r, priv', s')"
  shows "run_ok n priv' \<and> live s' - proxy_blocks priv' = live s - proxy_blocks priv"
  using steps_run [OF dispatch_steps [OF assms(3), of undefined undefined conf] _ assms(2), of n] assms(1) by (simp add: runs_on_def)

text \<open>The signal handler keeps the invariant and sets the sentinel for the signals that end the program.\<close>

lemma graceful_shutdown_defined:
  assumes "run_ok n priv"
  shows "\<exists>sent priv' s'. graceful_shutdown signum sentinel s priv = Some (sent, priv', s') \<and> run_ok n priv' \<and>
    (sent \<longleftrightarrow> sentinel \<or> signum = SIGTERM \<or> signum = SIGINT)"
  using proxy_shutdown_runs [OF assms, of s] assms by (auto simp: graceful_shutdown_def Let_def runs_on_def)

end
