(* ===== verification/Spec2Isabelle.thy ===== *)
theory Spec2Isabelle
  imports Client ProxyLife Proxyd
begin

text \<open>
  A verification of OpenELP, an open source proxy for EchoLink, in its POSIX build.  The paths below
  are relative to the root of the repository.

  \<^bold>\<open>The program.\<close>  A proxy lets EchoLink clients behind a firewall use the network of another
  machine.  A client connects over TCP, logs in with a callsign and the MD5 response to a nonce, and
  then exchanges messages with the proxy: each carries the payload of a UDP packet or of a TCP
  connection to or from another station.  The daemon (src/proxyd.c) reads a configuration, opens and
  starts the proxy and hands every new connection to an idle worker (src/proxy.c).  The worker runs the
  handshake, takes an idle slot (src/proxy_conn.c), which has the external address and the UDP ports,
  and processes the client's messages; three more workers of the slot forward what comes from the
  network.  A background worker reports the use of the slots to a registrar (src/registration.c).
  Below these are connections (src/conn.c), workers and threads (src/worker.c, src/thread_posix.c), locks
  (src/mutex_posix.c), the configuration parser (src/conf.c), the logger (src/log.c), regular expressions,
  digests and hashes.  src/proxy_client.c is the other end: the client library.

  \<^bold>\<open>The theories.\<close>
  \<^item> Prelude: types, words and bytes, and the interface \<open>codec\<close>.
  \<^item> Md5, Digest, Pearson: src/md5.c, src/digest.c and src/pearson.c as functions on words.  The streaming MD5
    equals the digest of RFC 1321, the conversions are inverse to each other, the hash is one to one
    in every byte.
  \<^item> Os: the operating system as a record: the outcomes of the calls to come (a script of errno
    numbers, 0 for success), the number of allocated blocks and running threads, the sockets with what
    they have to deliver, and the peers of the connections to come.
  \<^item> Mutex, Thread, Worker: the handles of src/mutex_posix.c, src/thread_posix.c and src/worker.c, with the
    interface \<open>managed\<close> (who allocates, releases), and step relations for any number of threads in the
    locking protocol (\<open>mstep\<close>) and for a worker against its callers (\<open>wstep\<close>): exclusion as long as no
    condition variable is used with the lock, a run that breaks it when one is, progress, that work
    that was signalled is next, that a join ends.
  \<^item> Conn: all functions of src/conn.c on sockets that cut streams as they like: exact reception,
    delivery when the socket takes a buffer in one piece and the repeated bytes when it does not, no
    descriptor lost; interfaces \<open>byte_reader\<close> and \<open>conn_opener\<close>.
  \<^item> Auth: src/regex.c, src/rand.c and the handshake of src/proxy.c: who is let in, exactly.
  \<^item> Message, ProxyConn, ProxyRelay: the messages of include/proxy_msg.h and the slots of src/proxy_conn.c; every
    handler and forwarder and their interleaving (\<open>serve_step\<close>).  The client gets whole messages; while
    the connections work, what is relayed is what was sent; forwarders end.
  \<^item> Conf, Log, Registration: src/conf.c with the parser down to the characters and a printer that it
    inverts; src/log.c with its media; src/registration.c with the text of its reports and the bounds of its buffers.
  \<^item> SlotPool: the doubly linked list of idle slots and the hash map by callsign of src/proxy.c, with every
    pointer and pointer to a pointer a cell, refining a queue and a map of lists.
  \<^item> Proxy, SlotService, ProxyRun, ProxyLife: src/proxy.c.  Proxy has its records and functions with an account of
    their memory; SlotService what a slot in service keeps; ProxyRun the interleaving of clients,
    workers and forwarders (\<open>proxy_step\<close>) and its invariant \<open>run_ok\<close>; ProxyLife the properties of a life
    from \<open>proxy_init\<close> to \<open>proxy_free\<close>.
  \<^item> Client: src/proxy_client.c.  Proxyd: the command line, the signal handler and the dispatch loop of
    src/proxyd.c.
  \<^item> This theory: that the two ends of the handshake fit together.

  \<^bold>\<open>Conventions.\<close>  A struct is a record, an enum a datatype, a fixed-width integer a word; \<open>int\<close>
  results and errno numbers are integers, and a negative result is an error as in the code.  A function
  that changes state takes and returns the records it changes.  Following a null pointer is the result
  None where a caller can reach it.  Allocation fails when the script says so, and each theory counts
  the blocks its handles own, so that leaks are statements about \<open>live\<close>.  A connection's reception is a
  list of events, which makes segmentation a quantifier.  The PCRE2 library is a record of two
  functions (\<open>pcre\<close>), the value of \<open>rand()\<close> and uninitialised buffers are arguments.

  \<^bold>\<open>Termination.\<close>  No fuel is used.  Loops are recursive functions with a measure, mostly the number of
  bytes left; the loops of a forwarder and of a worker over a client's messages are bounded by what
  their socket has to deliver (\<open>fd_weight\<close>).  Two loops that follow pointers or messages are partial
  functions (\<open>reconnect\<close>, \<open>process_loop\<close>) and are proved to return in every state the proxy reaches.
  \<open>dispatch\<close> takes the number of its turns before the signal that ends it.

  \<^bold>\<open>Not modelled.\<close>  The Windows branches and files (src/mutex_win.c, src/thread_win.c, src/conn_wsa_errno.c,
  src/service.c), which are calls of another system; daemonizing and printing in src/proxyd.c; the calls of the logger
  where only a message depends on them; the OpenSSL variant of the digests; the seed of the random numbers.  Workers are
  interleaved at the points where the code gives up its locks for long, not at each instruction.
  Mutex has the protocol of the locks by itself; the use of each lock in each function is not followed.
  The return of a slot is one step in ProxyRun; in the code another client can come between its two
  halves, and \<open>reconnect_race_loses_slot\<close> in SlotPool shows what it does then.  The invariant \<open>run_ok\<close> is
  about the runs without this race.
\<close>

text \<open>C3: A client of the library can log in to the proxy.  \<open>proxy_client_connect\<close> of the client library, which
  gets a nonce, succeeds, and what it sends makes \<open>proxy_worker_authorize\<close> of the proxy that has sent
  the nonce accept it, exactly if the callsign is authorized: when the passwords agree but for the
  case of their letters, for any callsign that fits, and however the network cuts the bytes into
  pieces.  The proxy takes down the callsign of the client.\<close>

theorem client_login_accepted:
  assumes "conn_connect s (the (ch_priv ch)) (ch_host_addr ch) (ch_host_port ch) = (0, conn, s1)"
    and "c_priv (the (ch_priv ch)) \<noteq> None" and "next_fd s \<noteq> - 1"
    and "greets (next_peer s) rnd rest" and "sk_wire (next_peer s) = []"
    and "length (ctx_buffer ctx) = 64" and "length (client_password ch) + 8 < 2 ^ 32"
    and "proxy_client_connect ctx s ch = (r, ch', s')"
    and "conn_up t sconn k" and "\<not> sk_shut k" and "sk_tx k = []"
    and "sk_stream k = sk_wire (the (socks s' (next_fd s))) @ later"
    and "length (ctx_buffer ctx') = 64" and "length password + 8 < 2 ^ 32" and "length buff = 28"
    and "proxy_worker_authorize pcre res ctx' password rnd buff t sconn callsign = (r', cs, t')"
    and "upcase password = upcase (client_password ch)" and "callsign_ok (client_callsign ch)"
  shows "r = 0 \<and> cs = cstr (string_of_bytes (client_callsign ch)) \<and>
    r' = (if fst (proxy_authorize_callsign pcre t res cs) = 1 then 0 else - EACCES)"
proof -
  obtain k' where c: "r = 0" "cp_fd (cpriv conn) = next_fd s" "conn_good s' conn k'"
    "sk_wire k' = login_bytes rnd (client_password ch) (client_callsign ch)"
    using client_connect_good [OF assms(1-4,6,7)] assms(5,8) by auto
  have "sk_stream k = login_bytes rnd password (client_callsign ch) @ later"
    using c(2-4) assms(12,17) by (simp add: conn_good_def conn_up_def login_bytes_def password_digest_def)
  from authorize_login [OF assms(9-11,13-16) this assms(18)] c(1) show ?thesis
    by blast
qed

theorem client_login_accepted_witness:
  "let s = (wit_os no_peer)\<lparr>peers := [wit_sock [RxData (bytes_of_string (digest_to_hex32 0x4d3b6d47))] []]\<rparr>;
       (r, ch', s') = proxy_client_connect wit_md5 s wit_client;
       t = wit_os (wit_sock [RxData (sk_wire (the (socks s' 4)))] []);
       (r', cs, t') = proxy_worker_authorize wit_pcre \<lparr>re_calls_allowed = None, re_calls_denied = None\<rparr> wit_md5 ''public''
         0x4d3b6d47 (replicate 28 0) t wit_conn []
   in r = 0 \<and> r' = 0 \<and> cs = ''KM0H''"
proof -
  define s where "s = (wit_os no_peer)\<lparr>peers := [wit_sock [RxData (bytes_of_string (digest_to_hex32 0x4d3b6d47))] []]\<rparr>"
  obtain r ch' s' where 1: "proxy_client_connect wit_md5 s wit_client = (r, ch', s')" by (metis prod_cases3)
  define k where "k = wit_sock [RxData (sk_wire (the (socks s' 4)))] []"
  obtain r' cs t' where 2: "proxy_worker_authorize wit_pcre \<lparr>re_calls_allowed = None, re_calls_denied = None\<rparr> wit_md5 ''public''
      0x4d3b6d47 (replicate 28 0) (wit_os k) wit_conn [] = (r', cs, t')"
    by (metis prod_cases3)
  have "fst (conn_connect s (the (ch_priv wit_client)) (ch_host_addr wit_client) (ch_host_port wit_client)) = 0"
    unfolding s_def by code_simp
  then obtain conn s1 where c: "conn_connect s (the (ch_priv wit_client)) (ch_host_addr wit_client) (ch_host_port wit_client) = (0, conn, s1)"
    by (metis prod_cases3 fst_conv)
  have "c_priv (the (ch_priv wit_client)) \<noteq> None" "next_fd s \<noteq> - 1" "sk_wire (next_peer s) = []"
    "length (ctx_buffer wit_md5) = 64" "length (client_password wit_client) + 8 < 2 ^ 32"
    by (simp_all add: wit_client_def s_def wit_os_def next_peer_def wit_sock_def no_peer_def wit_md5_def client_password_def)
  moreover have "greets (next_peer s) 0x4d3b6d47 []"
    by (simp add: greets_def s_def next_peer_def wit_sock_def no_peer_def no_dgram_def sk_stream_def)
  moreover have "conn_up (wit_os k) wit_conn k" "\<not> sk_shut k" "sk_tx k = []" "sk_stream k = sk_wire (the (socks s' (next_fd s))) @ []"
    by (simp_all add: k_def s_def conn_up_def wit_os_def wit_conn_def wit_sock_def no_peer_def no_dgram_def sk_stream_def)
  moreover have "upcase ''public'' = upcase (client_password wit_client)" "callsign_ok (client_callsign wit_client)"
    by code_simp+
  ultimately have "r = 0 \<and> cs = cstr (string_of_bytes (client_callsign wit_client)) \<and>
      r' = (if fst (proxy_authorize_callsign wit_pcre (wit_os k) \<lparr>re_calls_allowed = None, re_calls_denied = None\<rparr> cs) = 1 then 0 else - EACCES)"
    using client_login_accepted [OF c _ _ _ _ _ _ 1, where k = k and t = "wit_os k" and sconn = wit_conn, OF _ _ _ _ _ _ _ _ _ _ _ _ _ 2]
    by simp
  moreover have "cstr (string_of_bytes (client_callsign wit_client)) = ''KM0H''"
    by code_simp
  ultimately show ?thesis
    using 1 2 by (simp add: s_def [symmetric] k_def proxy_authorize_callsign_def)
qed

end
